(* ===== verification/Prelude.thy ===== *)
theory Prelude
  imports Main "HOL-Library.Word" "HOL-Library.List_Lexorder" "HOL-Library.Char_ord"
    "HOL-Library.Sublist" "HOL-Library.Multiset"
begin

unbundle bit_operations_syntax

text \<open>
  Shared vocabulary of the development: the machine types of the Go source, three-way
  comparison as Go writes it (\<open>-1\<close>, \<open>0\<close>, \<open>1\<close>), byte-wise comparison, and the two
  interfaces the rest of the library is built on. \<open>total_cmp\<close> is the contract of a
  three-way comparison that is a total preorder; \<open>key_encoding\<close> is the contract of a
  byte encoding whose memcmp order is such a comparison, in the strong form that stays true
  when further bytes follow, so that encodings can be concatenated into index keys.
\<close>

section \<open>Machine types\<close>

type_synonym byte = "8 word"
type_synonym bytes = "8 word list"
type_synonym int32 = "32 word"
type_synonym int64 = "64 word"
type_synonym uint64 = "64 word"

text \<open>
  A Go string is a sequence of bytes. It is modelled as an Isabelle string, whose characters
  are exactly the 256 bytes; \<open>bytes_of\<close> is the conversion \<^verbatim>\<open>[]byte(s)\<close>.
\<close>

definition byte_of :: "char \<Rightarrow> byte" where
  "byte_of c = of_char c"

definition bytes_of :: "string \<Rightarrow> bytes" where
  "bytes_of s = map byte_of s"

text \<open>
  Errors carry a gRPC status code; their messages are not modelled. A fallible function returns
  \<open>Inl code\<close> or \<open>Inr result\<close>.
\<close>

datatype grpc_code =
    InvalidArgument | NotFound | AlreadyExists | FailedPrecondition | Aborted | Unimplemented
  | Unauthenticated | InternalError | UnknownError

type_synonym 'a result = "grpc_code + 'a"

definition bind_result :: "('e + 'a) \<Rightarrow> ('a \<Rightarrow> 'e + 'b) \<Rightarrow> 'e + 'b" where
  "bind_result r f = (case r of Inl e \<Rightarrow> Inl e | Inr x \<Rightarrow> f x)"

lemma bind_result_simps [simp]: "bind_result (Inl e) f = Inl e" "bind_result (Inr x) f = f x"
  by (simp_all add: bind_result_def)

lemma bind_result_Inr: "bind_result r f = Inr y \<longleftrightarrow> (\<exists>x. r = Inr x \<and> f x = Inr y)"
  by (cases r) auto

section \<open>Three-way comparison\<close>

named_theorems cmp_simps

definition cmp3 :: "'a::linorder \<Rightarrow> 'a \<Rightarrow> int" where
  "cmp3 a b = (if a < b then -1 else if b < a then 1 else 0)"

text \<open>The idiom \<^verbatim>\<open>if c := ...; c != 0 { return c }; return d\<close>.\<close>

definition then_cmp :: "int \<Rightarrow> int \<Rightarrow> int" where
  "then_cmp c d = (if c \<noteq> 0 then c else d)"

text \<open>Go's \<^verbatim>\<open>bytes.Compare\<close>.\<close>

fun bytes_Compare :: "bytes \<Rightarrow> bytes \<Rightarrow> int" where
  "bytes_Compare [] [] = 0"
| "bytes_Compare [] (y # ys) = -1"
| "bytes_Compare (x # xs) [] = 1"
| "bytes_Compare (x # xs) (y # ys) =
     (if x < y then -1 else if y < x then 1 else bytes_Compare xs ys)"

lemma then_cmp_simps [simp, cmp_simps]:
  "then_cmp 0 d = d" "then_cmp (-1) d = -1" "then_cmp 1 d = 1" "then_cmp c 0 = c"
  by (simp_all add: then_cmp_def)

lemma then_cmp_eq_0_iff [simp]: "then_cmp c d = 0 \<longleftrightarrow> c = 0 \<and> d = 0"
  by (simp add: then_cmp_def)

lemma then_cmp_assoc: "then_cmp (then_cmp a b) c = then_cmp a (then_cmp b c)"
  by (simp add: then_cmp_def)

lemma cmp3_simps [simp, cmp_simps]:
  "cmp3 a a = 0"
  "cmp3 a b = 0 \<longleftrightarrow> a = b" "cmp3 a b = -1 \<longleftrightarrow> a < b" "cmp3 a b = 1 \<longleftrightarrow> b < a"
  by (auto simp: cmp3_def)

lemma cmp3_neg [simp]: "cmp3 a b < 0 \<longleftrightarrow> a < b" "cmp3 a b \<le> 0 \<longleftrightarrow> a \<le> b"
  "0 < cmp3 a b \<longleftrightarrow> b < a" "0 \<le> cmp3 a b \<longleftrightarrow> b \<le> a"
  by (auto simp: cmp3_def)

lemma cmp3_swap: "cmp3 b a = - cmp3 a b"
  by (auto simp: cmp3_def)

lemma cmp3_mono_iff: "a < b \<longleftrightarrow> f a < f b \<Longrightarrow> b < a \<longleftrightarrow> f b < f a \<Longrightarrow> cmp3 (f a) (f b) = cmp3 a b"
  by (simp add: cmp3_def)

lemma bytes_Compare_cmp3: "bytes_Compare u v = cmp3 u v"
  by (induction u v rule: bytes_Compare.induct) (auto simp: cmp3_def)

lemma bytes_Compare_same_prefix [simp]: "bytes_Compare (p @ u) (p @ v) = bytes_Compare u v"
  by (induction p) auto

lemma bytes_Compare_refl [simp]: "bytes_Compare u u = 0"
  by (induction u) auto

lemma bytes_Compare_0_iff [simp]: "bytes_Compare u v = 0 \<longleftrightarrow> u = v"
  by (simp add: bytes_Compare_cmp3)

lemma bytes_Compare_swap: "bytes_Compare v u = - bytes_Compare u v"
  by (simp add: bytes_Compare_cmp3 cmp3_swap [of v u])

section \<open>Strings and their bytes\<close>

lemma unat_byte_of [simp]: "unat (byte_of c) = of_char c"
proof -
  have "byte_of c = word_of_nat (of_char c)"
    by (simp add: byte_of_def of_nat_of_char)
  moreover have "(of_char c :: nat) < 256"
    by (rule nat_of_char_less_256)
  ultimately show ?thesis
    by (simp add: unat_of_nat)
qed

lemma byte_of_less_iff [simp]: "byte_of c < byte_of d \<longleftrightarrow> c < d"
  by (simp add: word_less_nat_alt less_char_def)

lemma byte_of_eq_iff [simp]: "byte_of c = byte_of d \<longleftrightarrow> c = d"
  by (metis byte_of_less_iff less_irrefl linorder_neqE)

lemma bytes_of_simps [simp]:
  "bytes_of [] = []" "bytes_of (c # s) = byte_of c # bytes_of s"
  "bytes_of (s @ t) = bytes_of s @ bytes_of t"
  by (simp_all add: bytes_of_def)

lemma bytes_of_eq_iff [simp]: "bytes_of s = bytes_of t \<longleftrightarrow> s = t"
  by (induction s arbitrary: t; case_tac t) auto

lemma bytes_of_less_iff [simp]: "bytes_of s < bytes_of t \<longleftrightarrow> s < t"
  by (induction s arbitrary: t; case_tac t) auto

lemma bytes_Compare_bytes_of [simp]: "bytes_Compare (bytes_of s) (bytes_of t) = cmp3 s t"
  by (simp add: bytes_Compare_cmp3 cmp3_def)

text \<open>\<^verbatim>\<open>strings.Split(s, sep)\<close> and \<^verbatim>\<open>strings.Join(parts, sep)\<close> for a one-byte separator.\<close>

fun splitOn :: "char \<Rightarrow> string \<Rightarrow> string list" where
  "splitOn c [] = [[]]"
| "splitOn c (x # xs) =
     (if x = c then [] # splitOn c xs
      else case splitOn c xs of [] \<Rightarrow> [[x]] | s # ss \<Rightarrow> (x # s) # ss)"

fun joinWith :: "char \<Rightarrow> string list \<Rightarrow> string" where
  "joinWith c [] = []"
| "joinWith c [s] = s"
| "joinWith c (s # t # ss) = s @ c # joinWith c (t # ss)"

lemma splitOn_not_Nil [simp]: "splitOn c s \<noteq> []"
  by (induction s) (auto split: list.split)

lemma joinWith_splitOn [simp]: "joinWith c (splitOn c s) = s"
proof (induction s)
  case (Cons x s)
  then show ?case
    by (cases "splitOn c s"; cases "tl (splitOn c s)") auto
qed simp

lemma splitOn_inj: "splitOn c s = splitOn c t \<longleftrightarrow> s = t"
  by (metis joinWith_splitOn)

lemma splitOn_no_sep: "c \<notin> set s \<Longrightarrow> splitOn c s = [s]"
  by (induction s) auto

lemma splitOn_append: "c \<notin> set s \<Longrightarrow> splitOn c (s @ c # t) = s # splitOn c t"
  by (induction s) auto

lemma splitOn_segments: "seg \<in> set (splitOn c s) \<Longrightarrow> c \<notin> set seg"
  by (induction s arbitrary: seg) (auto split: if_splits list.splits)

lemma splitOn_joinWith:
  "ss \<noteq> [] \<Longrightarrow> \<forall>s \<in> set ss. c \<notin> set s \<Longrightarrow> splitOn c (joinWith c ss) = ss"
  by (induction c ss rule: joinWith.induct) (auto simp: splitOn_no_sep splitOn_append)

section \<open>Big-endian fixed-width integers\<close>

text \<open>
  \<^verbatim>\<open>binary.BigEndian.AppendUint16/32/64\<close>: the \<open>n\<close> bytes of \<open>m\<close>, most significant first.
\<close>

fun be_bytes :: "nat \<Rightarrow> nat \<Rightarrow> bytes" where
  "be_bytes 0 m = []"
| "be_bytes (Suc n) m = word_of_nat (m div 256 ^ n) # be_bytes n (m mod 256 ^ n)"

lemma length_be_bytes [simp]: "length (be_bytes n m) = n"
  by (induction n arbitrary: m) auto

lemma be_bytes_cmp:
  assumes "m < 256 ^ n" "m' < 256 ^ n"
  shows "bytes_Compare (be_bytes n m @ x) (be_bytes n m' @ y) =
    then_cmp (cmp3 m m') (bytes_Compare x y)"
  using assms
proof (induction n arbitrary: m m')
  case (Suc n)
  let ?q = "m div 256 ^ n" and ?q' = "m' div 256 ^ n"
  let ?r = "m mod 256 ^ n" and ?r' = "m' mod 256 ^ n"
  have q: "?q < 256" "?q' < 256"
    using Suc.prems by (simp_all add: less_mult_imp_div_less mult.commute)
  then have less: "(word_of_nat ?q :: byte) < word_of_nat ?q' \<longleftrightarrow> ?q < ?q'"
    "(word_of_nat ?q' :: byte) < word_of_nat ?q \<longleftrightarrow> ?q' < ?q"
    by (simp_all add: word_less_nat_alt unat_of_nat)
  have m: "m = ?q * 256 ^ n + ?r" "m' = ?q' * 256 ^ n + ?r'"
    by (simp_all add: div_mult_mod_eq)
  have r: "?r < 256 ^ n" "?r' < 256 ^ n" by simp_all
  have mono: "a * 256 ^ n + s < b * 256 ^ n + t" if "a < b" "s < 256 ^ n" for a b s t :: nat
  proof -
    have "a * 256 ^ n + s < Suc a * 256 ^ n" using that(2) by simp
    also have "\<dots> \<le> b * 256 ^ n" using that(1) by (intro mult_le_mono) auto
    finally show ?thesis by simp
  qed
  consider "?q < ?q'" | "?q' < ?q" | "?q = ?q'" by linarith
  then show ?case
  proof cases
    case 1
    then have "m < m'" using mono [OF 1 r(1), of ?r'] m by simp
    with 1 less show ?thesis by (simp add: cmp3_def)
  next
    case 2
    then have "m' < m" using mono [OF 2 r(2), of ?r] m by simp
    with 2 less show ?thesis by (simp add: cmp3_def)
  next
    case 3
    then have "cmp3 m m' = cmp3 ?r ?r'"
      using m by (metis add_less_cancel_left cmp3_def)
    with 3 Suc.IH [OF r] less show ?thesis by simp
  qed
qed simp

section \<open>Interface: total comparisons\<close>

text \<open>
  A three-way comparison that is a total preorder on the values accepted by \<open>ok\<close>. What
  its clients need: reflexivity, transitivity of each of its parts, and that a stable sort by
  it is determined by the multiset of its input when the comparison separates the elements.
\<close>

fun insert_by :: "('a \<Rightarrow> 'a \<Rightarrow> bool) \<Rightarrow> 'a \<Rightarrow> 'a list \<Rightarrow> 'a list" where
  "insert_by lt x [] = [x]"
| "insert_by lt x (y # ys) = (if lt y x then y # insert_by lt x ys else x # y # ys)"

text \<open>\<^verbatim>\<open>sort.SliceStable(xs, less)\<close>.\<close>

fun SliceStable :: "('a \<Rightarrow> 'a \<Rightarrow> bool) \<Rightarrow> 'a list \<Rightarrow> 'a list" where
  "SliceStable lt [] = []"
| "SliceStable lt (x # xs) = insert_by lt x (SliceStable lt xs)"

lemma mset_insert_by [simp]: "mset (insert_by lt x ys) = add_mset x (mset ys)"
  by (induction ys) auto

lemma mset_SliceStable [simp]: "mset (SliceStable lt xs) = mset xs"
  by (induction xs) auto

lemma set_SliceStable [simp]: "set (SliceStable lt xs) = set xs"
  by (metis mset_SliceStable set_mset_mset)

lemma set_insert_by [simp]: "set (insert_by lt x ys) = insert x (set ys)"
  by (metis mset_insert_by set_mset_add_mset_insert set_mset_mset)

lemma length_SliceStable [simp]: "length (SliceStable lt xs) = length xs"
  by (metis mset_SliceStable size_mset)

lemma distinct_SliceStable [simp]: "distinct (SliceStable lt xs) = distinct xs"
  by (metis mset_SliceStable mset_eq_imp_distinct_iff)

locale total_cmp =
  fixes cmp :: "'a \<Rightarrow> 'a \<Rightarrow> int" and ok :: "'a \<Rightarrow> bool"
  assumes cmp_swap: "ok a \<Longrightarrow> ok b \<Longrightarrow> cmp b a = - cmp a b"
    and cmp_le_trans: "ok a \<Longrightarrow> ok b \<Longrightarrow> ok c \<Longrightarrow> cmp a b \<le> 0 \<Longrightarrow> cmp b c \<le> 0 \<Longrightarrow> cmp a c \<le> 0"
begin

lemma cmp_refl: "ok a \<Longrightarrow> cmp a a = 0"
  using cmp_swap [of a a] by simp

lemma cmp_total: "ok a \<Longrightarrow> ok b \<Longrightarrow> cmp a b \<le> 0 \<or> cmp b a \<le> 0"
  using cmp_swap [of a b] by linarith

lemma cmp_zero_sym: "ok a \<Longrightarrow> ok b \<Longrightarrow> cmp a b = 0 \<longleftrightarrow> cmp b a = 0"
  using cmp_swap [of a b] by auto

lemma cmp_zero_trans: "ok a \<Longrightarrow> ok b \<Longrightarrow> ok c \<Longrightarrow> cmp a b = 0 \<Longrightarrow> cmp b c = 0 \<Longrightarrow> cmp a c = 0"
  using cmp_le_trans [of a b c] cmp_le_trans [of c b a] cmp_swap [of a b] cmp_swap [of b c]
    cmp_swap [of a c] by fastforce

lemma cmp_less_le_trans:
  assumes ok: "ok a" "ok b" "ok c" and ab: "cmp a b < 0" and bc: "cmp b c \<le> 0"
  shows "cmp a c < 0"
proof (rule ccontr)
  assume "\<not> cmp a c < 0"
  then have "cmp c a \<le> 0" using cmp_swap [OF ok(1,3)] by linarith
  then have "cmp b a \<le> 0" using cmp_le_trans [OF ok(2,3,1) bc] by simp
  with ab cmp_swap [OF ok(1,2)] show False by simp
qed

lemma cmp_le_less_trans:
  assumes ok: "ok a" "ok b" "ok c" and ab: "cmp a b \<le> 0" and bc: "cmp b c < 0"
  shows "cmp a c < 0"
proof (rule ccontr)
  assume "\<not> cmp a c < 0"
  then have "cmp c a \<le> 0" using cmp_swap [OF ok(1,3)] by linarith
  then have "cmp c b \<le> 0" using cmp_le_trans [OF ok(3,1,2) _ ab] by simp
  with bc cmp_swap [OF ok(2,3)] show False by simp
qed

lemma sorted_insert_by:
  assumes "ok x" "\<forall>y \<in> set ys. ok y" "sorted_wrt (\<lambda>a b. cmp a b \<le> 0) ys"
  shows "sorted_wrt (\<lambda>a b. cmp a b \<le> 0) (insert_by (\<lambda>a b. cmp a b < 0) x ys)"
  using assms
proof (induction ys)
  case (Cons y ys)
  show ?case
  proof (cases "cmp y x < 0")
    case True
    with Cons show ?thesis by auto
  next
    case False
    then have xy: "cmp x y \<le> 0" using cmp_swap [of x y] Cons.prems by auto
    have "cmp x z \<le> 0" if "z \<in> set ys" for z
      using cmp_le_trans [of x y z] xy that Cons.prems by auto
    with False xy Cons.prems show ?thesis by auto
  qed
qed simp

lemma sorted_SliceStable:
  "\<forall>y \<in> set xs. ok y \<Longrightarrow> sorted_wrt (\<lambda>a b. cmp a b \<le> 0) (SliceStable (\<lambda>a b. cmp a b < 0) xs)"
  by (induction xs) (auto intro!: sorted_insert_by)

lemma sorted_unique:
  assumes "sorted_wrt (\<lambda>a b. cmp a b \<le> 0) xs" "sorted_wrt (\<lambda>a b. cmp a b \<le> 0) ys"
    and "mset xs = mset ys" "\<forall>x \<in> set xs. ok x"
    and "\<forall>x \<in> set xs. \<forall>y \<in> set xs. cmp x y = 0 \<longrightarrow> x = y"
  shows "xs = ys"
  using assms
proof (induction xs arbitrary: ys)
  case (Cons x xs)
  obtain y ys' where ys: "ys = y # ys'"
    using Cons.prems(3) by (cases ys) auto
  have sets: "set ys = set (x # xs)"
    using Cons.prems(3) by (metis set_mset_mset)
  have "x = y"
  proof (rule ccontr)
    assume "x \<noteq> y"
    with sets ys have xy: "y \<in> set xs" "x \<in> set ys'" by auto
    have "cmp x y \<le> 0" "cmp y x \<le> 0"
      using Cons.prems(1,2) xy ys by auto
    moreover have "cmp y x = - cmp x y"
      using cmp_swap [of x y] Cons.prems(4) xy by simp
    ultimately have "cmp x y = 0" by simp
    with Cons.prems(5) xy \<open>x \<noteq> y\<close> show False by simp
  qed
  with Cons ys show ?case by auto
qed simp

end

section \<open>Interface: order-preserving byte encodings\<close>

text \<open>
  The contract of a sort key: whatever bytes follow, comparing two encodings byte by byte
  gives the comparison of the encoded values first and looks at the following bytes only for
  values that compare equal. It is stronger than "memcmp order equals value order": it also
  says that no encoding is a prefix of another one, which is what makes concatenated keys and
  complemented (descending) keys work.
\<close>

definition complement :: "bytes \<Rightarrow> bytes" where
  "complement b = map (\<lambda>x. x XOR 0xFF) b"

lemma complement_simps [simp]:
  "complement [] = []" "complement (x # u) = (x XOR 0xFF) # complement u"
  "complement (u @ v) = complement u @ complement v" "length (complement u) = length u"
  by (simp_all add: complement_def)

lemma xor_FF_eq: "x XOR 0xFF = - 1 - x" for x :: byte
proof -
  have "(0xFF :: byte) = - 1" by simp
  then have "x XOR 0xFF = NOT x" by (metis bit.xor_one_right)
  then show ?thesis by (simp add: not_eq_complement)
qed

lemma unat_xor_FF: "unat (x XOR 0xFF) = 255 - unat x" for x :: byte
proof -
  have "unat (- 1 - x) = unat (- 1 :: byte) - unat x"
    by (rule unat_sub) (rule word_n1_ge)
  then show ?thesis by (simp add: xor_FF_eq unsigned_minus_1_eq_mask mask_eq_exp_minus_1)
qed

lemma xor_FF_less_iff [simp]: "(x XOR 0xFF) < (y XOR 0xFF) \<longleftrightarrow> y < x" for x y :: byte
proof -
  have "unat z \<le> 255" for z :: byte
    using unsigned_less [of z, where ?'a = nat] by simp
  from this [of x] this [of y] show ?thesis
    by (auto simp: word_less_nat_alt unat_xor_FF)
qed

text \<open>
  Two byte strings that compare the same way whatever follows them are equal or differ at a
  position both of them have.
\<close>

lemma complement_Compare:
  assumes "\<And>x y. bytes_Compare (u @ x) (v @ y) = then_cmp c (bytes_Compare x y)"
  shows "bytes_Compare (complement u @ x) (complement v @ y) = then_cmp (- c) (bytes_Compare x y)"
  using assms
proof (induction u arbitrary: v)
  case Nil
  show ?case
  proof (cases v)
    case Nil
    from Nil.prems [of "[]" "[]"] Nil have "c = 0" by simp
    with Nil show ?thesis by simp
  next
    case (Cons b v')
    have "then_cmp c (- 1) = - 1"
      using Nil.prems [of "[]" "[]"] Nil.prems [of "[]" "[0]"] Cons by simp
    moreover have "then_cmp c 1 = bytes_Compare (b # b # v') (b # v')"
      using Nil.prems [of "b # b # v'" "[]"] Cons by simp
    ultimately show ?thesis
      using Nil.prems [of "[]" "[]"] Nil.prems [of "v" "[]"] Cons
      by (auto simp: then_cmp_def split: if_splits)
  qed
next
  case (Cons a u')
  show ?case
  proof (cases v)
    case Nil
    have "then_cmp c (bytes_Compare [] (a # u')) = bytes_Compare (a # u') (a # u')"
      using Cons.prems [of "[]" "a # u'"] Nil by simp
    moreover have "then_cmp c 0 = 1"
      using Cons.prems [of "[]" "[]"] Nil by simp
    ultimately show ?thesis by simp
  next
    case (Cons b v')
    show ?thesis
    proof (cases "a = b")
      case True
      then have "bytes_Compare (u' @ x) (v' @ y) = then_cmp c (bytes_Compare x y)" for x y
        using Cons.prems [of x y] Cons by simp
      then show ?thesis using Cons.IH True Cons by simp
    next
      case False
      then have "then_cmp c 0 = (if a < b then - 1 else 1)"
        using Cons.prems [of "[]" "[]"] Cons by (auto split: if_splits)
      with False show ?thesis
        using Cons by (auto split: if_splits)
    qed
  qed
qed

locale key_encoding =
  fixes enc :: "'a \<Rightarrow> bytes" and cmp :: "'a \<Rightarrow> 'a \<Rightarrow> int" and ok :: "'a \<Rightarrow> bool"
  assumes enc_cmp: "ok a \<Longrightarrow> ok b \<Longrightarrow>
    bytes_Compare (enc a @ x) (enc b @ y) = then_cmp (cmp a b) (bytes_Compare x y)"
begin

lemma enc_order: "ok a \<Longrightarrow> ok b \<Longrightarrow> bytes_Compare (enc a) (enc b) = cmp a b"
  using enc_cmp [of a b "[]" "[]"] by simp

lemma enc_eq_iff: "ok a \<Longrightarrow> ok b \<Longrightarrow> enc a = enc b \<longleftrightarrow> cmp a b = 0"
  using enc_order [of a b] by auto

lemma cmp_of_keys: "ok a \<Longrightarrow> ok b \<Longrightarrow> cmp a b = cmp3 (enc a) (enc b)"
  using enc_order [of a b] by (simp add: bytes_Compare_cmp3)

lemma enc_prefix_free:
  assumes "ok a" "ok b" "prefix (enc a) (enc b)"
  shows "enc a = enc b"
proof -
  from assms(3) obtain z where z: "enc b = enc a @ z" by (auto simp: prefix_def)
  have "bytes_Compare (enc a @ z) (enc b) = then_cmp (cmp a b) (bytes_Compare z [])"
    using enc_cmp [OF assms(1,2), of z "[]"] by simp
  then have "cmp a b = 0" using z by simp
  with assms show ?thesis by (simp add: enc_eq_iff)
qed

lemma enc_desc_cmp: "ok a \<Longrightarrow> ok b \<Longrightarrow>
    bytes_Compare (complement (enc a) @ x) (complement (enc b) @ y) =
    then_cmp (- cmp a b) (bytes_Compare x y)"
  by (rule complement_Compare) (rule enc_cmp)

sublocale total_cmp cmp ok
proof unfold_locales
  show "ok a \<Longrightarrow> ok b \<Longrightarrow> cmp b a = - cmp a b" for a b
    by (simp add: cmp_of_keys [of b a] cmp_of_keys [of a b] cmp3_swap [of "enc b"])
  show "ok a \<Longrightarrow> ok b \<Longrightarrow> ok c \<Longrightarrow> cmp a b \<le> 0 \<Longrightarrow> cmp b c \<le> 0 \<Longrightarrow> cmp a c \<le> 0" for a b c
    by (simp add: cmp_of_keys [of a b] cmp_of_keys [of b c] cmp_of_keys [of a c])
qed

end

lemma be_bytes_key_encoding: "key_encoding (be_bytes n) cmp3 (\<lambda>m. m < 256 ^ n)"
  by unfold_locales (rule be_bytes_cmp)

end
