(* ===== verification/Float64.thy ===== *)
theory Float64
  imports Prelude
begin

text \<open>
  IEEE-754 double precision as Go's \<^verbatim>\<open>float64\<close> uses it. A double is its 64-bit pattern
  (\<^verbatim>\<open>math.Float64bits\<close>); its exact value is read off the pattern as an integer multiple of
  \<open>2 ^ -1074\<close>, the smallest subnormal, so that comparison, the conversion from \<^verbatim>\<open>int64\<close> and
  addition with round-to-nearest-even are exact integer arithmetic and executable. The
  infinities get the value their pattern would have as an ordinary exponent, which lies above
  every finite double and every 64-bit integer.
\<close>

type_synonym float64 = "64 word"

section \<open>Reading the bit pattern\<close>

definition float_sign :: "float64 \<Rightarrow> bool" where
  "float_sign b \<longleftrightarrow> 2 ^ 63 \<le> unat b"

text \<open>The pattern without its sign bit: exponent field and fraction field.\<close>

definition float_low :: "float64 \<Rightarrow> nat" where
  "float_low b = unat b mod 2 ^ 63"

definition float_exp :: "float64 \<Rightarrow> nat" where
  "float_exp b = float_low b div 2 ^ 52"

definition float_frac :: "float64 \<Rightarrow> nat" where
  "float_frac b = float_low b mod 2 ^ 52"

definition float_IsNaN :: "float64 \<Rightarrow> bool" where
  "float_IsNaN b \<longleftrightarrow> float_exp b = 2047 \<and> float_frac b \<noteq> 0"

definition float_IsInf :: "float64 \<Rightarrow> bool" where
  "float_IsInf b \<longleftrightarrow> float_exp b = 2047 \<and> float_frac b = 0"

text \<open>Magnitude in units of \<open>2 ^ -1074\<close>, of a pattern without sign bit.\<close>

definition low_mag :: "nat \<Rightarrow> nat" where
  "low_mag n =
     (if n div 2 ^ 52 = 0 then n mod 2 ^ 52
      else (2 ^ 52 + n mod 2 ^ 52) * 2 ^ (n div 2 ^ 52 - 1))"

definition float_scaled :: "float64 \<Rightarrow> int" where
  "float_scaled b = (if float_sign b then - int (low_mag (float_low b)) else int (low_mag (float_low b)))"

text \<open>An \<^verbatim>\<open>int64\<close> in the same units.\<close>

definition int_scaled :: "int64 \<Rightarrow> int" where
  "int_scaled x = sint x * 2 ^ 1074"

section \<open>Go's comparison operators on doubles\<close>

definition float_less :: "float64 \<Rightarrow> float64 \<Rightarrow> bool" where
  "float_less a b \<longleftrightarrow> \<not> float_IsNaN a \<and> \<not> float_IsNaN b \<and> float_scaled a < float_scaled b"

definition float_eq :: "float64 \<Rightarrow> float64 \<Rightarrow> bool" where
  "float_eq a b \<longleftrightarrow> \<not> float_IsNaN a \<and> \<not> float_IsNaN b \<and> float_scaled a = float_scaled b"

section \<open>Bit length and Frexp\<close>

text \<open>\<^verbatim>\<open>bits.Len64\<close>.\<close>

fun bit_len :: "nat \<Rightarrow> nat" where
  "bit_len n = (if n = 0 then 0 else Suc (bit_len (n div 2)))"

declare bit_len.simps [simp del]

text \<open>
  \<^verbatim>\<open>math.Frexp(math.Abs(d))\<close> of a finite nonzero double, the fraction multiplied by
  \<open>2 ^ 53\<close> (\<^verbatim>\<open>math.Ldexp(frac, 53)\<close>, an integer with its top bit at position 52).
\<close>

definition Frexp53 :: "float64 \<Rightarrow> nat \<times> int" where
  "Frexp53 b =
     (if float_exp b = 0
      then (float_frac b * 2 ^ (53 - bit_len (float_frac b)), int (bit_len (float_frac b)) - 1074)
      else (2 ^ 52 + float_frac b, int (float_exp b) - 1022))"

section \<open>Rounding and addition\<close>

text \<open>Round an exact magnitude to the nearest pattern, ties to even, overflow to infinity.\<close>

definition round_mag :: "nat \<Rightarrow> nat" where
  "round_mag m =
     (let sh = bit_len m - 53; q = m div 2 ^ sh; r = 2 * (m mod 2 ^ sh);
          q' = (if 2 ^ sh < r \<or> (r = 2 ^ sh \<and> 0 < sh \<and> odd q) then q + 1 else q)
      in min (2047 * 2 ^ 52) (sh * 2 ^ 52 + q'))"

definition float_of_scaled :: "bool \<Rightarrow> nat \<Rightarrow> float64" where
  "float_of_scaled neg m = word_of_nat ((if neg then 2 ^ 63 else 0) + round_mag m)"

definition float_NaN :: float64 where
  "float_NaN = 0x7FF8000000000001"

text \<open>\<^verbatim>\<open>float64(x)\<close> of an \<^verbatim>\<open>int64\<close>, and \<^verbatim>\<open>a + b\<close>.\<close>

definition float_of_int64 :: "int64 \<Rightarrow> float64" where
  "float_of_int64 x = float_of_scaled (sint x < 0) (nat \<bar>int_scaled x\<bar>)"

definition float_add :: "float64 \<Rightarrow> float64 \<Rightarrow> float64" where
  "float_add a b =
     (if float_IsNaN a \<or> float_IsNaN b then float_NaN
      else if float_IsInf a then (if float_IsInf b \<and> float_sign a \<noteq> float_sign b then float_NaN else a)
      else if float_IsInf b then b
      else let s = float_scaled a + float_scaled b
           in float_of_scaled (s < 0 \<or> s = 0 \<and> float_sign a \<and> float_sign b) (nat \<bar>s\<bar>))"

text \<open>The low 63 bits of a word, as a number.\<close>

definition low63 :: "64 word \<Rightarrow> int" where
  "low63 x = take_bit 63 (uint x)"

section \<open>Facts about patterns\<close>

lemma float_low_less: "float_low b < 2 ^ 63"
  by (simp add: float_low_def)

lemma float_exp_le: "float_exp b \<le> 2047"
proof -
  have "float_exp b < 2 ^ 11"
    using float_low_less [of b] by (simp add: float_exp_def less_mult_imp_div_less)
  then show ?thesis by simp
qed

lemma float_frac_less: "float_frac b < 2 ^ 52"
  by (simp add: float_frac_def)

lemma unat_float: "unat b = (if float_sign b then 2 ^ 63 else 0) + float_low b"
proof -
  have "unat b < 2 ^ 64" using unsigned_less [of b, where ?'a = nat] by simp
  then have "float_sign b \<Longrightarrow> unat b - 2 ^ 63 < 2 ^ 63" by simp
  then show ?thesis
    by (cases "float_sign b") (simp_all add: float_low_def float_sign_def le_mod_geq)
qed

lemma low_mag_upper: "low_mag n < 2 ^ (52 + n div 2 ^ 52)"
proof -
  have f: "n mod 2 ^ 52 < (2::nat) ^ 52" by simp
  show ?thesis
  proof (cases "n div 2 ^ 52")
    case 0
    with f show ?thesis by (simp add: low_mag_def)
  next
    case (Suc e)
    from f have "(2 ^ 52 + n mod 2 ^ 52) * 2 ^ e < 2 ^ 53 * (2::nat) ^ e" by simp
    with Suc show ?thesis by (simp add: low_mag_def power_add)
  qed
qed

lemma low_mag_lower: "0 < n div 2 ^ 52 \<Longrightarrow> 2 ^ (51 + n div 2 ^ 52) \<le> low_mag n"
proof -
  assume "0 < n div 2 ^ 52"
  then obtain e where e: "n div 2 ^ 52 = Suc e" by (cases "n div 2 ^ 52") auto
  have "2 ^ 52 * 2 ^ e \<le> (2 ^ 52 + n mod 2 ^ 52) * (2::nat) ^ e" by simp
  with e show ?thesis by (simp add: low_mag_def power_add)
qed

lemma low_mag_mono: "n < n' \<Longrightarrow> low_mag n < low_mag n'"
proof -
  assume n: "n < n'"
  let ?e = "n div 2 ^ 52" and ?e' = "n' div 2 ^ 52"
  from n have le: "?e \<le> ?e'" by (simp add: div_le_mono)
  show ?thesis
  proof (cases "?e = ?e'")
    case True
    have "n = ?e * 2 ^ 52 + n mod 2 ^ 52" "n' = ?e' * 2 ^ 52 + n' mod 2 ^ 52"
      by (simp_all only: div_mult_mod_eq)
    with n True have "n mod 2 ^ 52 < n' mod 2 ^ 52" by (metis nat_add_left_cancel_less)
    with True n show ?thesis by (simp add: low_mag_def)
  next
    case False
    with le have lt: "?e < ?e'" by simp
    have "low_mag n < 2 ^ (52 + ?e)" by (rule low_mag_upper)
    also have "\<dots> \<le> 2 ^ (51 + ?e')" using lt by (intro power_increasing) auto
    also have "\<dots> \<le> low_mag n'" using lt by (intro low_mag_lower) simp
    finally show ?thesis .
  qed
qed

lemma low_mag_less_iff: "low_mag n < low_mag n' \<longleftrightarrow> n < n'"
  by (metis linorder_neqE_nat low_mag_mono order_less_asym)

lemma low_mag_eq_iff: "low_mag n = low_mag n' \<longleftrightarrow> n = n'"
  by (metis linorder_neqE_nat low_mag_mono less_irrefl)

lemma low_mag_0 [simp]: "low_mag 0 = 0" "low_mag n = 0 \<longleftrightarrow> n = 0"
  using low_mag_eq_iff [of n 0] by (simp_all add: low_mag_def)

lemma low_mag_pos [simp]: "0 < low_mag n \<longleftrightarrow> 0 < n"
  using low_mag_less_iff [of 0 n] by simp

lemma float_scaled_0_iff: "float_scaled b = 0 \<longleftrightarrow> float_low b = 0"
  by (simp add: float_scaled_def)

lemma float_0 [simp]: "float_scaled 0 = 0" "\<not> float_IsNaN 0" "\<not> float_IsInf 0"
  "\<not> float_sign 0" "float_low 0 = 0"
  by (simp_all add: float_scaled_def float_IsNaN_def float_IsInf_def float_exp_def float_frac_def
      float_low_def float_sign_def)

section \<open>Facts about bit length\<close>

lemma bit_len_0 [simp]: "bit_len 0 = 0" "bit_len n = 0 \<longleftrightarrow> n = 0"
  by (simp_all add: bit_len.simps)

lemma bit_len_pos [simp]: "0 < bit_len n \<longleftrightarrow> 0 < n"
  using bit_len_0(2) [of n] by linarith

lemma bit_len_bounds: "0 < n \<Longrightarrow> 2 ^ (bit_len n - 1) \<le> n \<and> n < 2 ^ bit_len n"
proof (induction n rule: bit_len.induct)
  case (1 n)
  show ?case
  proof (cases "n = 1")
    case True
    then show ?thesis by (simp add: bit_len.simps [of "Suc 0"])
  next
    case False
    with "1.prems" have n: "0 < n div 2" by simp
    with "1.IH" "1.prems" have IH: "2 ^ (bit_len (n div 2) - 1) \<le> n div 2" "n div 2 < 2 ^ bit_len (n div 2)"
      by auto
    from n obtain l where l: "bit_len (n div 2) = Suc l" by (cases "bit_len (n div 2)") auto
    from IH(1) l have "2 ^ Suc l \<le> n" by simp
    moreover from IH(2) l have "n < 2 ^ Suc (Suc l)" by simp
    ultimately show ?thesis using "1.prems" l by (simp add: bit_len.simps [of n])
  qed
qed

lemma bit_len_le: "n < 2 ^ k \<Longrightarrow> bit_len n \<le> k"
proof (cases "n = 0")
  case False
  assume "n < 2 ^ k"
  with False bit_len_bounds [of n] have "2 ^ (bit_len n - 1) < (2::nat) ^ k" by linarith
  then show ?thesis using power_less_imp_less_exp [of 2 "bit_len n - 1" k] by simp
qed simp

text \<open>Frexp keeps the exact magnitude and normalises the fraction.\<close>

lemma Frexp53_correct:
  assumes "float_low b \<noteq> 0" "float_exp b < 2047" "Frexp53 b = (m, e)"
  shows "2 ^ 52 \<le> m" "m < 2 ^ 53" "0 \<le> e + 1073" "e + 1073 < 2098"
    and "low_mag (float_low b) * 2 ^ 52 = m * 2 ^ nat (e + 1073)"
proof -
  let ?f = "float_frac b"
  have "2 ^ 52 \<le> m \<and> m < 2 ^ 53 \<and> 0 \<le> e + 1073 \<and> e + 1073 < 2098 \<and>
    low_mag (float_low b) * 2 ^ 52 = m * 2 ^ nat (e + 1073)"
  proof (cases "float_exp b = 0")
    case True
    then have low: "float_low b = ?f"
      by (simp add: float_exp_def float_frac_def div_eq_0_iff)
    with assms(1) have f: "0 < ?f" by simp
    let ?l = "bit_len ?f"
    have bounds: "2 ^ (?l - 1) \<le> ?f" "?f < 2 ^ ?l"
      using bit_len_bounds [OF f] by auto
    have l: "0 < ?l" "?l \<le> 52" using f bit_len_le [OF float_frac_less [of b]] by auto
    from assms(3) True have m: "m = ?f * 2 ^ (53 - ?l)" and e: "e = int ?l - 1074"
      by (simp_all add: Frexp53_def)
    have "?l - 1 + (53 - ?l) = 52" "53 - ?l + (?l - 1) = 52" using l by linarith+
    then have split: "2 ^ 52 = 2 ^ (?l - 1) * (2::nat) ^ (53 - ?l)"
      "2 ^ (53 - ?l) * 2 ^ (?l - 1) = (2::nat) ^ 52"
      by (metis power_add)+
    have lo: "2 ^ 52 \<le> m"
      unfolding m split(1) using bounds(1) by (rule mult_le_mono1)
    have "m < 2 ^ ?l * 2 ^ (53 - ?l)" unfolding m using bounds(2) by simp
    also have "\<dots> = 2 ^ 53" using l by (simp flip: power_add)
    finally have hi: "m < 2 ^ 53" .
    have e': "nat (e + 1073) = ?l - 1" using e l by simp
    have "low_mag (float_low b) = ?f"
      using True unfolding low_mag_def float_exp_def float_frac_def by simp
    moreover have "m * 2 ^ (?l - 1) = ?f * (2 ^ (53 - ?l) * 2 ^ (?l - 1))" by (simp add: m)
    moreover note split(2)
    ultimately show ?thesis using lo hi e l e' by simp
  next
    case False
    then obtain k where k: "float_exp b = Suc k" by (cases "float_exp b") auto
    from assms(3) False have m: "m = 2 ^ 52 + ?f" and e: "e = int (float_exp b) - 1022"
      by (simp_all add: Frexp53_def)
    from float_frac_less [of b] m have "2 ^ 52 \<le> m" "m < 2 ^ 53" by simp_all
    moreover have "nat (e + 1073) = k + 52" using e k by simp
    moreover have "low_mag (float_low b) = m * 2 ^ k"
      using k m by (simp add: low_mag_def float_exp_def float_frac_def)
    ultimately show ?thesis using e assms(2) k by (simp add: power_add)
  qed
  then show "2 ^ 52 \<le> m" "m < 2 ^ 53" "0 \<le> e + 1073" "e + 1073 < 2098"
    "low_mag (float_low b) * 2 ^ 52 = m * 2 ^ nat (e + 1073)" by auto
qed

section \<open>Words as signed and unsigned numbers\<close>

lemma low63_bounds: "0 \<le> low63 x" "low63 x < 2 ^ 63"
  unfolding low63_def by (simp_all only: take_bit_nonnegative take_bit_int_less_exp)

lemma uint_low63: "uint x = of_bool (bit x 63) * 2 ^ 63 + low63 x"
proof -
  have "uint x = take_bit (Suc 63) (uint x)"
    using take_bit_word_eq_self [of 64 x] unsigned_take_bit_eq [of 64 x, where ?'a = int] by simp
  also have "\<dots> = 2 ^ 63 * of_bool (bit (uint x) 63) + take_bit 63 (uint x)"
    by (rule take_bit_Suc_from_most)
  finally show ?thesis by (simp add: low63_def bit_unsigned_iff)
qed

lemma sint_low63: "sint x = low63 x - of_bool (bit x 63) * 2 ^ 63"
proof -
  have bit: "bit (uint x) 63 = bit x 63" by (simp add: bit_unsigned_iff)
  have "sint x = take_bit (Suc 63) (uint x) - 2 ^ Suc 63 * of_bool (bit (uint x) 63)"
    using sint_uint [of x] by (simp add: signed_take_bit_eq_take_bit_minus)
  also have "take_bit (Suc 63) (uint x) = uint x"
    using take_bit_word_eq_self [of 64 x] unsigned_take_bit_eq [of 64 x, where ?'a = int] by simp
  finally show ?thesis unfolding bit using uint_low63 [of x] by simp
qed

lemma top_ops: "bit (x XOR push_bit 63 1) 63 \<longleftrightarrow> \<not> bit x 63" "bit (x OR push_bit 63 1) 63"
  "bit (NOT x) 63 \<longleftrightarrow> \<not> bit x 63" for x :: "64 word"
  by (simp_all add: bit_simps)

lemma low63_ops:
  "low63 (x XOR push_bit 63 1) = low63 x"
  "low63 (x OR push_bit 63 1) = low63 x"
  "low63 (NOT x) = 2 ^ 63 - 1 - low63 x"
proof -
  have no: "n < 63 \<Longrightarrow> \<not> bit (push_bit 63 1 :: 64 word) n" for n
    by (simp only: bit_push_bit_iff) simp
  show "low63 (x XOR push_bit 63 1) = low63 x"
    unfolding low63_def
    by (rule bit_eqI) (auto simp: bit_take_bit_iff bit_unsigned_iff bit_xor_iff no simp del: push_bit_of_1)
  show "low63 (x OR push_bit 63 1) = low63 x"
    unfolding low63_def
    by (rule bit_eqI) (auto simp: bit_take_bit_iff bit_unsigned_iff bit_or_iff no simp del: push_bit_of_1)
  have "uint (- 1 - x) = uint (- 1 :: 64 word) - uint x"
    by (rule uint_sub_lem [THEN iffD1]) (simp flip: word_le_def)
  moreover have "NOT x = - 1 - x" by (simp add: not_eq_complement)
  ultimately have "uint (NOT x) = 2 ^ 64 - 1 - uint x"
    by (simp add: unsigned_minus_1_eq_mask mask_eq_exp_minus_1)
  then show "low63 (NOT x) = 2 ^ 63 - 1 - low63 x"
    using uint_low63 [of x] uint_low63 [of "NOT x"] top_ops(3) [of x] by (cases "bit x 63") simp_all
qed

lemma and_top: "x AND push_bit 63 1 \<noteq> 0 \<longleftrightarrow> bit x 63" for x :: "64 word"
  using and_exp_eq_0_iff_not_bit [of x 63] by simp

lemma unat_xor_63: "unat (x XOR push_bit 63 1) = nat (sint x + 2 ^ 63)" for x :: "64 word"
proof -
  have "uint (x XOR push_bit 63 1) = sint x + 2 ^ 63"
    by (cases "bit x 63")
      (simp_all add: uint_low63 [of "x XOR push_bit 63 1"] sint_low63 [of x] top_ops low63_ops del: push_bit_of_1)
  then show ?thesis by (metis nat_uint_eq)
qed

lemma float_low63: "int (float_low b) = low63 b" "float_sign b \<longleftrightarrow> bit b 63"
proof -
  show low: "int (float_low b) = low63 b"
    by (simp add: float_low_def low63_def take_bit_eq_mod zmod_int)
  have "uint b = int (unat b)" by simp
  also have "\<dots> = (if float_sign b then 2 ^ 63 else 0) + low63 b"
    using arg_cong [OF unat_float [of b], of int] low by simp
  finally show "float_sign b \<longleftrightarrow> bit b 63"
    using uint_low63 [of b] by (auto split: if_splits)
qed

text \<open>The transformed bits of a geopoint coordinate, as a number.\<close>

lemma ordered_bits:
  assumes "b' = (if b AND push_bit 63 1 \<noteq> 0 then NOT b else b OR push_bit 63 1)"
  shows "int (unat b') = (if float_sign b then 2 ^ 63 - 1 - int (float_low b) else 2 ^ 63 + int (float_low b))"
proof -
  have "int (unat b') = uint b'" by simp
  moreover have "b' = (if bit b 63 then NOT b else b OR push_bit 63 1)"
    using assms and_top [of b] by simp
  ultimately show ?thesis
    using uint_low63 [of "NOT b"] uint_low63 [of "b OR push_bit 63 1"]
    by (simp add: float_low63 top_ops low63_ops del: push_bit_of_1)
qed

section \<open>Rounding is to the nearest\<close>

lemma low_mag_step:
  assumes "2 ^ 52 \<le> q" "q \<le> 2 ^ 53"
  shows "low_mag (sh * 2 ^ 52 + q) = q * 2 ^ sh"
proof (cases "q = 2 ^ 53")
  case True
  then have "sh * 2 ^ 52 + q = (sh + 2) * 2 ^ 52" by simp
  then have "low_mag (sh * 2 ^ 52 + q) = 2 ^ 52 * 2 ^ Suc sh" by (simp add: low_mag_def)
  with True show ?thesis by simp
next
  case False
  define f where "f = q - 2 ^ 52"
  then have q: "q = 2 ^ 52 + f" "f < 2 ^ 52" using assms False by simp_all
  then have "sh * 2 ^ 52 + q = Suc sh * 2 ^ 52 + f" by simp
  then have "(sh * 2 ^ 52 + q) div 2 ^ 52 = Suc sh" "(sh * 2 ^ 52 + q) mod 2 ^ 52 = f" using q(2) by simp_all
  then show ?thesis using q(1) by (simp add: low_mag_def)
qed

lemma low_mag_le_iff: "low_mag n \<le> low_mag n' \<longleftrightarrow> n \<le> n'"
  using low_mag_less_iff [of n' n] by linarith

lemma between_patterns:
  fixes m :: nat
  obtains c d where "round_mag m = min (2047 * 2 ^ 52) d" "d = c \<and> 2 * m \<le> low_mag c + low_mag (Suc c) \<or> d = Suc c \<and> low_mag c + low_mag (Suc c) \<le> 2 * m"
    "low_mag c \<le> m" "m < low_mag (Suc c)"
proof -
  define sh q where "sh = bit_len m - 53" and "q = m div 2 ^ sh"
  let ?r = "2 * (m mod 2 ^ sh)"
  define q' where "q' = (if 2 ^ sh < ?r \<or> (?r = 2 ^ sh \<and> 0 < sh \<and> odd q) then q + 1 else q)"
  have res: "round_mag m = min (2047 * 2 ^ 52) (sh * 2 ^ 52 + q')" by (simp add: round_mag_def sh_def q_def q'_def Let_def)
  have m: "m = q * 2 ^ sh + m mod 2 ^ sh" "m mod 2 ^ sh < 2 ^ sh" unfolding q_def by (rule div_mult_mod_eq [symmetric]) simp
  have steps: "low_mag (sh * 2 ^ 52 + q) = q * 2 ^ sh" "low_mag (Suc (sh * 2 ^ 52 + q)) = (q + 1) * 2 ^ sh"
  proof -
    have "(2 :: nat) ^ bit_len m \<le> 2 ^ (sh + 53)" by (rule power_increasing) (simp_all add: sh_def)
    moreover have "m < 2 ^ bit_len m" using bit_len_bounds [of m] by (cases "m = 0") simp_all
    ultimately have upper: "m < 2 ^ (sh + 53)" by linarith
    have lower: "2 ^ (sh + 52) \<le> m" if "sh \<noteq> 0"
    proof -
      have "bit_len m - 1 = sh + 52" "m \<noteq> 0" using that by (simp add: sh_def, cases "m = 0") (simp_all add: sh_def)
      with bit_len_bounds [of m] show ?thesis by simp
    qed
    have q: "q < 2 ^ 53" using upper by (simp add: q_def less_mult_imp_div_less power_add mult.commute)
    have "low_mag (sh * 2 ^ 52 + x) = x * 2 ^ sh" if "x = q \<or> x = q + 1" for x
    proof (cases "2 ^ 52 \<le> q")
      case True
      with that q show ?thesis by (intro low_mag_step) auto
    next
      case False
      then have "sh = 0" using lower by (auto simp: q_def not_le div_less_iff_less_mult power_add mult.commute)
      with False that show ?thesis using low_mag_step [of x 0] by (cases "x = 2 ^ 52") (auto simp: low_mag_def)
    qed
    from this [of q] this [of "q + 1"] show "low_mag (sh * 2 ^ 52 + q) = q * 2 ^ sh" "low_mag (Suc (sh * 2 ^ 52 + q)) = (q + 1) * 2 ^ sh"
      by simp_all
  qed
  have d: "sh * 2 ^ 52 + q' = sh * 2 ^ 52 + q \<and> ?r \<le> 2 ^ sh \<or> sh * 2 ^ 52 + q' = Suc (sh * 2 ^ 52 + q) \<and> 2 ^ sh \<le> ?r"
    by (auto simp: q'_def)
  show thesis
  proof (rule that [OF res, of "sh * 2 ^ 52 + q"])
    show "low_mag (sh * 2 ^ 52 + q) \<le> m" "m < low_mag (Suc (sh * 2 ^ 52 + q))"
      unfolding steps add_mult_distrib mult_1 using m by linarith+
    have "2 * m = 2 * (q * 2 ^ sh) + ?r" using m(1) by (simp add: algebra_simps)
    with d show "sh * 2 ^ 52 + q' = sh * 2 ^ 52 + q \<and> 2 * m \<le> low_mag (sh * 2 ^ 52 + q) + low_mag (Suc (sh * 2 ^ 52 + q)) \<or>
      sh * 2 ^ 52 + q' = Suc (sh * 2 ^ 52 + q) \<and> low_mag (sh * 2 ^ 52 + q) + low_mag (Suc (sh * 2 ^ 52 + q)) \<le> 2 * m"
      unfolding steps by (simp add: algebra_simps) 
  qed
qed

lemma round_mag_nearest:
  assumes "n \<le> 2047 * 2 ^ 52"
  shows "\<bar>int (low_mag (round_mag m)) - int m\<bar> \<le> \<bar>int (low_mag n) - int m\<bar>"
proof -
  obtain c d where r: "round_mag m = min (2047 * 2 ^ 52) d"
    and d: "d = c \<and> 2 * m \<le> low_mag c + low_mag (Suc c) \<or> d = Suc c \<and> low_mag c + low_mag (Suc c) \<le> 2 * m"
    and c: "low_mag c \<le> m" "m < low_mag (Suc c)" by (rule between_patterns)
  show ?thesis
  proof (cases "d \<le> 2047 * 2 ^ 52")
    case True
    have "low_mag n \<le> low_mag c \<or> low_mag (Suc c) \<le> low_mag n" by (simp add: low_mag_le_iff) linarith
    moreover have "round_mag m = d" using r True by (simp only: min.absorb2)
    ultimately show ?thesis using d c by (elim disjE conjE) simp_all
  next
    case False
    with d have "2047 * 2 ^ 52 \<le> c" by auto
    with False r have "low_mag (round_mag m) \<le> low_mag c" by (simp add: low_mag_le_iff)
    moreover have "low_mag n \<le> low_mag (round_mag m)" using assms False r by (simp add: low_mag_le_iff)
    ultimately show ?thesis using c by linarith
  qed
qed

lemma float_of_scaled_parts:
  "float_low (float_of_scaled neg m) = round_mag m" "float_sign (float_of_scaled neg m) = neg"
  "float_scaled (float_of_scaled neg m) = (if neg then - 1 else 1) * int (low_mag (round_mag m))"
proof -
  have r: "round_mag m \<le> 2047 * 2 ^ 52" by (simp add: round_mag_def Let_def)
  then have "(if neg then 2 ^ 63 else 0) + round_mag m < 2 ^ LENGTH(64)" by simp
  then have u: "unat (float_of_scaled neg m) = (if neg then 2 ^ 63 else 0) + round_mag m"
    unfolding float_of_scaled_def by (rule of_nat_inverse [OF refl])
  with r show low: "float_low (float_of_scaled neg m) = round_mag m" by (simp add: float_low_def)
  from u r show sign: "float_sign (float_of_scaled neg m) = neg" by (simp add: float_sign_def)
  show "float_scaled (float_of_scaled neg m) = (if neg then - 1 else 1) * int (low_mag (round_mag m))"
    using low sign by (simp only: float_scaled_def) simp
qed

lemma not_NaN_low: "\<not> float_IsNaN f \<longleftrightarrow> float_low f \<le> 2047 * 2 ^ 52"
proof -
  have "float_low f = float_exp f * 2 ^ 52 + float_frac f" unfolding float_exp_def float_frac_def by (rule div_mult_mod_eq [symmetric])
  with float_exp_le [of f] float_frac_less [of f] show ?thesis unfolding float_IsNaN_def by (cases "float_exp f = 2047") auto
qed

lemma float_of_scaled_not_NaN: "\<not> float_IsNaN (float_of_scaled neg m)"
  unfolding not_NaN_low float_of_scaled_parts by (simp add: round_mag_def Let_def)

text \<open>
  No double is closer to an exact value. The infinities count as the powers of two their
  patterns stand for, which makes overflow the rounding to an infinity.
\<close>

definition nearest :: "float64 \<Rightarrow> int \<Rightarrow> bool" where
  "nearest z s \<longleftrightarrow> \<not> float_IsNaN z \<and> (\<forall>w. \<not> float_IsNaN w \<longrightarrow> \<bar>float_scaled z - s\<bar> \<le> \<bar>float_scaled w - s\<bar>)"

lemma float_of_scaled_nearest:
  assumes "s < 0 \<longrightarrow> neg" "0 < s \<longrightarrow> \<not> neg"
  shows "nearest (float_of_scaled neg (nat \<bar>s\<bar>)) s"
  unfolding nearest_def
proof (intro conjI float_of_scaled_not_NaN allI impI)
  fix w assume "\<not> float_IsNaN w"
  then have w: "float_low w \<le> 2047 * 2 ^ 52" by (simp add: not_NaN_low)
  let ?m = "nat \<bar>s\<bar>" and ?z = "float_of_scaled neg (nat \<bar>s\<bar>)"
  have "\<bar>float_scaled ?z - s\<bar> = \<bar>int (low_mag (round_mag ?m)) - int ?m\<bar>"
    using assms by (auto simp: float_of_scaled_parts)
  moreover have "\<bar>int (low_mag (float_low w)) - int ?m\<bar> \<le> \<bar>float_scaled w - s\<bar>"
  proof -
    have "int (low_mag (float_low w)) = \<bar>float_scaled w\<bar>" by (simp add: float_scaled_def)
    with abs_triangle_ineq3 [of "float_scaled w" s] show ?thesis by simp
  qed
  ultimately show "\<bar>float_scaled ?z - s\<bar> \<le> \<bar>float_scaled w - s\<bar>" using round_mag_nearest [OF w, of ?m] by simp
qed

lemma float_of_int64_nearest: "nearest (float_of_int64 x) (int_scaled x)"
  unfolding float_of_int64_def by (rule float_of_scaled_nearest) (simp_all add: int_scaled_def mult_less_0_iff)

lemma float_add_special:
  "float_IsNaN a \<or> float_IsNaN b \<Longrightarrow> float_IsNaN (float_add a b)"
  "float_IsInf a \<Longrightarrow> float_IsInf b \<Longrightarrow> float_sign a \<noteq> float_sign b \<Longrightarrow> float_IsNaN (float_add a b)"
  "float_IsInf a \<Longrightarrow> \<not> float_IsNaN b \<Longrightarrow> \<not> (float_IsInf b \<and> float_sign a \<noteq> float_sign b) \<Longrightarrow> float_add a b = a"
  "float_IsInf b \<Longrightarrow> \<not> float_IsNaN a \<Longrightarrow> \<not> float_IsInf a \<Longrightarrow> float_add a b = b"
proof -
  have nan: "float_IsNaN float_NaN" by (simp add: float_NaN_def float_IsNaN_def float_exp_def float_frac_def float_low_def)
  have inf: "float_IsInf d \<Longrightarrow> \<not> float_IsNaN d" for d by (simp add: float_IsNaN_def float_IsInf_def)
  show "float_IsNaN a \<or> float_IsNaN b \<Longrightarrow> float_IsNaN (float_add a b)"
    "float_IsInf a \<Longrightarrow> float_IsInf b \<Longrightarrow> float_sign a \<noteq> float_sign b \<Longrightarrow> float_IsNaN (float_add a b)"
    "float_IsInf a \<Longrightarrow> \<not> float_IsNaN b \<Longrightarrow> \<not> (float_IsInf b \<and> float_sign a \<noteq> float_sign b) \<Longrightarrow> float_add a b = a"
    "float_IsInf b \<Longrightarrow> \<not> float_IsNaN a \<Longrightarrow> \<not> float_IsInf a \<Longrightarrow> float_add a b = b"
    using nan inf [of a] inf [of b] by (auto simp: float_add_def)
qed

lemma float_add_nearest:
  assumes "\<not> float_IsNaN a" "\<not> float_IsNaN b" "\<not> float_IsInf a" "\<not> float_IsInf b"
  shows "nearest (float_add a b) (float_scaled a + float_scaled b)"
  using assms by (auto simp: float_add_def Let_def intro!: float_of_scaled_nearest)

end
