(* ===== verification/Value.thy ===== *)
theory Value
  imports Float64
begin

text \<open>
  Package \<^verbatim>\<open>value\<close>, file \<^verbatim>\<open>compare.go\<close>: Firestore values and their total order. A
  protobuf \<^verbatim>\<open>Value\<close> is a datatype with one constructor per alternative of its oneof; a value
  whose oneof is unset is \<open>NullValue\<close>, as every switch of the source treats it, and
  \<open>UnknownValue\<close> stands for the alternatives the source does not name. A Go map from
  field names to values is an association list; its well-formedness (distinct keys) is part of
  \<open>valid_value\<close>.
\<close>

section \<open>Values\<close>

datatype Value =
    NullValue
  | BooleanValue bool
  | IntegerValue int64
  | DoubleValue float64
  | TimestampValue int64 int32
  | StringValue string
  | BytesValue bytes
  | ReferenceValue string
  | GeoPointValue float64 float64
  | ArrayValue "Value list"
  | MapValue "(string \<times> Value) list"
  | UnknownValue

type_synonym Fields = "(string \<times> Value) list"

text \<open>The protobuf getters: the zero value when another alternative is set.\<close>

fun GetBooleanValue :: "Value \<Rightarrow> bool" where
  "GetBooleanValue (BooleanValue b) = b" | "GetBooleanValue _ = False"

fun GetDoubleValue :: "Value \<Rightarrow> float64" where
  "GetDoubleValue (DoubleValue d) = d" | "GetDoubleValue _ = 0"

fun GetTimestampValue :: "Value \<Rightarrow> int64 \<times> int32" where
  "GetTimestampValue (TimestampValue s n) = (s, n)" | "GetTimestampValue _ = (0, 0)"

fun GetStringValue :: "Value \<Rightarrow> string" where
  "GetStringValue (StringValue s) = s" | "GetStringValue _ = []"

fun GetBytesValue :: "Value \<Rightarrow> bytes" where
  "GetBytesValue (BytesValue b) = b" | "GetBytesValue _ = []"

fun GetReferenceValue :: "Value \<Rightarrow> string" where
  "GetReferenceValue (ReferenceValue r) = r" | "GetReferenceValue _ = []"

fun GetGeoPointValue :: "Value \<Rightarrow> float64 \<times> float64" where
  "GetGeoPointValue (GeoPointValue lat lng) = (lat, lng)" | "GetGeoPointValue _ = (0, 0)"

fun GetArrayValues :: "Value \<Rightarrow> Value list" where
  "GetArrayValues (ArrayValue vs) = vs" | "GetArrayValues _ = []"

fun GetMapFields :: "Value \<Rightarrow> Fields" where
  "GetMapFields (MapValue m) = m" | "GetMapFields _ = []"

section \<open>Ordering buckets\<close>

abbreviation (input) "orderNull \<equiv> (0::int)"
abbreviation (input) "orderBool \<equiv> (1::int)"
abbreviation (input) "orderNaN \<equiv> (2::int)"
abbreviation (input) "orderNumber \<equiv> (3::int)"
abbreviation (input) "orderTimestamp \<equiv> (4::int)"
abbreviation (input) "orderString \<equiv> (5::int)"
abbreviation (input) "orderBytes \<equiv> (6::int)"
abbreviation (input) "orderReference \<equiv> (7::int)"
abbreviation (input) "orderGeoPoint \<equiv> (8::int)"
abbreviation (input) "orderArray \<equiv> (9::int)"
abbreviation (input) "orderVector \<equiv> (10::int)"
abbreviation (input) "orderMap \<equiv> (11::int)"

definition isVector :: "Fields \<Rightarrow> bool" where
  "isVector f =
     (case map_of f ''__type__'' of
        None \<Rightarrow> False
      | Some tv \<Rightarrow> if GetStringValue tv \<noteq> ''__vector__'' then False
                   else map_of f ''value'' \<noteq> None)"

fun TypeOrder :: "Value \<Rightarrow> int" where
  "TypeOrder NullValue = orderNull"
| "TypeOrder (BooleanValue _) = orderBool"
| "TypeOrder (IntegerValue _) = orderNumber"
| "TypeOrder (DoubleValue d) = (if float_IsNaN d then orderNaN else orderNumber)"
| "TypeOrder (TimestampValue _ _) = orderTimestamp"
| "TypeOrder (StringValue _) = orderString"
| "TypeOrder (BytesValue _) = orderBytes"
| "TypeOrder (ReferenceValue _) = orderReference"
| "TypeOrder (GeoPointValue _ _) = orderGeoPoint"
| "TypeOrder (ArrayValue _) = orderArray"
| "TypeOrder (MapValue m) = (if isVector m then orderVector else orderMap)"
| "TypeOrder UnknownValue = orderMap + 1"

definition IsNumeric :: "Value \<Rightarrow> bool" where
  "IsNumeric v \<longleftrightarrow> TypeOrder v = orderNumber \<or> TypeOrder v = orderNaN"

definition IsNull :: "Value \<Rightarrow> bool" where
  "IsNull v \<longleftrightarrow> TypeOrder v = orderNull"

definition IsNaN :: "Value \<Rightarrow> bool" where
  "IsNaN v \<longleftrightarrow> TypeOrder v = orderNaN"

section \<open>Comparison\<close>

definition cmpBool :: "bool \<Rightarrow> bool \<Rightarrow> int" where
  "cmpBool a b = (if a = b then 0 else if \<not> a then -1 else 1)"

definition cmpInt :: "int \<Rightarrow> int \<Rightarrow> int" where
  "cmpInt a b = (if a < b then -1 else if a > b then 1 else 0)"

definition cmpInt64 :: "int64 \<Rightarrow> int64 \<Rightarrow> int" where
  "cmpInt64 a b = (if sint a < sint b then -1 else if sint a > sint b then 1 else 0)"

definition normalizeZero :: "float64 \<Rightarrow> float64" where
  "normalizeZero f = (if float_eq f 0 then 0 else f)"

definition cmpFloat :: "float64 \<Rightarrow> float64 \<Rightarrow> int" where
  "cmpFloat x y =
     (let a = normalizeZero x; b = normalizeZero y
      in if float_less a b then -1 else if float_less b a then 1 else 0)"

text \<open>
  Mixed comparisons go through \<^verbatim>\<open>big.Float\<close>, which holds both operands exactly.
\<close>

definition compareNumbers :: "Value \<Rightarrow> Value \<Rightarrow> int" where
  "compareNumbers a b =
     (case a of
        IntegerValue ai \<Rightarrow>
          (case b of
             IntegerValue bi \<Rightarrow> cmpInt64 ai bi
           | _ \<Rightarrow> cmp3 (int_scaled ai) (float_scaled (normalizeZero (GetDoubleValue b))))
      | _ \<Rightarrow>
          (case b of
             IntegerValue bi \<Rightarrow> cmp3 (float_scaled (normalizeZero (GetDoubleValue a))) (int_scaled bi)
           | _ \<Rightarrow> cmpFloat (GetDoubleValue a) (GetDoubleValue b)))"

fun compareSegments :: "string list \<Rightarrow> string list \<Rightarrow> int" where
  "compareSegments (a # as) (b # bs) =
     then_cmp (bytes_Compare (bytes_of a) (bytes_of b)) (compareSegments as bs)"
| "compareSegments as bs = cmpInt (int (length as)) (int (length bs))"

definition CompareResourceNames :: "string \<Rightarrow> string \<Rightarrow> int" where
  "CompareResourceNames a b = compareSegments (splitOn CHR ''/'' a) (splitOn CHR ''/'' b)"

definition sortedKeys :: "Fields \<Rightarrow> string list" where
  "sortedKeys m = sort (map fst m)"

text \<open>The entries of a map in the order \<open>sortedKeys\<close> visits them.\<close>

definition sortedFields :: "Fields \<Rightarrow> Fields" where
  "sortedFields m = sort_key fst m"

definition vectorValues :: "Fields \<Rightarrow> Value list" where
  "vectorValues m = (case map_of m ''value'' of None \<Rightarrow> [] | Some v \<Rightarrow> GetArrayValues v)"

lemma size_GetArrayValues: "size_list size (GetArrayValues v) \<le> size v"
  by (cases v) auto

lemma size_sortedFields: "size_list f (sortedFields m) = size_list f m"
proof -
  have "mset (map f (sortedFields m)) = mset (map f m)"
    by (simp add: sortedFields_def)
  then have "sum_list (map f (sortedFields m)) = sum_list (map f m)"
    by (metis sum_mset_sum_list)
  then show ?thesis
    by (simp add: size_list_conv_sum_list sortedFields_def)
qed

lemma size_map_of: "map_of m k = Some v \<Longrightarrow> size v < size (MapValue m)"
  by (induction m) (auto split: if_splits)

lemma size_GetMapFields: "size_list (size_prod (\<lambda>_. 0) size) (GetMapFields v) \<le> size v"
  by (cases v) auto

lemma size_vectorValues: "size_list size (vectorValues m) \<le> size (MapValue m)"
  using size_map_of [of m "''value''"] size_GetArrayValues
  by (auto simp: vectorValues_def split: option.split dest!: less_imp_le intro: order_trans)

lemma size_vector_of: "size_list size (vectorValues (GetMapFields v)) \<le> size v"
proof (cases v)
  case (MapValue m)
  then show ?thesis using size_vectorValues [of m] by simp
qed (simp_all add: vectorValues_def)

function Compare :: "Value \<Rightarrow> Value \<Rightarrow> int"
  and compareArrays :: "Value list \<Rightarrow> Value list \<Rightarrow> int"
  and compareFields :: "Fields \<Rightarrow> Fields \<Rightarrow> int" where
  "Compare a b =
     (let ta = TypeOrder a; tb = TypeOrder b in
      if ta \<noteq> tb then cmpInt ta tb
      else if ta = orderNull \<or> ta = orderNaN then 0
      else if ta = orderBool then cmpBool (GetBooleanValue a) (GetBooleanValue b)
      else if ta = orderNumber then compareNumbers a b
      else if ta = orderTimestamp then
        then_cmp (cmpInt64 (fst (GetTimestampValue a)) (fst (GetTimestampValue b)))
          (cmpInt (sint (snd (GetTimestampValue a))) (sint (snd (GetTimestampValue b))))
      else if ta = orderString then
        bytes_Compare (bytes_of (GetStringValue a)) (bytes_of (GetStringValue b))
      else if ta = orderBytes then bytes_Compare (GetBytesValue a) (GetBytesValue b)
      else if ta = orderReference then
        CompareResourceNames (GetReferenceValue a) (GetReferenceValue b)
      else if ta = orderGeoPoint then
        then_cmp (cmpFloat (fst (GetGeoPointValue a)) (fst (GetGeoPointValue b)))
          (cmpFloat (snd (GetGeoPointValue a)) (snd (GetGeoPointValue b)))
      else if ta = orderArray then compareArrays (GetArrayValues a) (GetArrayValues b)
      else if ta = orderVector then
        then_cmp (cmpInt (int (length (vectorValues (GetMapFields a))))
            (int (length (vectorValues (GetMapFields b)))))
          (compareArrays (vectorValues (GetMapFields a)) (vectorValues (GetMapFields b)))
      else if ta = orderMap then
        compareFields (sortedFields (GetMapFields a)) (sortedFields (GetMapFields b))
      else 0)"
| "compareArrays as bs =
     (case as of
        [] \<Rightarrow> cmpInt (int (length as)) (int (length bs))
      | a # as' \<Rightarrow>
          (case bs of
             [] \<Rightarrow> cmpInt (int (length as)) (int (length bs))
           | b # bs' \<Rightarrow> then_cmp (Compare a b) (compareArrays as' bs')))"
| "compareFields as bs =
     (case as of
        [] \<Rightarrow> cmpInt (int (length as)) (int (length bs))
      | (k, a) # as' \<Rightarrow>
          (case bs of
             [] \<Rightarrow> cmpInt (int (length as)) (int (length bs))
           | (l, b) # bs' \<Rightarrow>
               then_cmp (bytes_Compare (bytes_of k) (bytes_of l))
                 (then_cmp (Compare a b) (compareFields as' bs'))))"
  by pat_completeness auto
termination
proof (relation "measure (\<lambda>x. case x of
      Inl (a, b) \<Rightarrow> 2 * (size a + size b) + 1
    | Inr (Inl (as, bs)) \<Rightarrow> 2 * (size_list size as + size_list size bs)
    | Inr (Inr (as, bs)) \<Rightarrow>
        2 * (size_list (size_prod (\<lambda>_. 0) size) as + size_list (size_prod (\<lambda>_. 0) size) bs))", goal_cases)
  case 1
  then show ?case by simp
next
  case (2 a b)
  show ?case using size_GetArrayValues [of a] size_GetArrayValues [of b] by simp
next
  case (3 a b)
  show ?case using size_vector_of [of a] size_vector_of [of b] by simp
next
  case (4 a b)
  show ?case using size_GetMapFields [of a] size_GetMapFields [of b] by (simp add: size_sortedFields)
qed auto

definition Equal :: "Value \<Rightarrow> Value \<Rightarrow> bool" where
  "Equal a b \<longleftrightarrow> Compare a b = 0"

text \<open>
  Values as they reach the store: timestamps with nanoseconds in their protobuf range,
  geopoints with real coordinates, maps with one entry per key, arrays whose length fits 32
  bits (a protobuf message is smaller than that).
\<close>

fun valid_value :: "Value \<Rightarrow> bool" where
  "valid_value (TimestampValue s n) \<longleftrightarrow> 0 \<le> sint n \<and> sint n < 1000000000"
| "valid_value (GeoPointValue lat lng) \<longleftrightarrow> \<not> float_IsNaN lat \<and> \<not> float_IsNaN lng"
| "valid_value (ArrayValue vs) \<longleftrightarrow> length vs < 2 ^ 32 \<and> (\<forall>v \<in> set vs. valid_value v)"
| "valid_value (MapValue m) \<longleftrightarrow> distinct (map fst m) \<and> (\<forall>kv \<in> set m. valid_value (snd kv))"
| "valid_value _ \<longleftrightarrow> True"

definition valid_fields :: "Fields \<Rightarrow> bool" where
  "valid_fields m \<longleftrightarrow> distinct (map fst m) \<and> (\<forall>kv \<in> set m. valid_value (snd kv))"

section \<open>Computing comparisons\<close>

declare Compare.simps [simp del] compareArrays.simps [simp del] compareFields.simps [simp del]

lemma cmpInt_cmp3 [simp]: "cmpInt a b = cmp3 a b"
  by (simp add: cmpInt_def cmp3_def)

lemma cmpInt64_cmp3 [simp]: "cmpInt64 a b = cmp3 (sint a) (sint b)"
  by (simp add: cmpInt64_def cmp3_def)

lemma cmpBool_cmp3: "cmpBool a b = cmp3 a b"
  by (auto simp: cmpBool_def cmp3_def)

lemma cmp3_of_nat [simp]: "cmp3 (int m) (int n) = cmp3 m n"
  by (simp add: cmp3_def)

lemma compareArrays_simps [simp]:
  "compareArrays [] bs = cmp3 0 (length bs)"
  "compareArrays (a # as) [] = 1"
  "compareArrays (a # as) (b # bs) = then_cmp (Compare a b) (compareArrays as bs)"
  by (simp_all add: compareArrays.simps cmp3_def)

lemma compareFields_simps [simp]:
  "compareFields [] bs = cmp3 0 (length bs)"
  "compareFields (p # as) [] = 1"
  "compareFields ((k, a) # as) ((l, b) # bs) =
     then_cmp (cmp3 k l) (then_cmp (Compare a b) (compareFields as bs))"
  by (simp_all add: compareFields.simps cmp3_def split: prod.split)

lemma float_scaled_normalizeZero [simp]:
  "\<not> float_IsNaN f \<Longrightarrow> float_scaled (normalizeZero f) = float_scaled f"
  by (simp add: normalizeZero_def float_eq_def)

lemma float_IsNaN_normalizeZero [simp]: "float_IsNaN (normalizeZero f) \<longleftrightarrow> float_IsNaN f"
  by (simp add: normalizeZero_def float_eq_def)

lemma cmpFloat_scaled:
  "\<not> float_IsNaN a \<Longrightarrow> \<not> float_IsNaN b \<Longrightarrow> cmpFloat a b = cmp3 (float_scaled a) (float_scaled b)"
  by (simp add: cmpFloat_def float_less_def cmp3_def Let_def)

text \<open>The exact value of a number, in units of \<open>2 ^ -1074\<close>.\<close>

fun num_scaled :: "Value \<Rightarrow> int" where
  "num_scaled (IntegerValue x) = int_scaled x"
| "num_scaled (DoubleValue d) = float_scaled d"
| "num_scaled _ = 0"

lemma number_cases:
  assumes "TypeOrder v = orderNumber"
  obtains x where "v = IntegerValue x" | d where "v = DoubleValue d" "\<not> float_IsNaN d"
  using assms by (cases v) (auto split: if_splits)

lemma compareNumbers_scaled:
  assumes "TypeOrder a = orderNumber" "TypeOrder b = orderNumber"
  shows "compareNumbers a b = cmp3 (num_scaled a) (num_scaled b)"
  using assms
  by (elim number_cases) (simp_all add: compareNumbers_def cmpFloat_scaled int_scaled_def cmp3_def)

lemma Compare_types: "TypeOrder a \<noteq> TypeOrder b \<Longrightarrow> Compare a b = cmp3 (TypeOrder a) (TypeOrder b)"
  by (simp add: Compare.simps Let_def)

lemma Compare_number:
  "TypeOrder a = orderNumber \<Longrightarrow> TypeOrder b = orderNumber \<Longrightarrow>
   Compare a b = cmp3 (num_scaled a) (num_scaled b)"
  by (simp add: Compare.simps compareNumbers_scaled)

lemma Compare_simps [simp]:
  "Compare NullValue NullValue = 0"
  "Compare UnknownValue UnknownValue = 0"
  "Compare (BooleanValue p) (BooleanValue q) = cmp3 p q"
  "Compare (TimestampValue s n) (TimestampValue s' n') =
     then_cmp (cmp3 (sint s) (sint s')) (cmp3 (sint n) (sint n'))"
  "Compare (StringValue u) (StringValue v) = cmp3 u v"
  "Compare (BytesValue x) (BytesValue y) = bytes_Compare x y"
  "Compare (ReferenceValue r) (ReferenceValue r') = CompareResourceNames r r'"
  "Compare (GeoPointValue lat lng) (GeoPointValue lat' lng') =
     then_cmp (cmpFloat lat lat') (cmpFloat lng lng')"
  "Compare (ArrayValue as) (ArrayValue bs) = compareArrays as bs"
  by (simp_all add: Compare.simps cmpBool_cmp3)

lemma Compare_NaN: "TypeOrder a = orderNaN \<Longrightarrow> TypeOrder b = orderNaN \<Longrightarrow> Compare a b = 0"
  by (simp add: Compare.simps)

lemma Compare_map:
  "isVector m \<longleftrightarrow> isVector m' \<Longrightarrow> Compare (MapValue m) (MapValue m') =
     (if isVector m
      then then_cmp (cmp3 (length (vectorValues m)) (length (vectorValues m')))
             (compareArrays (vectorValues m) (vectorValues m'))
      else compareFields (sortedFields m) (sortedFields m'))"
  by (simp add: Compare.simps)

lemma sortedFields_sortedKeys:
  assumes "distinct (map fst m)"
  shows "sortedFields m = map (\<lambda>k. (k, the (map_of m k))) (sortedKeys m)"
proof -
  have keys: "map fst (sortedFields m) = sortedKeys m"
    unfolding sortedFields_def sortedKeys_def
    by (rule properties_for_sort [symmetric]) simp_all
  have "map_of m (fst p) = Some (snd p)" if "p \<in> set (sortedFields m)" for p
    using that assms by (simp add: sortedFields_def)
  then have "map (\<lambda>p. (fst p, the (map_of m (fst p)))) (sortedFields m) = sortedFields m"
    by (simp add: map_idI)
  with keys show ?thesis by (metis (no_types, lifting) list.map_comp comp_apply map_eq_conv)
qed

lemma valid_map_of: "valid_value (MapValue m) \<Longrightarrow> map_of m k = Some v \<Longrightarrow> valid_value v"
  by (auto dest!: map_of_SomeD)

lemma valid_MapValue: "valid_value (MapValue m) \<longleftrightarrow> valid_fields m"
  by (simp add: valid_fields_def)

lemma length_vectorValues: "valid_value (MapValue m) \<Longrightarrow> length (vectorValues m) < 2 ^ 32"
proof -
  assume m: "valid_value (MapValue m)"
  show ?thesis
  proof (cases "map_of m ''value''")
    case (Some v)
    with m have "valid_value v" by (rule valid_map_of)
    with Some show ?thesis by (cases v) (simp_all add: vectorValues_def)
  qed (simp add: vectorValues_def)
qed

lemma valid_vectorValues: "valid_value (MapValue m) \<Longrightarrow> v \<in> set (vectorValues m) \<Longrightarrow> valid_value v"
proof -
  assume m: "valid_value (MapValue m)" and v: "v \<in> set (vectorValues m)"
  from v obtain w where w: "map_of m ''value'' = Some w" "v \<in> set (GetArrayValues w)"
    by (cases "map_of m ''value''") (auto simp: vectorValues_def)
  then have "valid_value w" using m by (blast intro: valid_map_of)
  with w(2) show "valid_value v" by (cases w) auto
qed

end
