(* ===== verification/SortKey.thy ===== *)
theory SortKey
  imports Value
begin

text \<open>
  Package \<^verbatim>\<open>value\<close>, file \<^verbatim>\<open>sortkey.go\<close>: the byte encoding of values whose memcmp order is
  \<open>Compare\<close>. The functions keep the source's shape (each appends to a destination
  buffer); \<open>key_encoding\<close> of the prelude is interpreted for the value key, the name key and
  the escaped strings, and the theorems of this file are what the interpretations give.
\<close>

section \<open>The encoder\<close>

abbreviation (input) "tagNull \<equiv> (0x10 :: byte)"
abbreviation (input) "tagBool \<equiv> (0x18 :: byte)"
abbreviation (input) "tagNaN \<equiv> (0x20 :: byte)"
abbreviation (input) "tagNumber \<equiv> (0x28 :: byte)"
abbreviation (input) "tagTimestamp \<equiv> (0x30 :: byte)"
abbreviation (input) "tagString \<equiv> (0x38 :: byte)"
abbreviation (input) "tagBytes \<equiv> (0x40 :: byte)"
abbreviation (input) "tagReference \<equiv> (0x48 :: byte)"
abbreviation (input) "tagGeoPoint \<equiv> (0x50 :: byte)"
abbreviation (input) "tagArray \<equiv> (0x58 :: byte)"
abbreviation (input) "tagVector \<equiv> (0x5C :: byte)"
abbreviation (input) "tagMap \<equiv> (0x60 :: byte)"

abbreviation (input) "numNegInf \<equiv> (0x00 :: byte)"
abbreviation (input) "numNeg \<equiv> (0x01 :: byte)"
abbreviation (input) "numZero \<equiv> (0x02 :: byte)"
abbreviation (input) "numPos \<equiv> (0x03 :: byte)"
abbreviation (input) "numPosInf \<equiv> (0x04 :: byte)"

abbreviation (input) "itemMarker \<equiv> (0x01 :: byte)"
abbreviation (input) "endMarker \<equiv> (0x00 :: byte)"

fun escapeBytes :: "bytes \<Rightarrow> bytes \<Rightarrow> bytes" where
  "escapeBytes dst [] = dst"
| "escapeBytes dst (b # bs) =
     (if b = 0x00 then escapeBytes (dst @ [0x00, 0xFF]) bs else escapeBytes (dst @ [b]) bs)"

definition appendEscaped :: "bytes \<Rightarrow> bytes \<Rightarrow> bytes" where
  "appendEscaped dst content = escapeBytes dst content @ [0x00, 0x01]"

function nameLoop :: "bytes \<Rightarrow> string \<Rightarrow> bytes" where
  "nameLoop dst seg =
     (if seg = [] then dst
      else
        let dst1 = appendEscaped (dst @ [itemMarker]) (bytes_of (takeWhile (\<lambda>c. c \<noteq> CHR ''/'') seg)) in
        (case dropWhile (\<lambda>c. c \<noteq> CHR ''/'') seg of
           [] \<Rightarrow> dst1
         | _ # seg' \<Rightarrow>
             if seg' = [] then appendEscaped (dst1 @ [itemMarker]) [] else nameLoop dst1 seg'))"
  by pat_completeness auto
termination
proof (relation "measure (\<lambda>(dst, seg). length seg)", goal_cases)
  case (2 dst seg dst1 c seg')
  then have "length (c # seg') \<le> length seg" by (metis length_dropWhile_le)
  then show ?case by simp
qed simp

definition appendNamePayload :: "bytes \<Rightarrow> string \<Rightarrow> bytes" where
  "appendNamePayload dst name = nameLoop dst name @ [endMarker]"

definition appendNumParts :: "bytes \<Rightarrow> bool \<Rightarrow> int \<Rightarrow> uint64 \<Rightarrow> bytes" where
  "appendNumParts dst neg e mant =
     (let payload = be_bytes 2 (unat (word_of_int (e + 1074) :: 16 word)) @ be_bytes 8 (unat mant)
      in if neg then dst @ [numNeg] @ complement payload else dst @ [numPos] @ payload)"

definition appendIntKey :: "bytes \<Rightarrow> int64 \<Rightarrow> bytes" where
  "appendIntKey dst x =
     (if x = 0 then dst @ [numZero]
      else
        let mag = (if sint x < 0 then - x else x);
            nbits = bit_len (unat mag);
            mant = push_bit (64 - nbits) mag
        in appendNumParts dst (sint x < 0) (int nbits - 1) mant)"

definition appendDoubleKey :: "bytes \<Rightarrow> float64 \<Rightarrow> bytes" where
  "appendDoubleKey dst d =
     (if float_eq d 0 then dst @ [numZero]
      else if float_IsInf d \<and> \<not> float_sign d then dst @ [numPosInf]
      else if float_IsInf d \<and> float_sign d then dst @ [numNegInf]
      else
        let (frac, e) = Frexp53 d;
            mant = push_bit 11 (word_of_nat frac)
        in appendNumParts dst (float_less d 0) (e - 1) mant)"

definition appendOrderedDouble :: "bytes \<Rightarrow> float64 \<Rightarrow> bytes" where
  "appendOrderedDouble dst d =
     (let b = normalizeZero d;
          b' = (if b AND push_bit 63 1 \<noteq> 0 then NOT b else b OR push_bit 63 1)
      in dst @ be_bytes 8 (unat b'))"

function AppendSortKey :: "bytes \<Rightarrow> Value \<Rightarrow> bytes"
  and appendItems :: "bytes \<Rightarrow> Value list \<Rightarrow> bytes"
  and appendEntries :: "bytes \<Rightarrow> Fields \<Rightarrow> bytes" where
  "AppendSortKey dst v =
     (case v of
        NullValue \<Rightarrow> dst @ [tagNull]
      | BooleanValue b \<Rightarrow> if b then dst @ [tagBool, 1] else dst @ [tagBool, 0]
      | IntegerValue x \<Rightarrow> appendIntKey (dst @ [tagNumber]) x
      | DoubleValue d \<Rightarrow>
          if float_IsNaN d then dst @ [tagNaN] else appendDoubleKey (dst @ [tagNumber]) d
      | TimestampValue secs nanos \<Rightarrow>
          dst @ [tagTimestamp] @ be_bytes 8 (unat (secs XOR push_bit 63 1)) @ be_bytes 4 (unat nanos)
      | StringValue s \<Rightarrow> appendEscaped (dst @ [tagString]) (bytes_of s)
      | BytesValue b \<Rightarrow> appendEscaped (dst @ [tagBytes]) b
      | ReferenceValue r \<Rightarrow> appendNamePayload (dst @ [tagReference]) r
      | GeoPointValue lat lng \<Rightarrow> appendOrderedDouble (appendOrderedDouble (dst @ [tagGeoPoint]) lat) lng
      | ArrayValue vs \<Rightarrow> appendItems (dst @ [tagArray]) vs @ [endMarker]
      | MapValue m \<Rightarrow>
          if isVector m
          then appendItems (dst @ [tagVector] @
                 be_bytes 4 (unat (word_of_nat (length (vectorValues m)) :: 32 word)))
                 (vectorValues m) @ [endMarker]
          else appendEntries (dst @ [tagMap]) (sortedFields m) @ [endMarker]
      | UnknownValue \<Rightarrow> dst @ [0xFE])"
| "appendItems dst vs =
     (case vs of [] \<Rightarrow> dst | v # vs' \<Rightarrow> appendItems (AppendSortKey (dst @ [itemMarker]) v) vs')"
| "appendEntries dst m =
     (case m of
        [] \<Rightarrow> dst
      | (k, v) # m' \<Rightarrow>
          appendEntries (AppendSortKey (appendEscaped (dst @ [itemMarker]) (bytes_of k)) v) m')"
  by pat_completeness auto
termination
proof (relation "measure (\<lambda>x. case x of
      Inl (dst, v) \<Rightarrow> 2 * size v + 1
    | Inr (Inl (dst, vs)) \<Rightarrow> 2 * size_list size vs
    | Inr (Inr (dst, m)) \<Rightarrow> 2 * size_list (size_prod (\<lambda>_. 0) size) m)", goal_cases)
  case (3 dst v m)
  then show ?case using size_vectorValues [of m] by simp
qed (auto simp: size_sortedFields)

definition AppendSortKeyDesc :: "bytes \<Rightarrow> Value \<Rightarrow> bytes" where
  "AppendSortKeyDesc dst v =
     (let d = AppendSortKey dst v in take (length dst) d @ complement (drop (length dst) d))"

definition AppendNameKey :: "bytes \<Rightarrow> string \<Rightarrow> bytes" where
  "AppendNameKey dst name = appendNamePayload dst name"

definition AppendNameKeyDesc :: "bytes \<Rightarrow> string \<Rightarrow> bytes" where
  "AppendNameKeyDesc dst name =
     (let d = appendNamePayload dst name in take (length dst) d @ complement (drop (length dst) d))"

definition TypeBucket :: "bytes \<Rightarrow> Value \<Rightarrow> bool \<Rightarrow> bytes" where
  "TypeBucket dst v desc =
     (case (if desc then AppendSortKeyDesc [] v else AppendSortKey [] v) of
        [] \<Rightarrow> dst
      | k # _ \<Rightarrow> dst @ [k])"

declare nameLoop.simps [simp del]
declare AppendSortKey.simps [simp del] appendItems.simps [simp del] appendEntries.simps [simp del]

section \<open>Every appender appends\<close>

lemma escapeBytes_append: "escapeBytes dst c = dst @ escapeBytes [] c"
proof (induction c arbitrary: dst)
  case (Cons b c)
  show ?case
    using Cons.IH [of "dst @ [0x00, 0xFF]"] Cons.IH [of "dst @ [b]"] Cons.IH [of "[0x00, 0xFF]"]
      Cons.IH [of "[b]"] by simp
qed simp

definition escaped :: "bytes \<Rightarrow> bytes" where
  "escaped c = appendEscaped [] c"

lemma appendEscaped_eq: "appendEscaped dst c = dst @ escaped c"
  using escapeBytes_append [of dst c] by (simp add: escaped_def appendEscaped_def)

lemma escaped_simps [simp]:
  "escaped [] = [0x00, 0x01]"
  "escaped (b # c) = (if b = 0x00 then [0x00, 0xFF] else [b]) @ escaped c"
  using escapeBytes_append [of "[0x00, 0xFF]" c] escapeBytes_append [of "[b]" c]
  by (simp_all add: escaped_def appendEscaped_def)

definition nameItems :: "string list \<Rightarrow> bytes" where
  "nameItems ss = concat (map (\<lambda>s. itemMarker # escaped (bytes_of s)) ss)"

lemma splitOn_takeWhile:
  "splitOn c s = takeWhile (\<lambda>x. x \<noteq> c) s #
     (case dropWhile (\<lambda>x. x \<noteq> c) s of [] \<Rightarrow> [] | _ # t \<Rightarrow> splitOn c t)"
  by (induction s) auto

lemma nameLoop_eq: "nameLoop dst seg = dst @ (if seg = [] then [] else nameItems (splitOn CHR ''/'' seg))"
proof (induction dst seg rule: nameLoop.induct)
  case (1 dst seg)
  show ?case
  proof (cases "dropWhile (\<lambda>c. c \<noteq> CHR ''/'') seg")
    case Nil
    then show ?thesis
      by (simp add: nameLoop.simps [of dst seg] Let_def appendEscaped_eq nameItems_def
          splitOn_takeWhile [of _ seg] del: dropWhile_eq_Nil_conv)
  next
    case (Cons c seg')
    with 1 show ?thesis
      by (auto simp: nameLoop.simps [of dst seg] Let_def appendEscaped_eq nameItems_def
          splitOn_takeWhile [of _ seg])
  qed
qed

definition nameKey :: "string \<Rightarrow> bytes" where
  "nameKey name = appendNamePayload [] name"

lemma nameKey_eq: "nameKey name = (if name = [] then [] else nameItems (splitOn CHR ''/'' name)) @ [endMarker]"
  by (simp add: nameKey_def appendNamePayload_def nameLoop_eq)

lemma appendNamePayload_eq: "appendNamePayload dst name = dst @ nameKey name"
  by (simp add: nameKey_def appendNamePayload_def nameLoop_eq)

lemma AppendNameKey_eq [simp]: "AppendNameKey dst name = dst @ nameKey name"
  by (simp add: AppendNameKey_def appendNamePayload_eq)

lemma AppendNameKeyDesc_eq [simp]: "AppendNameKeyDesc dst name = dst @ complement (nameKey name)"
  by (simp add: AppendNameKeyDesc_def appendNamePayload_eq)

definition numKey :: "Value \<Rightarrow> bytes" where
  "numKey v = (case v of IntegerValue x \<Rightarrow> appendIntKey [] x | _ \<Rightarrow> appendDoubleKey [] (GetDoubleValue v))"

lemma appendNumParts_eq: "appendNumParts dst neg e m = dst @ appendNumParts [] neg e m"
  by (simp add: appendNumParts_def Let_def)

lemma appendIntKey_eq: "appendIntKey dst x = dst @ appendIntKey [] x"
  by (simp add: appendIntKey_def Let_def appendNumParts_eq [of dst])

lemma appendDoubleKey_eq: "appendDoubleKey dst d = dst @ appendDoubleKey [] d"
  by (simp add: appendDoubleKey_def Let_def appendNumParts_eq [of dst] split: prod.split)

lemma appendOrderedDouble_eq: "appendOrderedDouble dst d = dst @ appendOrderedDouble [] d"
  by (simp add: appendOrderedDouble_def Let_def)

definition sortKey :: "Value \<Rightarrow> bytes" where
  "sortKey v = AppendSortKey [] v"

definition itemKeys :: "Value list \<Rightarrow> bytes" where
  "itemKeys vs = concat (map (\<lambda>v. itemMarker # sortKey v) vs)"

definition entryKeys :: "Fields \<Rightarrow> bytes" where
  "entryKeys m = concat (map (\<lambda>(k, v). itemMarker # escaped (bytes_of k) @ sortKey v) m)"

lemma appendItems_simps:
  "appendItems d [] = d" "appendItems d (v # vs) = appendItems (AppendSortKey (d @ [itemMarker]) v) vs"
  by (simp_all add: appendItems.simps)

lemma appendEntries_simps:
  "appendEntries d [] = d"
  "appendEntries d ((k, v) # m) =
     appendEntries (AppendSortKey (appendEscaped (d @ [itemMarker]) (bytes_of k)) v) m"
  by (simp_all add: appendEntries.simps)

lemma AppendSortKey_append_all:
  "(\<forall>d. AppendSortKey d v = d @ sortKey v) \<and> (\<forall>d. appendItems d vs = d @ itemKeys vs) \<and>
   (\<forall>d. appendEntries d m = d @ entryKeys m)"
proof -
  note induct = AppendSortKey_appendItems_appendEntries.induct
    [where P = "\<lambda>_ v. \<forall>d. AppendSortKey d v = d @ sortKey v"
      and Q = "\<lambda>_ vs. \<forall>d. appendItems d vs = d @ itemKeys vs"
      and R = "\<lambda>_ m. \<forall>d. appendEntries d m = d @ entryKeys m"]
  have 1: "\<forall>d. AppendSortKey d v = d @ sortKey v"
    if "\<And>vs. v = ArrayValue vs \<Longrightarrow> \<forall>d. appendItems d vs = d @ itemKeys vs"
      and "\<And>m. v = MapValue m \<Longrightarrow> isVector m \<Longrightarrow>
        \<forall>d. appendItems d (vectorValues m) = d @ itemKeys (vectorValues m)"
      and "\<And>m. v = MapValue m \<Longrightarrow> \<not> isVector m \<Longrightarrow>
        \<forall>d. appendEntries d (sortedFields m) = d @ entryKeys (sortedFields m)" for v
    using that
    by (cases v) (simp_all add: sortKey_def AppendSortKey.simps appendEscaped_eq appendNamePayload_eq
        appendIntKey_eq [of "_ @ _"] appendIntKey_eq [of "[_]"]
        appendDoubleKey_eq [of "_ @ _"] appendDoubleKey_eq [of "[_]"]
        appendOrderedDouble_eq [of "_ @ _"] appendOrderedDouble_eq [of "_ # _"])
  have 2: "\<forall>d. appendItems d vs = d @ itemKeys vs"
    if "\<And>w ws. vs = w # ws \<Longrightarrow> \<forall>d. AppendSortKey d w = d @ sortKey w"
      and "\<And>w ws. vs = w # ws \<Longrightarrow> \<forall>d. appendItems d ws = d @ itemKeys ws" for vs
    using that by (cases vs) (simp_all add: appendItems_simps itemKeys_def)
  have 3: "\<forall>d. appendEntries d m = d @ entryKeys m"
    if "\<And>k w ws. m = (k, w) # ws \<Longrightarrow> \<forall>d. AppendSortKey d w = d @ sortKey w"
      and "\<And>k w ws. m = (k, w) # ws \<Longrightarrow> \<forall>d. appendEntries d ws = d @ entryKeys ws" for m
    using that by (cases m) (auto simp: appendEntries_simps entryKeys_def appendEscaped_eq)
  show ?thesis
  proof (intro conjI)
    show "\<forall>d. AppendSortKey d v = d @ sortKey v"
      by (rule induct(1)) ((rule 1 2 3; simp)+)
    show "\<forall>d. appendItems d vs = d @ itemKeys vs"
      by (rule induct(2)) ((rule 1 2 3; simp)+)
    show "\<forall>d. appendEntries d m = d @ entryKeys m"
      by (rule induct(3)) ((rule 1 2 3; simp)+)
  qed
qed

lemma AppendSortKey_eq [simp]: "AppendSortKey dst v = dst @ sortKey v"
  and appendItems_eq: "appendItems dst vs = dst @ itemKeys vs"
  and appendEntries_eq: "appendEntries dst m = dst @ entryKeys m"
  using AppendSortKey_append_all by blast+

lemma AppendSortKeyDesc_eq [simp]: "AppendSortKeyDesc dst v = dst @ complement (sortKey v)"
  by (simp add: AppendSortKeyDesc_def)

lemma sortKey_simps:
  "sortKey NullValue = [tagNull]"
  "sortKey (BooleanValue p) = [tagBool, if p then 1 else 0]"
  "sortKey (IntegerValue i) = tagNumber # numKey (IntegerValue i)"
  "sortKey (DoubleValue d) = (if float_IsNaN d then [tagNaN] else tagNumber # numKey (DoubleValue d))"
  "sortKey (TimestampValue s n) =
     tagTimestamp # be_bytes 8 (unat (s XOR push_bit 63 1)) @ be_bytes 4 (unat n)"
  "sortKey (StringValue u) = tagString # escaped (bytes_of u)"
  "sortKey (BytesValue b) = tagBytes # escaped b"
  "sortKey (ReferenceValue r) = tagReference # nameKey r"
  "sortKey (GeoPointValue lat lng) =
     tagGeoPoint # appendOrderedDouble [] lat @ appendOrderedDouble [] lng"
  "sortKey (ArrayValue vs) = tagArray # itemKeys vs @ [endMarker]"
  "sortKey (MapValue m) =
     (if isVector m
      then tagVector # be_bytes 4 (unat (word_of_nat (length (vectorValues m)) :: 32 word)) @
        itemKeys (vectorValues m) @ [endMarker]
      else tagMap # entryKeys (sortedFields m) @ [endMarker])"
  "sortKey UnknownValue = [0xFE]"
  by (simp_all add: sortKey_def AppendSortKey.simps appendItems_eq appendEntries_eq numKey_def
      appendEscaped_eq appendNamePayload_eq appendIntKey_eq [of "[_]"] appendDoubleKey_eq [of "[_]"]
      appendOrderedDouble_eq [of "_ @ _"] appendOrderedDouble_eq [of "_ # _"] del: AppendSortKey_eq)

section \<open>Strings and names\<close>

lemma escaped_cmp:
  "bytes_Compare (escaped u @ x) (escaped v @ y) = then_cmp (bytes_Compare u v) (bytes_Compare x y)"
proof (induction u v rule: bytes_Compare.induct)
  case (2 b v)
  then show ?case by (auto simp: word_gt_0)
next
  case (3 a u)
  then show ?case by (auto simp: word_gt_0)
next
  case (4 a u b v)
  then show ?case by (auto simp: word_gt_0)
qed simp

interpretation escaped_key: key_encoding escaped bytes_Compare "\<lambda>_. True"
  by unfold_locales (rule escaped_cmp)

lemma nameItems_simps [simp]:
  "nameItems [] = []" "nameItems (s # ss) = itemMarker # escaped (bytes_of s) @ nameItems ss"
  by (simp_all add: nameItems_def)

lemma nameItems_cmp:
  "bytes_Compare (nameItems as @ endMarker # x) (nameItems bs @ endMarker # y) =
   then_cmp (compareSegments as bs) (bytes_Compare x y)"
proof (induction as arbitrary: bs)
  case Nil
  then show ?case by (cases bs) (simp_all add: cmp3_def)
next
  case (Cons a as)
  then show ?case by (cases bs) (simp_all add: escaped_cmp then_cmp_assoc cmp3_def)
qed

lemma splitOn_empty_first: "s \<noteq> [] \<Longrightarrow> compareSegments [[]] (splitOn c s) = -1"
  by (cases s) (auto simp: cmp3_def split: list.split)

lemma compareSegments_swap: "compareSegments bs as = - compareSegments as bs"
proof (induction as arbitrary: bs)
  case Nil
  then show ?case by (cases bs) (simp_all add: cmp3_def)
next
  case (Cons a as)
  then show ?case
    using cmp3_swap [of "hd bs" a] by (cases bs) (simp_all add: then_cmp_def cmp3_def)
qed

lemma nameKey_cmp:
  "bytes_Compare (nameKey a @ x) (nameKey b @ y) = then_cmp (CompareResourceNames a b) (bytes_Compare x y)"
proof -
  have items: "\<exists>w. nameItems (splitOn CHR ''/'' s) = itemMarker # w" for s
    by (cases "splitOn CHR ''/'' s") auto
  consider "a = []" "b = []" | "a = []" "b \<noteq> []" | "a \<noteq> []" "b = []" | "a \<noteq> []" "b \<noteq> []" by blast
  then show ?thesis
  proof cases
    case 2
    with items [of b] splitOn_empty_first [of b] show ?thesis
      by (auto simp: nameKey_eq CompareResourceNames_def)
  next
    case 3
    with items [of a] splitOn_empty_first [of a] compareSegments_swap [of "splitOn CHR ''/'' a" "[[]]"]
    show ?thesis by (auto simp: nameKey_eq CompareResourceNames_def)
  next
    case 4
    then show ?thesis by (simp add: nameKey_eq nameItems_cmp CompareResourceNames_def)
  qed (simp add: nameKey_eq CompareResourceNames_def)
qed

interpretation name_key: key_encoding nameKey CompareResourceNames "\<lambda>_. True"
  by unfold_locales (rule nameKey_cmp)

lemma compareSegments_0_iff [simp]: "compareSegments as bs = 0 \<longleftrightarrow> as = bs"
  by (induction as bs rule: compareSegments.induct) auto

lemma CompareResourceNames_0_iff [simp]: "CompareResourceNames a b = 0 \<longleftrightarrow> a = b"
  by (simp add: CompareResourceNames_def splitOn_inj)

section \<open>Numbers\<close>

text \<open>
  What the numeric payload records of an exact value: its class, and for a finite nonzero
  number the biased exponent \<open>E\<close> and the left-aligned mantissa \<open>M\<close>.
\<close>

definition numBytes :: "nat \<Rightarrow> nat \<Rightarrow> bytes" where
  "numBytes E M = be_bytes 2 E @ be_bytes 8 M"

definition num_parts :: "nat \<Rightarrow> nat \<Rightarrow> nat \<Rightarrow> bool" where
  "num_parts s E M \<longleftrightarrow> s * 2 ^ 63 = M * 2 ^ E \<and> 2 ^ 63 \<le> M \<and> M < 2 ^ 64 \<and> E < 2098"

definition inf_scaled :: int where
  "inf_scaled = 2 ^ 2098"

inductive num_repr :: "int \<Rightarrow> bytes \<Rightarrow> bool" where
  neg_inf: "num_repr (- inf_scaled) [numNegInf]"
| neg: "num_parts s E M \<Longrightarrow> num_repr (- int s) (numNeg # complement (numBytes E M))"
| zero: "num_repr 0 [numZero]"
| pos: "num_parts s E M \<Longrightarrow> num_repr (int s) (numPos # numBytes E M)"
| pos_inf: "num_repr inf_scaled [numPosInf]"

lemma num_parts_pos: "num_parts s E M \<Longrightarrow> 0 < s"
  by (cases s) (auto simp: num_parts_def)

lemma num_parts_bound:
  assumes "num_parts s E M"
  shows "0 < int s \<and> int s < inf_scaled"
proof -
  from assms have "s * 2 ^ 63 < 2 ^ 64 * 2 ^ E" "E \<le> 2097"
    by (auto simp: num_parts_def)
  moreover from this(2) have "(2::nat) ^ E \<le> 2 ^ 2097" by (rule power_increasing) simp
  ultimately have "s * 2 ^ 63 < 2 ^ 64 * 2 ^ 2097" by (meson less_le_trans mult_le_mono2)
  also have "(2::nat) ^ 64 * 2 ^ 2097 = 2 ^ 2098 * 2 ^ 63" by (simp flip: power_add)
  finally have "s < 2 ^ 2098" by (metis mult_less_cancel2)
  then have "int s < 2 ^ 2098" by (metis of_nat_less_iff of_nat_numeral of_nat_power)
  with num_parts_pos [OF assms] show ?thesis by (simp only: inf_scaled_def of_nat_0_less_iff)
qed

lemma inf_scaled_pos: "0 < inf_scaled"
  by (simp add: inf_scaled_def)

lemma num_parts_less:
  assumes "num_parts s E M" "num_parts t F N" "E < F \<or> E = F \<and> M < N"
  shows "s < t"
proof -
  note p = assms(1,2) [unfolded num_parts_def]
  have "M * 2 ^ E < N * 2 ^ F"
  proof (cases "E = F")
    case True
    with assms(3) show ?thesis by simp
  next
    case False
    with assms(3) have "Suc E \<le> F" by simp
    have "M * 2 ^ E < 2 ^ 64 * 2 ^ E" using p by simp
    also have "\<dots> = 2 ^ 63 * 2 ^ Suc E" by simp
    also have "\<dots> \<le> N * 2 ^ F"
      using p \<open>Suc E \<le> F\<close> by (intro mult_le_mono power_increasing) auto
    finally show ?thesis .
  qed
  then have "s * 2 ^ 63 < t * 2 ^ 63" using p by metis
  then show ?thesis by (metis mult_less_cancel2)
qed

lemma numBytes_cmp:
  assumes "num_parts s E M" "num_parts t F N"
  shows "bytes_Compare (numBytes E M @ x) (numBytes F N @ y) = then_cmp (cmp3 s t) (bytes_Compare x y)"
proof -
  have "bytes_Compare (numBytes E M @ x) (numBytes F N @ y) =
    then_cmp (cmp3 E F) (then_cmp (cmp3 M N) (bytes_Compare x y))"
    using assms be_bytes_cmp [of E 2 F] be_bytes_cmp [of M 8 N]
    by (simp add: numBytes_def num_parts_def)
  moreover have "then_cmp (cmp3 E F) (cmp3 M N) = cmp3 s t"
  proof -
    consider "E < F \<or> E = F \<and> M < N" | "F < E \<or> F = E \<and> N < M" | "E = F" "M = N" by linarith
    then show ?thesis
    proof cases
      case 1
      with num_parts_less [OF assms] show ?thesis by (auto simp: cmp3_def)
    next
      case 2
      with num_parts_less [OF assms(2,1)] show ?thesis by (auto simp: cmp3_def)
    next
      case 3
      with assms have "s * 2 ^ 63 = t * 2 ^ 63" by (simp only: num_parts_def)
      then have "s = t" by simp
      with 3 show ?thesis by simp
    qed
  qed
  ultimately show ?thesis by (metis then_cmp_assoc)
qed

lemma num_repr_cmp:
  assumes "num_repr s u" "num_repr t v"
  shows "bytes_Compare (u @ x) (v @ y) = then_cmp (cmp3 s t) (bytes_Compare x y)"
proof -
  have neg: "bytes_Compare (complement (numBytes E M) @ x) (complement (numBytes F N) @ y) =
      then_cmp (- cmp3 a b) (bytes_Compare x y)" if "num_parts a E M" "num_parts b F N" for a b E F M N
    by (rule complement_Compare) (rule numBytes_cmp [OF that])
  have sgn: "cmp3 (- int a) (- int b) = - cmp3 a b" for a b
    by (simp add: cmp3_def)
  show ?thesis
    using assms inf_scaled_pos
    by (elim num_repr.cases) (auto simp: numBytes_cmp neg sgn cmp3_def dest: num_parts_bound)
qed

lemma appendNumParts_numBytes:
  assumes "0 \<le> e + 1074" "e + 1074 < 2098"
  shows "appendNumParts [] neg e mant =
    (if neg then numNeg # complement (numBytes (nat (e + 1074)) (unat mant))
     else numPos # numBytes (nat (e + 1074)) (unat mant))"
proof -
  have "unat (word_of_int (e + 1074) :: 16 word) = nat (e + 1074)"
    using assms by (simp add: unat_eq_nat_uint uint_word_of_int take_bit_int_eq_self del: of_int_add)
  then show ?thesis by (simp add: appendNumParts_def numBytes_def Let_def del: of_int_add)
qed

lemma appendNumParts_repr:
  assumes "num_parts s (nat (e + 1074)) (unat mant)" "0 \<le> e + 1074"
  shows "num_repr (if neg then - int s else int s) (appendNumParts [] neg e mant)"
proof -
  from assms have "nat (e + 1074) < 2098" by (simp only: num_parts_def)
  then have "e + 1074 < 2098" by linarith
  with assms show ?thesis by (simp add: appendNumParts_numBytes num_repr.neg num_repr.pos)
qed

lemma unat_push_bit_word:
  "unat m * 2 ^ k < 2 ^ 64 \<Longrightarrow> unat (push_bit k m) = unat m * 2 ^ k" for m :: "64 word"
proof -
  assume "unat m * 2 ^ k < 2 ^ 64"
  moreover have "unat (push_bit k m) = take_bit 64 (unat m * 2 ^ k)"
    using unsigned_push_bit_eq [of k m, where ?'a = nat] by (simp only: push_bit_eq_mult) simp
  ultimately show "unat (push_bit k m) = unat m * 2 ^ k"
    by (simp only: take_bit_nat_eq_self)
qed

lemma unat_magnitude: "unat (if sint x < 0 then - x else x) = nat \<bar>sint x\<bar>" for x :: int64
proof (cases "sint x < 0")
  case True
  have "- x = word_of_int (- sint x)" by simp
  moreover have "- sint x \<le> 2 ^ 63" using sint_ge [of x] by simp
  ultimately have "uint (- x) = - sint x"
    using True by (simp add: uint_word_of_int take_bit_int_eq_self del: of_int_minus)
  with True show ?thesis by (simp add: unat_eq_nat_uint)
next
  case False
  then have "\<not> bit x 63" using sint_low63 [of x] low63_bounds [of x] by (cases "bit x 63") simp_all
  then have "uint x = sint x" using uint_low63 [of x] sint_low63 [of x] by simp
  with False show ?thesis by (simp add: unat_eq_nat_uint)
qed

lemma intKey_repr: "num_repr (int_scaled x) (appendIntKey [] x)"
proof (cases "x = 0")
  case True
  then show ?thesis by (simp add: appendIntKey_def int_scaled_def num_repr.zero)
next
  case False
  let ?mag = "if sint x < 0 then - x else x"
  let ?n = "bit_len (unat ?mag)"
  let ?mant = "push_bit (64 - ?n) ?mag"
  define s where "s = unat ?mag * 2 ^ 1074"
  have mag: "unat ?mag = nat \<bar>sint x\<bar>" by (rule unat_magnitude)
  have "sint x \<noteq> 0" using False by (metis signed_0 signed_word_eqI)
  then have pos: "0 < unat ?mag" unfolding mag by simp
  have "unat ?mag < 2 ^ 64" using unsigned_less [of ?mag, where ?'a = nat] by simp
  then have n: "0 < ?n" "?n \<le> 64" using pos bit_len_le by auto
  have b: "2 ^ (?n - 1) \<le> unat ?mag" "unat ?mag < 2 ^ ?n" using bit_len_bounds [OF pos] by auto
  have e: "?n + (64 - ?n) = 64" "?n - 1 + (64 - ?n) = 63" using n by linarith+
  have up: "unat ?mag * 2 ^ (64 - ?n) < 2 ^ 64"
    using mult_less_mono1 [OF b(2), of "2 ^ (64 - ?n)"] e(1) by (metis power_add zero_less_numeral zero_less_power)
  have lo: "2 ^ 63 \<le> unat ?mag * 2 ^ (64 - ?n)"
    using mult_le_mono1 [OF b(1), of "2 ^ (64 - ?n)"] e(2) by (metis power_add)
  have mant: "unat ?mant = unat ?mag * 2 ^ (64 - ?n)" by (rule unat_push_bit_word [OF up])
  have exps: "1074 + 63 = 64 - ?n + (?n - 1 + 1074)" using n by linarith
  have "s * 2 ^ 63 = unat ?mag * 2 ^ (1074 + 63)" by (simp only: s_def power_add mult.assoc)
  also have "\<dots> = unat ?mant * 2 ^ (?n - 1 + 1074)" unfolding exps mant by (simp only: power_add mult.assoc)
  finally have "s * 2 ^ 63 = unat ?mant * 2 ^ (?n - 1 + 1074)" .
  then have parts: "num_parts s (?n - 1 + 1074) (unat ?mant)"
    using up lo n unfolding num_parts_def mant by linarith
  have E: "nat (int ?n - 1 + 1074) = ?n - 1 + 1074" using n by linarith
  have key: "appendIntKey [] x = appendNumParts [] (sint x < 0) (int ?n - 1) ?mant"
    using False by (simp add: appendIntKey_def Let_def)
  have "int s = \<bar>sint x\<bar> * 2 ^ 1074" by (simp add: s_def mag)
  then have sgn: "int_scaled x = (if sint x < 0 then - int s else int s)"
    unfolding int_scaled_def by (simp add: abs_if)
  show ?thesis
    unfolding key sgn
    by (rule appendNumParts_repr) (use parts in \<open>simp only: E\<close>, use n in linarith)
qed

lemma low_mag_inf: "float_IsInf d \<Longrightarrow> int (low_mag (float_low d)) = inf_scaled"
proof -
  assume "float_IsInf d"
  then have "float_low d = 2047 * 2 ^ 52"
    using div_mult_mod_eq [of "float_low d" "2 ^ 52"]
    by (simp add: float_IsInf_def float_exp_def float_frac_def)
  then have "low_mag (float_low d) = 2 ^ 52 * 2 ^ 2046" by (simp add: low_mag_def)
  also have "\<dots> = 2 ^ 2098" by (simp flip: power_add)
  finally show ?thesis by (simp only: inf_scaled_def) simp
qed

lemma doubleKey_repr:
  assumes nan: "\<not> float_IsNaN d"
  shows "num_repr (float_scaled d) (appendDoubleKey [] d)"
proof -
  consider "float_low d = 0" | "float_IsInf d" | "float_low d \<noteq> 0" "\<not> float_IsInf d" by blast
  then show ?thesis
  proof cases
    case 1
    then have "float_scaled d = 0" by (simp add: float_scaled_0_iff)
    with nan show ?thesis by (simp add: appendDoubleKey_def float_eq_def num_repr.zero)
  next
    case 2
    then have low: "int (low_mag (float_low d)) = inf_scaled" by (rule low_mag_inf)
    then have "float_scaled d = (if float_sign d then - inf_scaled else inf_scaled)"
      by (simp add: float_scaled_def)
    moreover from this inf_scaled_pos have "\<not> float_eq d 0" by (simp add: float_eq_def)
    ultimately show ?thesis
      using 2 by (simp add: appendDoubleKey_def num_repr.neg_inf num_repr.pos_inf)
  next
    case 3
    obtain m e where me: "Frexp53 d = (m, e)" by fastforce
    have "float_exp d < 2047"
      using nan 3(2) float_exp_le [of d] by (auto simp: float_IsNaN_def float_IsInf_def le_less)
    note F = Frexp53_correct [OF 3(1) this me]
    let ?M = "m * 2 ^ 11" and ?E = "nat (e + 1073)" and ?s = "low_mag (float_low d)"
    have um: "unat (word_of_nat m :: 64 word) = m"
      using F(2) by (simp add: unat_of_nat take_bit_nat_eq_self)
    have up: "?M < 2 ^ 64" and lo: "2 ^ 63 \<le> ?M" using F(1,2) by simp_all
    have mant: "unat (push_bit 11 (word_of_nat m :: 64 word)) = ?M"
      using unat_push_bit_word [of "word_of_nat m" 11] up um by simp
    have "?s * 2 ^ 63 = (?s * 2 ^ 52) * 2 ^ 11" by simp
    also have "\<dots> = ?M * 2 ^ ?E" by (simp only: F(5) ac_simps)
    finally have parts: "num_parts ?s ?E ?M"
      unfolding num_parts_def using up lo F(3,4) by linarith
    have sgn: "float_less d 0 \<longleftrightarrow> float_sign d"
      using nan 3(1) by (auto simp: float_less_def float_scaled_def)
    have "float_scaled d \<noteq> 0" using 3(1) by (simp add: float_scaled_0_iff)
    then have key: "appendDoubleKey [] d =
        appendNumParts [] (float_sign d) (e - 1) (push_bit 11 (word_of_nat m))"
      using 3 me sgn by (simp add: appendDoubleKey_def float_eq_def Let_def)
    have E: "e - 1 + 1074 = e + 1073" by simp
    show ?thesis
      unfolding key float_scaled_def
      by (rule appendNumParts_repr) (use parts mant in \<open>simp only: E\<close>, use F(3) in linarith)
  qed
qed

lemma numKey_repr: "TypeOrder v = orderNumber \<Longrightarrow> num_repr (num_scaled v) (numKey v)"
  by (elim number_cases) (simp_all add: numKey_def intKey_repr doubleKey_repr)

lemma numKey_cmp:
  "TypeOrder a = orderNumber \<Longrightarrow> TypeOrder b = orderNumber \<Longrightarrow>
   bytes_Compare (numKey a @ x) (numKey b @ y) = then_cmp (Compare a b) (bytes_Compare x y)"
  using num_repr_cmp [OF numKey_repr numKey_repr] by (simp add: Compare_number)

section \<open>Fixed-width payloads\<close>

lemma orderedDouble_cmp:
  assumes "\<not> float_IsNaN a" "\<not> float_IsNaN b"
  shows "bytes_Compare (appendOrderedDouble [] a @ x) (appendOrderedDouble [] b @ y) =
    then_cmp (cmpFloat a b) (bytes_Compare x y)"
proof -
  define bits where "bits c = (let n = normalizeZero c in
    if n AND push_bit 63 1 \<noteq> 0 then NOT n else n OR push_bit 63 1)" for c :: float64
  let ?n = normalizeZero
  have num: "int (unat (bits c)) =
      (if float_sign (?n c) then 2 ^ 63 - 1 - int (float_low (?n c)) else 2 ^ 63 + int (float_low (?n c)))" for c
    by (rule ordered_bits) (simp add: bits_def Let_def)
  have zero: "float_sign (?n c) \<Longrightarrow> \<not> float_IsNaN c \<Longrightarrow> 0 < float_low (?n c)" for c
    using float_scaled_0_iff [of c] by (auto simp: normalizeZero_def float_eq_def split: if_splits)
  have "cmp3 (unat (bits a)) (unat (bits b)) = cmp3 (float_scaled (?n a)) (float_scaled (?n b))"
    unfolding cmp3_of_nat [symmetric] num
    using zero [of a] zero [of b] assms low_mag_less_iff [of "float_low (?n a)" "float_low (?n b)"]
      low_mag_less_iff [of "float_low (?n b)" "float_low (?n a)"]
      low_mag_pos [of "float_low (?n a)"] low_mag_pos [of "float_low (?n b)"]
    by (simp add: cmp3_def float_scaled_def [of "?n a"] float_scaled_def [of "?n b"]
        del: low_mag_pos float_scaled_normalizeZero) linarith?
  moreover have "unat (bits c) < 256 ^ 8" for c
    using unsigned_less [of "bits c", where ?'a = nat] by simp
  ultimately show ?thesis
    using be_bytes_cmp [of "unat (bits a)" 8 "unat (bits b)"] assms
    by (simp add: appendOrderedDouble_def bits_def Let_def cmpFloat_scaled)
qed

lemma unat_nonneg_int32: "0 \<le> sint n \<Longrightarrow> unat n = nat (sint n)" for n :: int32
proof -
  assume n: "0 \<le> sint n"
  have "sint n < 2 ^ 32" using sint_lt [of n] by simp
  with n have "take_bit 32 (sint n) = sint n" by (simp add: take_bit_int_eq_self)
  moreover have "uint n = take_bit 32 (sint n)" using uint_sint [of n] by simp
  ultimately show ?thesis by (simp add: unat_eq_nat_uint)
qed

lemma timestamp_cmp:
  fixes s s' :: int64 and n n' :: int32
  assumes "0 \<le> sint n" "0 \<le> sint n'"
  shows "bytes_Compare (be_bytes 8 (unat (s XOR push_bit 63 1)) @ be_bytes 4 (unat n) @ x)
      (be_bytes 8 (unat (s' XOR push_bit 63 1)) @ be_bytes 4 (unat n') @ y) =
    then_cmp (then_cmp (cmp3 (sint s) (sint s')) (cmp3 (sint n) (sint n'))) (bytes_Compare x y)"
proof -
  have b: "unat u < 256 ^ 8" "unat w < 256 ^ 4" for u :: "64 word" and w :: "32 word"
    using unsigned_less [of u, where ?'a = nat] unsigned_less [of w, where ?'a = nat] by simp_all
  have "cmp3 (nat (sint s + 2 ^ 63)) (nat (sint s' + 2 ^ 63)) = cmp3 (sint s) (sint s')"
    using sint_ge [of s] sint_ge [of s'] by (auto simp: cmp3_def)
  moreover have "cmp3 (unat n) (unat n') = cmp3 (sint n) (sint n')"
    using assms by (auto simp: cmp3_def unat_nonneg_int32)
  ultimately show ?thesis
    unfolding be_bytes_cmp [OF b(1) b(1)] be_bytes_cmp [OF b(2) b(2)]
    by (simp only: unat_xor_63 then_cmp_assoc)
qed

section \<open>Tags\<close>

text \<open>The tag of an ordering bucket: the first byte of every key of that bucket.\<close>

definition order_tag :: "int \<Rightarrow> byte" where
  "order_tag t =
     [tagNull, tagBool, tagNaN, tagNumber, tagTimestamp, tagString, tagBytes, tagReference,
      tagGeoPoint, tagArray, tagVector, tagMap, 0xFE] ! nat t"

lemma TypeOrder_range: "TypeOrder v \<in> {0..12}"
  by (cases v) auto

lemma order_tag_mono:
  assumes "s \<in> {0..12}" "t \<in> {0..12}" "s < t"
  shows "order_tag s < order_tag t"
proof -
  let ?tags = "[tagNull, tagBool, tagNaN, tagNumber, tagTimestamp, tagString, tagBytes, tagReference,
      tagGeoPoint, tagArray, tagVector, tagMap, 0xFE]"
  have "sorted_wrt (<) ?tags" by simp
  then show ?thesis
    unfolding order_tag_def by (rule sorted_wrt_nth_less) (use assms in auto)
qed

lemma order_tag_cmp: "cmp3 (order_tag (TypeOrder a)) (order_tag (TypeOrder b)) = cmp3 (TypeOrder a) (TypeOrder b)"
  using order_tag_mono [OF TypeOrder_range [of a] TypeOrder_range [of b]]
    order_tag_mono [OF TypeOrder_range [of b] TypeOrder_range [of a]]
  by (cases "TypeOrder a" "TypeOrder b" rule: linorder_cases) (auto simp: cmp3_def)

lemma order_tag_eq_iff [simp]: "order_tag (TypeOrder a) = order_tag (TypeOrder b) \<longleftrightarrow> TypeOrder a = TypeOrder b"
  using order_tag_cmp [of a b] cmp3_simps(2) by metis

lemma order_tag_bounds: "order_tag (TypeOrder v) \<noteq> 0xFF" "order_tag (TypeOrder v) \<noteq> 0"
  by (cases v; simp add: order_tag_def)+

lemma sortKey_tag: "sortKey v = order_tag (TypeOrder v) # tl (sortKey v)"
  by (cases v) (simp_all add: sortKey_simps order_tag_def)

lemma sortKey_not_Nil [simp]: "sortKey v \<noteq> []"
  using sortKey_tag [of v] by (metis list.distinct(1))

section \<open>The order of sort keys\<close>

lemma itemKeys_simps [simp]:
  "itemKeys [] = []" "itemKeys (v # vs) = itemMarker # sortKey v @ itemKeys vs"
  by (simp_all add: itemKeys_def)

lemma entryKeys_simps [simp]:
  "entryKeys [] = []"
  "entryKeys ((k, v) # m) = itemMarker # escaped (bytes_of k) @ sortKey v @ entryKeys m"
  by (simp_all add: entryKeys_def)

definition keys_agree :: "Value \<Rightarrow> Value \<Rightarrow> bool" where
  "keys_agree a b \<longleftrightarrow> (valid_value a \<longrightarrow> valid_value b \<longrightarrow>
     (\<forall>x y. bytes_Compare (sortKey a @ x) (sortKey b @ y) = then_cmp (Compare a b) (bytes_Compare x y)))"

definition items_agree :: "Value list \<Rightarrow> Value list \<Rightarrow> bool" where
  "items_agree as bs \<longleftrightarrow> ((\<forall>v \<in> set as. valid_value v) \<longrightarrow> (\<forall>v \<in> set bs. valid_value v) \<longrightarrow>
     (\<forall>x y. bytes_Compare (itemKeys as @ endMarker # x) (itemKeys bs @ endMarker # y) =
       then_cmp (compareArrays as bs) (bytes_Compare x y)))"

definition entries_agree :: "Fields \<Rightarrow> Fields \<Rightarrow> bool" where
  "entries_agree m m' \<longleftrightarrow> ((\<forall>p \<in> set m. valid_value (snd p)) \<longrightarrow> (\<forall>p \<in> set m'. valid_value (snd p)) \<longrightarrow>
     (\<forall>x y. bytes_Compare (entryKeys m @ endMarker # x) (entryKeys m' @ endMarker # y) =
       then_cmp (compareFields m m') (bytes_Compare x y)))"

lemma items_agree_step:
  assumes "\<And>a as' b bs'. as = a # as' \<Longrightarrow> bs = b # bs' \<Longrightarrow> keys_agree a b \<and> items_agree as' bs'"
  shows "items_agree as bs"
proof (cases as; cases bs)
  fix a as' b bs' assume "as = a # as'" "bs = b # bs'"
  with assms [OF this] show ?thesis
    by (simp add: items_agree_def keys_agree_def then_cmp_assoc)
qed (simp_all add: items_agree_def cmp3_def)

lemma entries_agree_step:
  assumes "\<And>k a as' l b bs'. as = (k, a) # as' \<Longrightarrow> bs = (l, b) # bs' \<Longrightarrow>
    keys_agree a b \<and> entries_agree as' bs'"
  shows "entries_agree as bs"
proof (cases as; cases bs)
  fix p as' q bs' assume ab: "as = p # as'" "bs = q # bs'"
  obtain k a l b where "p = (k, a)" "q = (l, b)" by fastforce
  with ab assms [of k a as' l b bs'] show ?thesis
    by (simp add: entries_agree_def keys_agree_def then_cmp_assoc escaped_cmp)
qed (auto simp: entries_agree_def cmp3_def)

lemma keys_agree_tags: "TypeOrder a \<noteq> TypeOrder b \<Longrightarrow> keys_agree a b"
proof -
  assume t: "TypeOrder a \<noteq> TypeOrder b"
  obtain u v where uv: "sortKey a = order_tag (TypeOrder a) # u" "sortKey b = order_tag (TypeOrder b) # v"
    using sortKey_tag by metis
  have "bytes_Compare (sortKey a @ x) (sortKey b @ y) = cmp3 (order_tag (TypeOrder a)) (order_tag (TypeOrder b))" for x y
    using uv t order_tag_eq_iff [of a b] by (auto simp: cmp3_def)
  with t show ?thesis
    by (simp add: keys_agree_def order_tag_cmp Compare_types then_cmp_def)
qed

lemma sortKey_number: "TypeOrder v = orderNumber \<Longrightarrow> sortKey v = tagNumber # numKey v"
  by (elim number_cases) (simp_all add: sortKey_simps)

lemma sortKey_NaN: "TypeOrder v = orderNaN \<Longrightarrow> sortKey v = [tagNaN]"
  by (cases v) (simp_all add: sortKey_simps split: if_splits)

lemma unat_of_nat_32: "n < 256 ^ 4 \<Longrightarrow> unat (word_of_nat n :: 32 word) = n"
  by (simp add: unat_of_nat take_bit_nat_eq_self)

lemma keys_agree_scalar:
  "keys_agree NullValue NullValue" "keys_agree UnknownValue UnknownValue"
  "keys_agree (BooleanValue p) (BooleanValue q)"
  "keys_agree (TimestampValue s n) (TimestampValue s' n')"
  "keys_agree (StringValue u) (StringValue w)"
  "keys_agree (BytesValue c) (BytesValue d)"
  "keys_agree (ReferenceValue u) (ReferenceValue w)"
  "keys_agree (GeoPointValue lat lng) (GeoPointValue lat' lng')"
proof -
  show "keys_agree (BooleanValue p) (BooleanValue q)"
    by (cases p; cases q) (simp_all add: keys_agree_def sortKey_simps cmp3_def)
  show "keys_agree (TimestampValue s n) (TimestampValue s' n')"
    by (simp add: keys_agree_def sortKey_simps timestamp_cmp del: push_bit_of_1)
  show "keys_agree (GeoPointValue lat lng) (GeoPointValue lat' lng')"
    by (simp add: keys_agree_def sortKey_simps orderedDouble_cmp then_cmp_assoc)
qed (simp_all add: keys_agree_def sortKey_simps escaped_cmp nameKey_cmp)

lemma keys_agree_vector:
  assumes vec: "isVector m" "isVector m'" and items: "items_agree (vectorValues m) (vectorValues m')"
  shows "keys_agree (MapValue m) (MapValue m')"
  unfolding keys_agree_def
proof (intro impI allI)
  fix x y assume v: "valid_value (MapValue m)" "valid_value (MapValue m')"
  have dim: "length (vectorValues m) < 256 ^ 4" "length (vectorValues m') < 256 ^ 4"
    using v [THEN length_vectorValues] by simp_all
  then have "bytes_Compare (sortKey (MapValue m) @ x) (sortKey (MapValue m') @ y) =
      then_cmp (cmp3 (length (vectorValues m)) (length (vectorValues m')))
        (bytes_Compare (itemKeys (vectorValues m) @ endMarker # x)
          (itemKeys (vectorValues m') @ endMarker # y))"
    using vec by (simp add: sortKey_simps unat_of_nat_32 be_bytes_cmp)
  also have "\<dots> = then_cmp (Compare (MapValue m) (MapValue m')) (bytes_Compare x y)"
    using items valid_vectorValues [OF v(1)] valid_vectorValues [OF v(2)] vec
    by (simp add: items_agree_def Compare_map then_cmp_assoc)
  finally show "bytes_Compare (sortKey (MapValue m) @ x) (sortKey (MapValue m') @ y) =
    then_cmp (Compare (MapValue m) (MapValue m')) (bytes_Compare x y)" .
qed

lemma keys_agree_step:
  assumes items: "\<And>as bs. a = ArrayValue as \<Longrightarrow> b = ArrayValue bs \<Longrightarrow> items_agree as bs"
    and vectors: "\<And>m m'. a = MapValue m \<Longrightarrow> b = MapValue m' \<Longrightarrow> isVector m \<Longrightarrow> isVector m' \<Longrightarrow>
      items_agree (vectorValues m) (vectorValues m')"
    and entries: "\<And>m m'. a = MapValue m \<Longrightarrow> b = MapValue m' \<Longrightarrow> \<not> isVector m \<Longrightarrow> \<not> isVector m' \<Longrightarrow>
      entries_agree (sortedFields m) (sortedFields m')"
  shows "keys_agree a b"
proof (cases "TypeOrder a = TypeOrder b")
  case False
  then show ?thesis by (rule keys_agree_tags)
next
  case True
  consider "TypeOrder a = orderNumber" | "TypeOrder a = orderNaN" |
    "TypeOrder a \<noteq> orderNumber" "TypeOrder a \<noteq> orderNaN" by blast
  then show ?thesis
  proof cases
    case 1
    with True numKey_cmp [of a b] show ?thesis by (simp add: keys_agree_def sortKey_number)
  next
    case 2
    with True show ?thesis by (simp add: keys_agree_def sortKey_NaN Compare_NaN)
  next
    case 3
    show ?thesis
    proof (cases a)
      case (MapValue m)
      with True obtain m' where b: "b = MapValue m'" "isVector m' \<longleftrightarrow> isVector m"
        by (cases b) (auto split: if_splits)
      show ?thesis
      proof (cases "isVector m")
        case True
        with b vectors [OF MapValue b(1)] show ?thesis by (simp add: MapValue keys_agree_vector)
      next
        case False
        with b entries [OF MapValue b(1)] show ?thesis
          by (simp add: keys_agree_def entries_agree_def MapValue sortKey_simps Compare_map sortedFields_def)
      qed
    next
      case (ArrayValue as)
      with True obtain bs where b: "b = ArrayValue bs" by (cases b) (auto split: if_splits)
      from items [OF ArrayValue b] show ?thesis
        by (simp add: keys_agree_def items_agree_def ArrayValue b sortKey_simps)
    qed (use True 3 in \<open>(cases b; simp add: keys_agree_scalar split: if_splits)+\<close>)
  qed
qed

lemma keys_agree_all: "keys_agree a b" "items_agree as bs" "entries_agree m m'"
proof -
  note induct = Compare_compareArrays_compareFields.induct
    [where P = keys_agree and Q = items_agree and R = entries_agree]
  show "keys_agree a b"
    by (rule induct(1)) (rule keys_agree_step items_agree_step entries_agree_step; simp)+
  show "items_agree as bs"
    by (rule induct(2)) (rule keys_agree_step items_agree_step entries_agree_step; simp)+
  show "entries_agree m m'"
    by (rule induct(3)) (rule keys_agree_step items_agree_step entries_agree_step; simp)+
qed

interpretation value_key: key_encoding sortKey Compare valid_value
  by unfold_locales (use keys_agree_all(1) in \<open>simp add: keys_agree_def\<close>)

section \<open>Properties of the encoder\<close>

text \<open>
  C7: appending sort keys to a common prefix and comparing the results byte by byte, whatever
  follows the two keys, compares the values: the value order decides, and only values that
  compare equal let the following bytes decide.
\<close>

theorem sort_key_order:
  assumes "valid_value a" "valid_value b"
  shows "bytes_Compare (AppendSortKey p a @ x) (AppendSortKey p b @ y) =
    then_cmp (Compare a b) (bytes_Compare x y)"
  using value_key.enc_cmp [OF assms] by simp

theorem sort_key_order_witness:
  "bytes_Compare (AppendSortKey [] (ArrayValue [IntegerValue 3]) @ [0])
     (AppendSortKey [] (ArrayValue [StringValue ''a'']) @ []) = - 1"
  using sort_key_order [of "ArrayValue [IntegerValue 3]" "ArrayValue [StringValue ''a'']" "[]" "[0]" "[]"]
  by (simp add: Compare_types cmp3_def)

text \<open>
  The descending key of a value orders exactly the other way round, and it too can be
  followed by anything.
\<close>

theorem sort_key_desc_order:
  assumes "valid_value a" "valid_value b"
  shows "bytes_Compare (AppendSortKeyDesc p a @ x) (AppendSortKeyDesc p b @ y) =
    then_cmp (Compare b a) (bytes_Compare x y)"
  using value_key.enc_desc_cmp [OF assms] value_key.cmp_swap [OF assms] by simp

theorem sort_key_desc_order_witness:
  "bytes_Compare (AppendSortKeyDesc [7] (StringValue ''a'')) (AppendSortKeyDesc [7] (StringValue ''b'')) = 1"
  using sort_key_desc_order [of "StringValue ''a''" "StringValue ''b''" "[7]" "[]" "[]"]
  by (simp add: cmp3_def less_char_def)

text \<open>
  Keys are self-delimiting: one is a prefix of another exactly when they are the same, which is
  exactly when the values compare equal (so an integer and the double of the same value share a key).
\<close>

theorem sort_key_prefix_free:
  assumes "valid_value a" "valid_value b"
  shows "prefix (AppendSortKey [] a) (AppendSortKey [] b) \<longleftrightarrow> Equal a b"
    and "AppendSortKey [] a = AppendSortKey [] b \<longleftrightarrow> Equal a b"
proof -
  show eq: "AppendSortKey [] a = AppendSortKey [] b \<longleftrightarrow> Equal a b"
    using value_key.enc_eq_iff [OF assms] by (simp add: Equal_def)
  show "prefix (AppendSortKey [] a) (AppendSortKey [] b) \<longleftrightarrow> Equal a b"
    using value_key.enc_prefix_free [OF assms] eq by (auto simp: Equal_def)
qed

text \<open>
  \<open>Compare\<close> is a total preorder on valid values: swapping the arguments negates the result, and
  "at most" is transitive, across all types and through nested arrays, vectors and maps.
\<close>

theorem Compare_total_preorder:
  assumes "valid_value a" "valid_value b" "valid_value c"
  shows "Compare b a = - Compare a b \<and>
    (Compare a b \<le> 0 \<and> Compare b c \<le> 0 \<longrightarrow> Compare a c \<le> 0)"
  using value_key.cmp_swap [OF assms(1,2)] value_key.cmp_le_trans [OF assms] by simp

theorem Compare_total_preorder_witness:
  "Compare (StringValue ''a'') NullValue = - Compare NullValue (StringValue ''a'') \<and>
   Compare NullValue (ArrayValue []) \<le> 0"
  using Compare_total_preorder [of NullValue "StringValue ''a''" "ArrayValue []"]
  by (simp add: Compare_types)

text \<open>
  The key of a document name orders names segment by segment, as \<open>CompareResourceNames\<close>
  does, ascending and descending; distinct names have distinct keys.
\<close>

theorem name_key_order:
  fixes a b :: string
  shows "bytes_Compare (AppendNameKey p a @ x) (AppendNameKey p b @ y) =
     then_cmp (CompareResourceNames a b) (bytes_Compare x y) \<and>
   bytes_Compare (AppendNameKeyDesc p a @ x) (AppendNameKeyDesc p b @ y) =
     then_cmp (CompareResourceNames b a) (bytes_Compare x y) \<and>
   (AppendNameKey p a = AppendNameKey p b \<longleftrightarrow> a = b)"
  using name_key.enc_cmp [where a = a and b = b] name_key.enc_desc_cmp [where a = a and b = b]
    name_key.cmp_swap [where a = a and b = b] name_key.enc_eq_iff [where a = a and b = b] by simp

text \<open>
  The type bucket of an operand is the one byte that starts the keys of its type and of no
  other type, in both directions: a scan clamped to it sees exactly the values a Firestore
  range comparison may match.
\<close>

theorem TypeBucket_selects_type:
  "prefix (TypeBucket p v desc) (if desc then AppendSortKeyDesc p w else AppendSortKey p w) \<longleftrightarrow>
     TypeOrder w = TypeOrder v"
proof -
  obtain t u where tu: "sortKey v = order_tag (TypeOrder v) # t" "sortKey w = order_tag (TypeOrder w) # u"
    using sortKey_tag by metis
  have "order_tag (TypeOrder v) XOR 0xFF = order_tag (TypeOrder w) XOR 0xFF \<longleftrightarrow>
      order_tag (TypeOrder v) = order_tag (TypeOrder w)"
    by (metis xor_FF_less_iff less_irrefl linorder_neqE)
  then show ?thesis by (auto simp: TypeBucket_def tu)
qed

end
