(* ===== verification/FieldPath.thy ===== *)
theory FieldPath
  imports Value "HOL-Library.AList"
begin

text \<open>
  Package \<^verbatim>\<open>value\<close>, file \<^verbatim>\<open>fieldpath.go\<close>: parsing and printing of field paths, and reading,
  writing and deleting the field at a path. The parser's loop over an index is a recursion over
  the bytes not yet read; every error return is an error value. A Go map is an association
  list, updated by key; maps are values here (each caller of \<^verbatim>\<open>SetField\<close> works on a map
  it owns).
\<close>

section \<open>Parsing and printing\<close>

datatype path_error =
    EmptyPath | EndsWithSeparator | DanglingEscape | UnterminatedQuote | UnexpectedBacktick
  | EmptySegment | ExpectedDot

type_synonym FieldPath = "string list"

abbreviation (input) "backtick \<equiv> CHR 0x60"
abbreviation (input) "backslash \<equiv> CHR 0x5C"

fun parseQuoted :: "string \<Rightarrow> string \<Rightarrow> path_error + (string \<times> string)" where
  "parseQuoted seg [] = Inl UnterminatedQuote"
| "parseQuoted seg (c # s) =
     (if c = backslash then
        (case s of [] \<Rightarrow> Inl DanglingEscape | d # s' \<Rightarrow> parseQuoted (seg @ [d]) s')
      else if c = backtick then Inr (seg, s)
      else parseQuoted (seg @ [c]) s)"

fun parsePlain :: "string \<Rightarrow> string \<Rightarrow> path_error + (string \<times> string)" where
  "parsePlain seg [] = Inr (seg, [])"
| "parsePlain seg (c # s) =
     (if c = CHR ''.'' then Inr (seg, c # s)
      else if c = backtick then Inl UnexpectedBacktick
      else parsePlain (seg @ [c]) s)"

definition parseSegment :: "string \<Rightarrow> path_error + (string \<times> string)" where
  "parseSegment s =
     (case s of
        [] \<Rightarrow> Inl EndsWithSeparator
      | c # s' \<Rightarrow>
          if c = backtick then parseQuoted [] s'
          else
            (case parsePlain [] s of
               Inl e \<Rightarrow> Inl e
             | Inr (seg, rest) \<Rightarrow> if seg = [] then Inl EmptySegment else Inr (seg, rest)))"

lemma parseQuoted_length: "parseQuoted seg s = Inr (seg', rest) \<Longrightarrow> length rest \<le> length s"
  by (induction seg s rule: parseQuoted.induct) (auto split: if_splits list.splits)

lemma parsePlain_length: "parsePlain seg s = Inr (seg', rest) \<Longrightarrow> length rest \<le> length s"
  by (induction seg s rule: parsePlain.induct) (auto split: if_splits)

lemma parseSegment_length: "parseSegment s = Inr (seg, rest) \<Longrightarrow> length rest \<le> length s"
  by (auto simp: parseSegment_def split: list.splits if_splits sum.splits prod.splits
      dest: parseQuoted_length parsePlain_length)

function parseSegments :: "FieldPath \<Rightarrow> string \<Rightarrow> path_error + FieldPath" where
  "parseSegments path s =
     (case parseSegment s of
        Inl e \<Rightarrow> Inl e
      | Inr (seg, rest) \<Rightarrow>
          (case rest of
             [] \<Rightarrow> Inr (path @ [seg])
           | d # rest' \<Rightarrow>
               if d \<noteq> CHR ''.'' then Inl ExpectedDot else parseSegments (path @ [seg]) rest'))"
  by pat_completeness auto
termination
  by (relation "measure (\<lambda>(path, s). length s)") (auto dest!: parseSegment_length)

declare parseSegments.simps [simp del]

definition ParseFieldPath :: "string \<Rightarrow> path_error + FieldPath" where
  "ParseFieldPath s = (if s = [] then Inl EmptyPath else parseSegments [] s)"

fun simpleTail :: "string \<Rightarrow> bool" where
  "simpleTail [] \<longleftrightarrow> True"
| "simpleTail (c # s) \<longleftrightarrow>
     (c \<ge> CHR ''a'' \<and> c \<le> CHR ''z'' \<or> c \<ge> CHR ''A'' \<and> c \<le> CHR ''Z'' \<or> c = CHR ''_'' \<or>
      CHR ''0'' \<le> c \<and> c \<le> CHR ''9'') \<and> simpleTail s"

definition isSimpleSegment :: "string \<Rightarrow> bool" where
  "isSimpleSegment s =
     (case s of
        [] \<Rightarrow> False
      | c # s' \<Rightarrow> \<not> (CHR ''0'' \<le> c \<and> c \<le> CHR ''9'') \<and> simpleTail s)"

fun quoteSegment :: "string \<Rightarrow> string" where
  "quoteSegment [] = []"
| "quoteSegment (c # s) =
     (if c = backtick \<or> c = backslash then [backslash, c] else [c]) @ quoteSegment s"

definition printSegment :: "string \<Rightarrow> string" where
  "printSegment seg =
     (if isSimpleSegment seg then seg else [backtick] @ quoteSegment seg @ [backtick])"

definition FieldPath_String :: "FieldPath \<Rightarrow> string" where
  "FieldPath_String p = joinWith CHR ''.'' (map printSegment p)"

section \<open>Parsing inverts printing\<close>

lemma parseQuoted_quoteSegment:
  "parseQuoted seg (quoteSegment s @ backtick # rest) = Inr (seg @ s, rest)"
  by (induction s arbitrary: seg) auto

lemma simpleTail_plain: "simpleTail s \<Longrightarrow> CHR ''.'' \<notin> set s \<and> backtick \<notin> set s"
  by (induction s) (auto simp: less_eq_char_def)

lemma parsePlain_append:
  "CHR ''.'' \<notin> set s \<Longrightarrow> backtick \<notin> set s \<Longrightarrow> rest = [] \<or> hd rest = CHR ''.'' \<Longrightarrow>
   parsePlain seg (s @ rest) = Inr (seg @ s, rest)"
  by (induction s arbitrary: seg) (cases rest; auto)+

lemma parseSegment_printSegment:
  assumes "rest = [] \<or> hd rest = CHR ''.''"
  shows "parseSegment (printSegment seg @ rest) = Inr (seg, rest)"
proof (cases "isSimpleSegment seg")
  case True
  then obtain c s where seg: "seg = c # s" "simpleTail seg"
    by (auto simp: isSimpleSegment_def split: list.splits)
  then have "CHR ''.'' \<notin> set seg" "backtick \<notin> set seg" using simpleTail_plain by blast+
  with seg assms True show ?thesis
    using parsePlain_append [of seg rest "[]"] by (auto simp: parseSegment_def printSegment_def)
next
  case False
  then show ?thesis
    using parseQuoted_quoteSegment [of "[]" seg rest] by (simp add: parseSegment_def printSegment_def)
qed

lemma parseSegments_print:
  "p \<noteq> [] \<Longrightarrow> parseSegments path (joinWith CHR ''.'' (map printSegment p)) = Inr (path @ p)"
proof (induction p arbitrary: path)
  case (Cons seg p)
  show ?case
  proof (cases p)
    case Nil
    then show ?thesis
      using parseSegment_printSegment [of "[]" seg] by (simp add: parseSegments.simps)
  next
    case (Cons seg' p')
    then show ?thesis
      using parseSegment_printSegment [of "CHR ''.'' # joinWith CHR ''.'' (map printSegment p)" seg]
        Cons.IH [of "path @ [seg]"]
      by (simp add: parseSegments.simps [of path])
  qed
qed simp

lemma printSegment_not_Nil [simp]: "printSegment seg \<noteq> []"
  by (auto simp: printSegment_def isSimpleSegment_def)

lemma FieldPath_String_not_Nil: "p \<noteq> [] \<Longrightarrow> FieldPath_String p \<noteq> []"
  by (cases p; cases "tl p") (auto simp: FieldPath_String_def)

lemma parseSegments_not_Nil: "parseSegments path s = Inr p \<Longrightarrow> p \<noteq> []"
proof (induction path s rule: parseSegments.induct)
  case (1 path s)
  then show ?case
    by (subst (asm) (2) parseSegments.simps) (auto split: sum.splits prod.splits list.splits if_splits)
qed

section \<open>Reading and writing fields\<close>

fun GetField :: "Fields \<Rightarrow> FieldPath \<Rightarrow> Value option" where
  "GetField fields [] = None"
| "GetField fields [seg] = map_of fields seg"
| "GetField fields (seg # rest) =
     (case map_of fields seg of
        Some (MapValue m) \<Rightarrow> GetField m rest
      | _ \<Rightarrow> None)"

fun SetField :: "Fields \<Rightarrow> FieldPath \<Rightarrow> Value \<Rightarrow> Fields" where
  "SetField fields [] v = fields"
| "SetField fields [seg] v = AList.update seg v fields"
| "SetField fields (seg # rest) v =
     (case map_of fields seg of
        Some (MapValue m) \<Rightarrow> AList.update seg (MapValue (SetField m rest v)) fields
      | _ \<Rightarrow> AList.update seg (MapValue (SetField [] rest v)) fields)"

fun DeleteField :: "Fields \<Rightarrow> FieldPath \<Rightarrow> Fields" where
  "DeleteField fields [] = fields"
| "DeleteField fields [seg] = AList.delete seg fields"
| "DeleteField fields (seg # rest) =
     (case map_of fields seg of
        Some (MapValue m) \<Rightarrow> AList.update seg (MapValue (DeleteField m rest)) fields
      | _ \<Rightarrow> fields)"

section \<open>Interface: fields addressed by paths\<close>

text \<open>
  What the rest of the program relies on when it reads and writes a document by path: a write
  is seen at its path and at no path that is neither above nor below it, and likewise a
  deletion. Update masks, projections and transforms are proved against these laws only.
\<close>

fun apply_edit :: "('f \<Rightarrow> FieldPath \<Rightarrow> 'v \<Rightarrow> 'f) \<Rightarrow> ('f \<Rightarrow> FieldPath \<Rightarrow> 'f) \<Rightarrow> 'f \<Rightarrow> FieldPath \<times> 'v option \<Rightarrow> 'f" where
  "apply_edit set_at del_at f (p, Some v) = set_at f p v"
| "apply_edit set_at del_at f (p, None) = del_at f p"

locale path_fields =
  fixes get_at :: "'f \<Rightarrow> FieldPath \<Rightarrow> 'v option"
    and set_at :: "'f \<Rightarrow> FieldPath \<Rightarrow> 'v \<Rightarrow> 'f"
    and del_at :: "'f \<Rightarrow> FieldPath \<Rightarrow> 'f"
    and ok :: "'f \<Rightarrow> bool" and okv :: "'v \<Rightarrow> bool"
  assumes get_set_same: "p \<noteq> [] \<Longrightarrow> get_at (set_at f p v) p = Some v"
    and get_set_other: "p \<parallel> q \<Longrightarrow> get_at (set_at f p v) q = get_at f q"
    and get_del_same: "p \<noteq> [] \<Longrightarrow> get_at (del_at f p) p = None"
    and get_del_other: "p \<parallel> q \<Longrightarrow> get_at (del_at f p) q = get_at f q"
    and ok_set: "ok f \<Longrightarrow> okv v \<Longrightarrow> ok (set_at f p v)"
    and ok_del: "ok f \<Longrightarrow> ok (del_at f p)"
    and ok_get: "ok f \<Longrightarrow> get_at f p = Some v \<Longrightarrow> okv v"
begin

lemma get_edit_same: "p \<noteq> [] \<Longrightarrow> get_at (apply_edit set_at del_at f (p, e)) p = e"
  by (cases e) (simp_all add: get_set_same get_del_same)

lemma get_edit_other: "p \<parallel> q \<Longrightarrow> get_at (apply_edit set_at del_at f (p, e)) q = get_at f q"
  by (cases e) (simp_all add: get_set_other get_del_other)

lemma ok_edit: "ok f \<Longrightarrow> (\<And>v. e = Some v \<Longrightarrow> okv v) \<Longrightarrow> ok (apply_edit set_at del_at f (p, e))"
  by (cases e) (simp_all add: ok_set ok_del)

lemma get_edits_other:
  "\<forall>(p, e) \<in> set es. p \<parallel> q \<Longrightarrow> get_at (fold (\<lambda>x f. apply_edit set_at del_at f x) es f) q = get_at f q"
  by (induction es arbitrary: f) (auto simp: get_edit_other)

text \<open>A list of edits at pairwise unrelated paths takes effect at each of them.\<close>

lemma get_edits:
  assumes "(p, e) \<in> set es" "p \<noteq> []" "sorted_wrt (\<lambda>x y. fst x \<parallel> fst y) es"
  shows "get_at (fold (\<lambda>x f. apply_edit set_at del_at f x) es f) p = e"
  using assms
proof (induction es arbitrary: f)
  case (Cons x es)
  show ?case
  proof (cases "x = (p, e)")
    case True
    with Cons.prems(3) have "\<forall>(q, e') \<in> set es. q \<parallel> p" by (auto simp: parallel_commute)
    then show ?thesis using True get_edits_other [of es p] by (simp add: get_edit_same [OF assms(2)])
  next
    case False
    with Cons show ?thesis by auto
  qed
qed simp

lemma ok_edits:
  "ok f \<Longrightarrow> \<forall>(p, e) \<in> set es. \<forall>v. e = Some v \<longrightarrow> okv v \<Longrightarrow>
   ok (fold (\<lambda>x f. apply_edit set_at del_at f x) es f)"
  by (induction es arbitrary: f) (auto intro!: ok_edit)

end

lemma parallel_Cons_iff: "(a # p) \<parallel> (b # q) \<longleftrightarrow> a \<noteq> b \<or> p \<parallel> q"
  by (auto simp: parallel_def)

lemma not_parallel_Nil [simp]: "\<not> [] \<parallel> q" "\<not> p \<parallel> []"
  by (simp_all add: parallel_def)

text \<open>The map one level down, empty when there is none.\<close>

definition sub_fields :: "Fields \<Rightarrow> string \<Rightarrow> Fields" where
  "sub_fields f seg = (case map_of f seg of Some (MapValue m) \<Rightarrow> m | _ \<Rightarrow> [])"

lemma GetField_Nil_fields [simp]: "GetField [] p = None"
  by (cases p; cases "tl p") auto

lemma DeleteField_Nil_fields [simp]: "DeleteField [] p = []"
  by (cases p; cases "tl p") auto

lemma GetField_Cons: "rest \<noteq> [] \<Longrightarrow> GetField f (seg # rest) = GetField (sub_fields f seg) rest"
  by (cases rest) (auto simp: sub_fields_def split: option.split Value.split)

lemma SetField_Cons:
  "rest \<noteq> [] \<Longrightarrow> SetField f (seg # rest) v = AList.update seg (MapValue (SetField (sub_fields f seg) rest v)) f"
  by (cases rest) (auto simp: sub_fields_def split: option.split Value.split)

lemma sub_fields_update [simp]:
  "sub_fields (AList.update seg (MapValue m) f) seg' = (if seg' = seg then m else sub_fields f seg')"
  by (simp add: sub_fields_def update_conv')

lemma sub_fields_delete:
  "sub_fields (AList.delete seg f) seg' = (if seg' = seg then [] else sub_fields f seg')"
  by (simp add: sub_fields_def delete_conv')

lemma sub_fields_update_other: "seg' \<noteq> seg \<Longrightarrow> sub_fields (AList.update seg v f) seg' = sub_fields f seg'"
  by (simp add: sub_fields_def update_conv')

lemma sub_fields_DeleteField:
  "rest \<noteq> [] \<Longrightarrow> sub_fields (DeleteField f (seg # rest)) seg' =
     (if seg' = seg then DeleteField (sub_fields f seg) rest else sub_fields f seg')"
  by (cases rest) (auto simp: sub_fields_def update_conv' split: option.split Value.split)

lemma map_of_DeleteField_other:
  "seg' \<noteq> seg \<Longrightarrow> map_of (DeleteField f (seg # rest)) seg' = map_of f seg'"
  by (cases rest) (auto simp: update_conv' delete_conv' split: option.split Value.split)

lemma GetField_SetField_same: "p \<noteq> [] \<Longrightarrow> GetField (SetField f p v) p = Some v"
proof (induction p arbitrary: f)
  case (Cons seg p)
  then show ?case by (cases "p = []") (simp_all add: GetField_Cons SetField_Cons update_conv')
qed simp

lemma GetField_SetField_other: "p \<parallel> q \<Longrightarrow> GetField (SetField f p v) q = GetField f q"
proof (induction p arbitrary: f q)
  case (Cons seg p)
  then obtain b q' where q: "q = b # q'" by (cases q) auto
  show ?case
  proof (cases "b = seg")
    case True
    with Cons.prems q have par: "p \<parallel> q'" by (simp add: parallel_Cons_iff)
    then have "p \<noteq> []" "q' \<noteq> []" by auto
    with True q Cons.IH [OF par] show ?thesis by (simp add: GetField_Cons SetField_Cons)
  next
    case False
    with q show ?thesis
      by (cases "p = []"; cases "q' = []")
        (simp_all add: GetField_Cons SetField_Cons update_conv' sub_fields_update_other)
  qed
qed simp

lemma GetField_DeleteField_same: "GetField (DeleteField f p) p = None"
proof (induction p arbitrary: f)
  case (Cons seg p)
  then show ?case
    by (cases "p = []") (simp_all add: GetField_Cons sub_fields_DeleteField delete_conv')
qed simp

lemma GetField_DeleteField_other: "p \<parallel> q \<Longrightarrow> GetField (DeleteField f p) q = GetField f q"
proof (induction p arbitrary: f q)
  case (Cons seg p)
  then obtain b q' where q: "q = b # q'" by (cases q) auto
  show ?case
  proof (cases "b = seg")
    case True
    with Cons.prems q have par: "p \<parallel> q'" by (simp add: parallel_Cons_iff)
    then have "p \<noteq> []" "q' \<noteq> []" by auto
    with True q Cons.IH [OF par] show ?thesis by (simp add: GetField_Cons sub_fields_DeleteField)
  next
    case False
    with q show ?thesis
      by (cases "p = []"; cases "q' = []")
        (simp_all add: GetField_Cons sub_fields_DeleteField sub_fields_delete map_of_DeleteField_other
          delete_conv')
  qed
qed simp

lemma GetField_append:
  "p \<noteq> [] \<Longrightarrow> r \<noteq> [] \<Longrightarrow> GetField f (p @ r) =
     (case GetField f p of Some (MapValue m) \<Rightarrow> GetField m r | _ \<Rightarrow> None)"
proof (induction p arbitrary: f)
  case (Cons seg p)
  show ?case
  proof (cases "p = []")
    case True
    with Cons.prems show ?thesis
      by (simp add: GetField_Cons sub_fields_def split: option.split Value.split)
  next
    case False
    with Cons show ?thesis by (simp add: GetField_Cons)
  qed
qed simp

lemma GetField_SetField_below:
  "p \<noteq> [] \<Longrightarrow> r \<noteq> [] \<Longrightarrow> GetField (SetField f p v) (p @ r) =
     (case v of MapValue m \<Rightarrow> GetField m r | _ \<Rightarrow> None)"
  by (simp add: GetField_append GetField_SetField_same)

lemma update_same: "map_of m k = Some v \<Longrightarrow> AList.update k v m = m"
  by (induction m) (auto split: if_splits)

lemma SetField_same_value: "GetField f p = Some v \<Longrightarrow> SetField f p v = f"
proof (induction p arbitrary: f)
  case (Cons seg p)
  show ?case
  proof (cases "p = []")
    case True
    with Cons.prems show ?thesis by (simp add: update_same)
  next
    case False
    with Cons.prems have get: "GetField (sub_fields f seg) p = Some v" by (simp add: GetField_Cons)
    then have "sub_fields f seg \<noteq> []" by auto
    then have "map_of f seg = Some (MapValue (sub_fields f seg))"
      by (auto simp: sub_fields_def split: option.splits Value.splits)
    with False Cons.IH [OF get] show ?thesis by (simp add: SetField_Cons update_same)
  qed
qed simp

lemma GetField_prefix_present: "p \<noteq> [] \<Longrightarrow> prefix p q \<Longrightarrow> GetField f q \<noteq> None \<Longrightarrow> GetField f p \<noteq> None"
  using GetField_append [of p _ f] by (cases "p = q") (fastforce simp: prefix_def)+

text \<open>Copying the value at \<open>p\<close> from a document into a part of that document.\<close>

lemma GetField_copy:
  assumes "GetField f p = Some v" "q \<noteq> []" "GetField out q = GetField f q"
  shows "GetField (SetField out p v) q = GetField f q"
proof -
  have p: "p \<noteq> []" using assms(1) by auto
  consider "p \<parallel> q" | r where "q = p @ r" | r where "p = q @ r" "r \<noteq> []"
    by (metis append_self_conv parallel_def prefix_def)
  then show ?thesis
  proof cases
    case 1
    then show ?thesis using assms by (simp add: GetField_SetField_other)
  next
    case 2
    with p assms(1) show ?thesis
      by (cases "r = []") (simp_all add: GetField_SetField_same GetField_SetField_below GetField_append)
  next
    case 3
    then have "GetField out p = Some v" using assms by (simp add: GetField_append)
    then show ?thesis using assms(3) by (simp add: SetField_same_value)
  qed
qed

lemma GetField_copy_part:
  assumes "GetField f p = Some v" "q \<noteq> []" "GetField out q \<noteq> None \<Longrightarrow> GetField f q \<noteq> None"
    and "GetField (SetField out p v) q \<noteq> None"
  shows "GetField f q \<noteq> None"
proof -
  have p: "p \<noteq> []" using assms(1) by auto
  consider "p \<parallel> q" | r where "q = p @ r" | r where "p = q @ r"
    by (metis parallel_def prefix_def)
  then show ?thesis
  proof cases
    case 1
    then show ?thesis using assms by (simp add: GetField_SetField_other)
  next
    case 2
    with p assms(1,4) show ?thesis
      by (cases "r = []") (simp_all add: GetField_SetField_same GetField_append)
  next
    case 3
    then show ?thesis using GetField_prefix_present [of q p f] assms(1,2) by simp
  qed
qed

lemma set_AList_update: "set (AList.update k v m) \<subseteq> insert (k, v) (set m)"
  by (induction m) auto

section \<open>Interface: properties inherited by nested values\<close>

text \<open>
  A predicate on values that looks through maps only entry by entry is kept by reading and
  writing at a path.
\<close>

locale hereditary =
  fixes P :: "Value \<Rightarrow> bool"
  assumes P_map: "P (MapValue m) \<longleftrightarrow> distinct (map fst m) \<and> (\<forall>kv \<in> set m. P (snd kv))"
begin

lemma P_lookup: "P (MapValue m) \<Longrightarrow> map_of m k = Some v \<Longrightarrow> P v"
  by (auto simp: P_map dest!: map_of_SomeD)

lemma P_Nil [simp]: "P (MapValue [])"
  by (simp add: P_map)

lemma P_update: "P (MapValue m) \<Longrightarrow> P v \<Longrightarrow> P (MapValue (AList.update k v m))"
  using set_AList_update [of k v m] by (fastforce simp: P_map distinct_update)

lemma P_delete: "P (MapValue m) \<Longrightarrow> P (MapValue (AList.delete k m))"
  by (auto simp: P_map AList.delete_eq distinct_map_filter)

lemma P_sub: "P (MapValue m) \<Longrightarrow> P (MapValue (sub_fields m seg))"
  by (auto simp: sub_fields_def dest: P_lookup split: option.split Value.split)

lemma P_SetField: "P (MapValue m) \<Longrightarrow> P v \<Longrightarrow> P (MapValue (SetField m p v))"
proof (induction p arbitrary: m)
  case (Cons seg p)
  then show ?case
    using P_sub [of m seg] by (cases "p = []") (auto simp: SetField_Cons P_update)
qed simp

lemma P_DeleteField: "P (MapValue m) \<Longrightarrow> P (MapValue (DeleteField m p))"
proof (induction m p rule: DeleteField.induct)
  case (3 m seg s rest)
  then show ?case
    by (auto intro: P_update dest: P_lookup split: option.split Value.split)
qed (auto simp: P_delete)

lemma P_GetField: "P (MapValue m) \<Longrightarrow> GetField m p = Some v \<Longrightarrow> P v"
proof (induction p arbitrary: m)
  case (Cons seg p)
  then show ?case
    using P_sub [of m seg] by (cases "p = []") (auto simp: GetField_Cons dest: P_lookup)
qed simp

end

interpretation valid: hereditary valid_value
  by unfold_locales simp

lemma valid_fields_Nil [simp]: "valid_fields []"
  by (simp add: valid_fields_def)

lemma valid_SetField: "valid_fields f \<Longrightarrow> valid_value v \<Longrightarrow> valid_fields (SetField f p v)"
  unfolding valid_MapValue [symmetric] by (rule valid.P_SetField)

lemma valid_DeleteField: "valid_fields f \<Longrightarrow> valid_fields (DeleteField f p)"
  unfolding valid_MapValue [symmetric] by (rule valid.P_DeleteField)

lemma valid_GetField: "valid_fields f \<Longrightarrow> GetField f p = Some v \<Longrightarrow> valid_value v"
  unfolding valid_MapValue [symmetric] by (rule valid.P_GetField)

interpretation doc_fields: path_fields GetField SetField DeleteField valid_fields valid_value
proof unfold_locales
qed (simp_all add: GetField_SetField_same GetField_SetField_other GetField_DeleteField_same
    GetField_DeleteField_other valid_SetField valid_DeleteField valid_GetField)

section \<open>Properties of field paths\<close>

text \<open>
  C24: printing a path and parsing it back gives the path, whatever bytes its segments hold
  (backticks, backslashes, dots, nothing at all); so printing is injective, and printing what
  was parsed gives a canonical spelling that parses to the same path.
\<close>

theorem field_path_round_trip:
  "p \<noteq> [] \<Longrightarrow> ParseFieldPath (FieldPath_String p) = Inr p"
  using parseSegments_print [of p "[]"] FieldPath_String_not_Nil [of p]
  by (simp add: ParseFieldPath_def FieldPath_String_def)

theorem field_path_round_trip_witness:
  "ParseFieldPath (FieldPath_String [''a.b'', [CHR 0x60], []]) = Inr [''a.b'', [CHR 0x60], []]"
  by (rule field_path_round_trip) simp

text \<open>
  C25: setting a field makes it readable at its path, deleting it makes the path unreadable, and
  neither is seen at a path that is not above or below; both keep a document well-formed.
\<close>

theorem field_update_laws:
  assumes "p \<noteq> []" "p \<parallel> q" "valid_fields f" "valid_value v"
  shows "GetField (SetField f p v) p = Some v \<and> GetField (SetField f p v) q = GetField f q \<and>
    GetField (DeleteField f p) p = None \<and> GetField (DeleteField f p) q = GetField f q \<and>
    valid_fields (SetField f p v) \<and> valid_fields (DeleteField f p)"
  using assms by (simp add: doc_fields.get_set_same doc_fields.get_set_other doc_fields.get_del_same
      doc_fields.get_del_other doc_fields.ok_set doc_fields.ok_del)

theorem field_update_laws_witness:
  "GetField (SetField [(''a'', StringValue ''x''), (''b'', NullValue)] [''a'', ''c''] NullValue) [''b''] =
   Some NullValue"
  using field_update_laws [of "[''a'', ''c'']" "[''b'']" "[(''a'', StringValue ''x''), (''b'', NullValue)]" NullValue]
  by (simp add: parallel_Cons_iff valid_fields_def)

end
