(* ===== verification/Query.thy ===== *)
theory Query
  imports SortKey FieldPath
begin

text \<open>
  Package \<^verbatim>\<open>query\<close>: parsing of a structured query into its effective form, filter
  evaluation, ordering, cursors and projection. This is the reference semantics of a query; the
  planner and the store are proved against it.
\<close>

section \<open>Requests\<close>

datatype CompositeOp = CompositeUnspecified | CompositeAnd | CompositeOr

datatype FieldOp =
    FieldOpUnspecified | LESS_THAN | LESS_THAN_OR_EQUAL | GREATER_THAN | GREATER_THAN_OR_EQUAL
  | EQUAL | NOT_EQUAL | ARRAY_CONTAINS | IN_LIST | ARRAY_CONTAINS_ANY | NOT_IN

datatype UnaryOp = UnaryUnspecified | IS_NAN | IS_NULL | IS_NOT_NAN | IS_NOT_NULL

datatype Filter =
    FilterUnset
  | CompositeFilter CompositeOp "Filter list"
  | FieldFilter string FieldOp Value
  | UnaryFilter string UnaryOp

datatype Direction = Asc | Desc

fun dir_int :: "Direction \<Rightarrow> int" where
  "dir_int Asc = 1" | "dir_int Desc = -1"

record Cursor =
  Values :: "Value list"
  Before :: bool

record StructuredQuery =
  sq_From :: "(string \<times> bool) list"
  sq_Where :: "Filter option"
  sq_OrderBy :: "(string \<times> Direction) list"
  sq_StartAt :: "Cursor option"
  sq_EndAt :: "Cursor option"
  sq_Offset :: int32
  sq_Limit :: "int32 option"
  sq_Select :: "string list option"

section \<open>Parsed queries\<close>

record OrderSpec =
  Path :: FieldPath
  IsName :: bool
  Dir :: Direction

record Query =
  Parent :: string
  CollectionID :: string
  AllDescendants :: bool
  Where :: "Filter option"
  Order :: "OrderSpec list"
  Start :: "Cursor option"
  End :: "Cursor option"
  Offset :: int32
  Limit :: int32
  Projection :: "FieldPath list"
  KeysOnly :: bool

fun firstInequalityField :: "Filter \<Rightarrow> string"
  and firstInequalityFields :: "Filter list \<Rightarrow> string" where
  "firstInequalityField (CompositeFilter op subs) = firstInequalityFields subs"
| "firstInequalityField (FieldFilter fp op v) =
     (if op \<in> {LESS_THAN, LESS_THAN_OR_EQUAL, GREATER_THAN, GREATER_THAN_OR_EQUAL, NOT_EQUAL, NOT_IN}
      then fp else [])"
| "firstInequalityField (UnaryFilter fp op) =
     (if op = IS_NOT_NAN \<or> op = IS_NOT_NULL then fp else [])"
| "firstInequalityField FilterUnset = []"
| "firstInequalityFields [] = []"
| "firstInequalityFields (f # fs) =
     (let p = firstInequalityField f in if p \<noteq> [] then p else firstInequalityFields fs)"

text \<open>The loop over the explicit orderBy terms; the state is (seen, order, nameOrdered, lastDir).\<close>

fun parseOrderBy ::
  "string list \<Rightarrow> OrderSpec list \<Rightarrow> bool \<Rightarrow> Direction \<Rightarrow> (string \<times> Direction) list \<Rightarrow>
   (OrderSpec list \<times> bool \<times> Direction) result" where
  "parseOrderBy seenOrder order nameOrdered lastDir [] = Inr (order, nameOrdered, lastDir)"
| "parseOrderBy seenOrder order nameOrdered lastDir ((fp, dir) # obs) =
     (if fp \<in> set seenOrder then Inl InvalidArgument
      else if fp = ''__name__'' then
        parseOrderBy (fp # seenOrder) (order @ [\<lparr>Path = [], IsName = True, Dir = dir\<rparr>]) True dir obs
      else
        (case ParseFieldPath fp of
           Inl e \<Rightarrow> Inl InvalidArgument
         | Inr path \<Rightarrow>
             parseOrderBy (fp # seenOrder) (order @ [\<lparr>Path = path, IsName = False, Dir = dir\<rparr>])
               nameOrdered dir obs))"

text \<open>The implicit inequality ordering and the name tiebreaker.\<close>

definition implicitOrder ::
  "Filter option \<Rightarrow> OrderSpec list \<times> bool \<times> Direction \<Rightarrow> (OrderSpec list \<times> bool \<times> Direction) result" where
  "implicitOrder w st =
     (case st of (order, nameOrdered, lastDir) \<Rightarrow>
        let ineq = (case w of None \<Rightarrow> [] | Some f \<Rightarrow> firstInequalityField f) in
        if order = [] \<and> ineq \<noteq> [] \<and> ineq \<noteq> ''__name__'' then
          (case ParseFieldPath ineq of
             Inl e \<Rightarrow> Inl InvalidArgument
           | Inr path \<Rightarrow> Inr (order @ [\<lparr>Path = path, IsName = False, Dir = Asc\<rparr>], nameOrdered, Asc))
        else Inr st)"

definition appendNameOrder :: "OrderSpec list \<times> bool \<times> Direction \<Rightarrow> OrderSpec list" where
  "appendNameOrder st =
     (case st of (order, nameOrdered, lastDir) \<Rightarrow>
        if \<not> nameOrdered then order @ [\<lparr>Path = [], IsName = True, Dir = lastDir\<rparr>] else order)"

fun parseSelect :: "FieldPath list \<Rightarrow> string list \<Rightarrow> FieldPath list result" where
  "parseSelect proj [] = Inr proj"
| "parseSelect proj (fp # fps) =
     (if fp = ''__name__'' then parseSelect proj fps
      else
        (case ParseFieldPath fp of
           Inl e \<Rightarrow> Inl InvalidArgument
         | Inr path \<Rightarrow> parseSelect (proj @ [path]) fps))"

definition toRef :: "string \<Rightarrow> Value \<Rightarrow> Value" where
  "toRef base v = (case v of StringValue s \<Rightarrow> ReferenceValue (base @ ''/'' @ s) | _ \<Rightarrow> v)"

fun canonFilter :: "string \<Rightarrow> Filter \<Rightarrow> Filter" where
  "canonFilter base (CompositeFilter op subs) = CompositeFilter op (map (canonFilter base) subs)"
| "canonFilter base (FieldFilter fp op v) =
     (if fp \<noteq> ''__name__'' then FieldFilter fp op v
      else
        (case v of
           ArrayValue vs \<Rightarrow> FieldFilter fp op (ArrayValue (map (toRef base) vs))
         | _ \<Rightarrow> FieldFilter fp op (toRef base v)))"
| "canonFilter base f = f"

fun canonValues :: "string \<Rightarrow> OrderSpec list \<Rightarrow> Value list \<Rightarrow> Value list" where
  "canonValues base (o1 # os) (v # vs) = (if IsName o1 then toRef base v else v) # canonValues base os vs"
| "canonValues base os vs = vs"

definition canonCursor :: "string \<Rightarrow> OrderSpec list \<Rightarrow> Cursor \<Rightarrow> Cursor" where
  "canonCursor base os c = c\<lparr>Values := canonValues base os (Values c)\<rparr>"

definition canonicalizeNameOperands :: "Query \<Rightarrow> Query" where
  "canonicalizeNameOperands q =
     (let base = (if \<not> AllDescendants q then Parent q @ ''/'' @ CollectionID q else Parent q)
      in q\<lparr>Where := map_option (canonFilter base) (Where q),
           Start := map_option (canonCursor base (Order q)) (Start q),
           End := map_option (canonCursor base (Order q)) (End q)\<rparr>)"

definition withSelect :: "string list option \<Rightarrow> Query \<Rightarrow> Query result" where
  "withSelect sel q =
     (case sel of
        None \<Rightarrow> Inr q
      | Some fps \<Rightarrow>
          if fps = [''__name__''] then Inr (q\<lparr>KeysOnly := True\<rparr>)
          else bind_result (parseSelect [] fps) (\<lambda>proj. Inr (q\<lparr>Projection := proj\<rparr>)))"

definition Parse :: "string \<Rightarrow> StructuredQuery option \<Rightarrow> Query result" where
  "Parse parent sqo =
     (case sqo of
        None \<Rightarrow> Inl InvalidArgument
      | Some sq \<Rightarrow>
          (case sq_From sq of
             [(cid, desc)] \<Rightarrow>
               bind_result (parseOrderBy [] [] False Asc (sq_OrderBy sq)) (\<lambda>st1.
               bind_result (implicitOrder (sq_Where sq) st1) (\<lambda>st2.
                 withSelect (sq_Select sq)
                   (canonicalizeNameOperands
                     \<lparr>Parent = parent, CollectionID = cid, AllDescendants = desc, Where = sq_Where sq,
                      Order = appendNameOrder st2, Start = sq_StartAt sq, End = sq_EndAt sq,
                      Offset = sq_Offset sq,
                      Limit = (case sq_Limit sq of None \<Rightarrow> -1 | Some n \<Rightarrow> n),
                      Projection = [], KeysOnly = False\<rparr>)))
           | _ \<Rightarrow> Inl InvalidArgument))"

section \<open>Filters\<close>

definition arrayContains :: "Value \<Rightarrow> Value \<Rightarrow> bool" where
  "arrayContains field el =
     (case field of
        ArrayValue ms \<Rightarrow> if IsNaN el then False else list_ex (\<lambda>m. \<not> IsNaN m \<and> Compare m el = 0) ms
      | _ \<Rightarrow> False)"

fun inList :: "Value \<Rightarrow> Value list \<Rightarrow> bool" where
  "inList v [] = False"
| "inList v (el # els) =
     (if IsNull el then inList v els
      else if \<not> IsNaN el \<and> \<not> IsNaN v \<and> Compare v el = 0 then True
      else inList v els)"

fun notInList :: "Value \<Rightarrow> Value list \<Rightarrow> bool" where
  "notInList v [] = True"
| "notInList v (el # els) =
     (if IsNull el then False
      else if IsNaN el then notInList v els
      else if Compare v el = 0 then False
      else notInList v els)"

fun containsAny :: "Value \<Rightarrow> Value list \<Rightarrow> bool" where
  "containsAny v [] = False"
| "containsAny v (el # els) =
     (if IsNull el \<or> IsNaN el then containsAny v els
      else if arrayContains v el then True
      else containsAny v els)"

definition evalOp :: "FieldOp \<Rightarrow> Value \<Rightarrow> Value \<Rightarrow> bool" where
  "evalOp op v operand =
     (case op of
        EQUAL \<Rightarrow> Compare v operand = 0
      | NOT_EQUAL \<Rightarrow> if IsNull v then False else Compare v operand \<noteq> 0
      | IN_LIST \<Rightarrow> inList v (GetArrayValues operand)
      | NOT_IN \<Rightarrow> if IsNull v then False else notInList v (GetArrayValues operand)
      | ARRAY_CONTAINS \<Rightarrow> if IsNull operand \<or> IsNaN operand then False else arrayContains v operand
      | ARRAY_CONTAINS_ANY \<Rightarrow> containsAny v (GetArrayValues operand)
      | FieldOpUnspecified \<Rightarrow> False
      | _ \<Rightarrow>
          if TypeOrder v \<noteq> TypeOrder operand \<or> IsNaN v \<or> IsNaN operand then False
          else
            let c = Compare v operand in
            (if op = LESS_THAN then c < 0
             else if op = LESS_THAN_OR_EQUAL then c \<le> 0
             else if op = GREATER_THAN then c > 0
             else c \<ge> 0))"

definition evalFieldFilter :: "string \<Rightarrow> FieldOp \<Rightarrow> Value \<Rightarrow> string \<Rightarrow> Fields \<Rightarrow> bool" where
  "evalFieldFilter fp op operand name flds =
     (if fp = ''__name__'' then evalOp op (ReferenceValue name) operand
      else
        (case ParseFieldPath fp of
           Inl e \<Rightarrow> False
         | Inr path \<Rightarrow>
             (case GetField flds path of
                None \<Rightarrow> False
              | Some v \<Rightarrow> evalOp op v operand)))"

definition evalUnaryFilter :: "string \<Rightarrow> UnaryOp \<Rightarrow> Fields \<Rightarrow> bool" where
  "evalUnaryFilter fp op flds =
     (case ParseFieldPath fp of
        Inl e \<Rightarrow> False
      | Inr path \<Rightarrow>
          (case GetField flds path of
             None \<Rightarrow> False
           | Some v \<Rightarrow>
               (case op of
                  IS_NULL \<Rightarrow> IsNull v
                | IS_NOT_NULL \<Rightarrow> \<not> IsNull v
                | IS_NAN \<Rightarrow> IsNaN v
                | IS_NOT_NAN \<Rightarrow> \<not> IsNaN v \<and> \<not> IsNull v
                | UnaryUnspecified \<Rightarrow> False)))"

fun evalFilter :: "Filter \<Rightarrow> string \<Rightarrow> Fields \<Rightarrow> bool" where
  "evalFilter (CompositeFilter op subs) name flds =
     (if op = CompositeOr then list_ex (\<lambda>sub. evalFilter sub name flds) subs
      else list_all (\<lambda>sub. evalFilter sub name flds) subs)"
| "evalFilter (FieldFilter fp op operand) name flds = evalFieldFilter fp op operand name flds"
| "evalFilter (UnaryFilter fp op) name flds = evalUnaryFilter fp op flds"
| "evalFilter FilterUnset name flds = False"

definition Matches :: "Query \<Rightarrow> string \<Rightarrow> Fields \<Rightarrow> bool" where
  "Matches q name flds =
     (if \<not> list_all (\<lambda>o1. IsName o1 \<or> GetField flds (Path o1) \<noteq> None) (Order q) then False
      else
        (case Where q of
           None \<Rightarrow> True
         | Some f \<Rightarrow> evalFilter f name flds))"

section \<open>Ordering and cursors\<close>

definition orderValue :: "string \<Rightarrow> Fields \<Rightarrow> OrderSpec \<Rightarrow> Value" where
  "orderValue name flds o1 =
     (if IsName o1 then ReferenceValue name
      else (case GetField flds (Path o1) of None \<Rightarrow> NullValue | Some v \<Rightarrow> v))"

definition OrderKey :: "Query \<Rightarrow> string \<Rightarrow> Fields \<Rightarrow> Value list" where
  "OrderKey q name flds = map (orderValue name flds) (Order q)"

text \<open>
  The two comparison loops index their tuples by position in \<^verbatim>\<open>q.Order\<close>; tuples are built by
  \<open>OrderKey\<close> and have its length, so no index is out of range.
\<close>

fun compareTuples :: "OrderSpec list \<Rightarrow> Value list \<Rightarrow> Value list \<Rightarrow> int" where
  "compareTuples (o1 # os) (a # as) (b # bs) =
     (let c = Compare a b in if c \<noteq> 0 then c * dir_int (Dir o1) else compareTuples os as bs)"
| "compareTuples os as bs = 0"

definition CompareKeys :: "Query \<Rightarrow> Value list \<Rightarrow> Value list \<Rightarrow> int" where
  "CompareKeys q a b = compareTuples (Order q) a b"

definition compareToCursor :: "Query \<Rightarrow> Value list \<Rightarrow> Cursor \<Rightarrow> int" where
  "compareToCursor q key cur =
     (let n = (if length (Values cur) > length (Order q) then length (Order q) else length (Values cur))
      in compareTuples (take n (Order q)) key (Values cur))"

definition InCursorRange :: "Query \<Rightarrow> Value list \<Rightarrow> bool" where
  "InCursorRange q key =
     (if (case Start q of None \<Rightarrow> False
          | Some s \<Rightarrow> let c = compareToCursor q key s in c < 0 \<or> (c = 0 \<and> \<not> Before s)) then False
      else if (case End q of None \<Rightarrow> False
          | Some e \<Rightarrow> let c = compareToCursor q key e in c > 0 \<or> (c = 0 \<and> Before e)) then False
      else True)"

definition NameOnlyOrder :: "Query \<Rightarrow> Direction \<times> bool" where
  "NameOnlyOrder q =
     (case Order q of [o1] \<Rightarrow> if IsName o1 then (Dir o1, True) else (Asc, False) | _ \<Rightarrow> (Asc, False))"

definition nameCursor :: "Cursor option \<Rightarrow> string option" where
  "nameCursor co =
     (case co of
        None \<Rightarrow> Some []
      | Some c \<Rightarrow> (case Values c of [ReferenceValue r] \<Rightarrow> Some r | _ \<Rightarrow> None))"

definition NameCursorBounds :: "Query \<Rightarrow> (string \<times> string \<times> bool \<times> bool) option" where
  "NameCursorBounds q =
     (case (nameCursor (Start q), nameCursor (End q)) of
        (Some s, Some e) \<Rightarrow>
          Some (s, e,
            (case Start q of None \<Rightarrow> True | Some c \<Rightarrow> Before c),
            (case End q of None \<Rightarrow> False | Some c \<Rightarrow> \<not> Before c))
      | _ \<Rightarrow> None)"

definition ApplyProjection :: "Query \<Rightarrow> Fields \<Rightarrow> Fields" where
  "ApplyProjection q flds =
     (if KeysOnly q then []
      else if Projection q = [] then flds
      else fold (\<lambda>p out. case GetField flds p of None \<Rightarrow> out | Some v \<Rightarrow> SetField out p v)
             (Projection q) [])"

section \<open>Parsing: the effective order\<close>

lemma parseOrderBy_inv:
  assumes "parseOrderBy seen order nm d obs = Inr (order', nm', d')"
    and "length (filter IsName order) = (if nm then 1 else 0)" "nm \<longleftrightarrow> ''__name__'' \<in> set seen"
    and "\<forall>o1 \<in> set order. IsName o1 \<or> Path o1 \<noteq> []"
  shows "length (filter IsName order') = (if nm' then 1 else 0) \<and> (\<forall>o1 \<in> set order'. IsName o1 \<or> Path o1 \<noteq> [])"
  using assms
proof (induction seen order nm d obs rule: parseOrderBy.induct)
  case (2 seen order nm d fp dir obs)
  show ?case
  proof (cases "fp = ''__name__''")
    case True
    with 2 show ?thesis by (simp split: if_splits)
  next
    case False
    with 2(3) obtain path where path: "ParseFieldPath fp = Inr path"
      by (auto split: if_splits sum.splits)
    then have "path \<noteq> []" by (auto simp: ParseFieldPath_def split: if_splits dest: parseSegments_not_Nil)
    with False 2 path show ?thesis by (simp split: if_splits)
  qed
qed simp

lemma implicitOrder_inv:
  assumes "implicitOrder w (order, nm, d) = Inr (order', nm', d')"
    and "length (filter IsName order) = (if nm then 1 else 0)" "\<forall>o1 \<in> set order. IsName o1 \<or> Path o1 \<noteq> []"
  shows "length (filter IsName order') = (if nm' then 1 else 0) \<and> (\<forall>o1 \<in> set order'. IsName o1 \<or> Path o1 \<noteq> [])"
  using assms
  by (auto simp: implicitOrder_def ParseFieldPath_def Let_def split: if_splits sum.splits dest: parseSegments_not_Nil)

definition wf_order :: "OrderSpec list \<Rightarrow> bool" where
  "wf_order os \<longleftrightarrow> length (filter IsName os) = 1 \<and> (\<forall>o1 \<in> set os. IsName o1 \<or> Path o1 \<noteq> [])"

lemma appendNameOrder_wf:
  "length (filter IsName order) = (if nm then 1 else 0) \<Longrightarrow> \<forall>o1 \<in> set order. IsName o1 \<or> Path o1 \<noteq> [] \<Longrightarrow>
   wf_order (appendNameOrder (order, nm, d))"
  by (auto simp: wf_order_def appendNameOrder_def)

lemma canonicalize_Order [simp]: "Order (canonicalizeNameOperands q) = Order q"
  by (simp add: canonicalizeNameOperands_def Let_def)

lemma withSelect_Order: "withSelect sel q = Inr q' \<Longrightarrow> Order q' = Order q"
  by (auto simp: withSelect_def bind_result_Inr split: option.splits if_splits)

lemma Parse_order:
  assumes "Parse parent (Some sq) = Inr q"
  obtains st1 st2 where "parseOrderBy [] [] False Asc (sq_OrderBy sq) = Inr st1"
    "implicitOrder (sq_Where sq) st1 = Inr st2" "Order q = appendNameOrder st2"
  using assms
  by (auto simp: Parse_def bind_result_Inr split: list.splits dest!: withSelect_Order)

lemma Parse_wf_order: "Parse parent sqo = Inr q \<Longrightarrow> wf_order (Order q)"
proof -
  assume parse: "Parse parent sqo = Inr q"
  then obtain sq where sq: "sqo = Some sq" by (cases sqo) (auto simp: Parse_def)
  obtain order nm d order' nm' d' where
    1: "parseOrderBy [] [] False Asc (sq_OrderBy sq) = Inr (order, nm, d)" and
    2: "implicitOrder (sq_Where sq) (order, nm, d) = Inr (order', nm', d')" and
    q: "Order q = appendNameOrder (order', nm', d')"
    using parse sq by (metis Parse_order prod_cases3)
  have "length (filter IsName order) = (if nm then 1 else 0) \<and> (\<forall>o1 \<in> set order. IsName o1 \<or> Path o1 \<noteq> [])"
    by (rule parseOrderBy_inv [OF 1]) simp_all
  then have "length (filter IsName order') = (if nm' then 1 else 0) \<and> (\<forall>o1 \<in> set order'. IsName o1 \<or> Path o1 \<noteq> [])"
    by (intro implicitOrder_inv [OF 2]) simp_all
  then show ?thesis
    unfolding q by (intro appendNameOrder_wf) simp_all
qed

section \<open>Tuples as byte keys\<close>

definition termKey :: "OrderSpec \<Rightarrow> Value \<Rightarrow> bytes" where
  "termKey o1 v = (case Dir o1 of Asc \<Rightarrow> sortKey v | Desc \<Rightarrow> complement (sortKey v))"

fun tupleKey :: "OrderSpec list \<Rightarrow> Value list \<Rightarrow> bytes" where
  "tupleKey (o1 # os) (v # vs) = termKey o1 v @ tupleKey os vs"
| "tupleKey os vs = []"

definition valid_tuple :: "OrderSpec list \<Rightarrow> Value list \<Rightarrow> bool" where
  "valid_tuple os vs \<longleftrightarrow> length vs = length os \<and> list_all valid_value vs"

lemma compareTuples_Cons [simp]:
  "compareTuples (o1 # os) (a # as) (b # bs) =
     then_cmp (Compare a b * dir_int (Dir o1)) (compareTuples os as bs)"
  by (cases "Dir o1") (auto simp: then_cmp_def Let_def)

declare compareTuples.simps(1) [simp del]

lemma termKey_cmp:
  assumes "valid_value a" "valid_value b"
  shows "bytes_Compare (termKey o1 a @ x) (termKey o1 b @ y) =
    then_cmp (Compare a b * dir_int (Dir o1)) (bytes_Compare x y)"
  using value_key.enc_cmp [OF assms] value_key.enc_desc_cmp [OF assms]
  by (cases "Dir o1") (simp_all add: termKey_def)

lemma tupleKey_cmp:
  assumes "valid_tuple os as" "valid_tuple os bs"
  shows "bytes_Compare (tupleKey os as @ x) (tupleKey os bs @ y) =
    then_cmp (compareTuples os as bs) (bytes_Compare x y)"
  using assms
proof (induction os arbitrary: as bs)
  case (Cons o1 os)
  then obtain a as' b bs' where ab: "as = a # as'" "bs = b # bs'"
    by (auto simp: valid_tuple_def length_Suc_conv)
  with Cons show ?case by (simp add: valid_tuple_def termKey_cmp then_cmp_assoc)
qed simp

interpretation tuple_key: key_encoding "tupleKey os" "compareTuples os" "valid_tuple os" for os
  by unfold_locales (rule tupleKey_cmp)

lemma valid_OrderKey: "valid_fields flds \<Longrightarrow> valid_tuple (Order q) (OrderKey q name flds)"
  by (auto simp: valid_tuple_def OrderKey_def orderValue_def list_all_iff valid_GetField split: option.split)

text \<open>The name term makes different documents differ.\<close>

lemma compareTuples_name:
  assumes "compareTuples os (map (orderValue n f) os) (map (orderValue n' f') os) = 0"
    and "o1 \<in> set os" "IsName o1"
  shows "n = n'"
  using assms
proof (induction os)
  case (Cons o2 os)
  then have "Compare (orderValue n f o2) (orderValue n' f' o2) = 0"
    by (cases "Dir o2") simp_all
  with Cons show ?case by (auto simp: orderValue_def)
qed simp

lemma wf_order_name: "wf_order os \<Longrightarrow> \<exists>o1 \<in> set os. IsName o1"
  by (metis One_nat_def filter_False length_0_conv nat.distinct(1) wf_order_def)

lemma CompareKeys_name:
  "wf_order (Order q) \<Longrightarrow> CompareKeys q (OrderKey q n f) (OrderKey q n' f') = 0 \<Longrightarrow> n = n'"
  using compareTuples_name wf_order_name by (fastforce simp: CompareKeys_def OrderKey_def)

section \<open>The order of documents\<close>

type_synonym doc = "string \<times> Fields"

definition doc_key :: "Query \<Rightarrow> doc \<Rightarrow> Value list" where
  "doc_key q d = OrderKey q (fst d) (snd d)"

definition doc_cmp :: "Query \<Rightarrow> doc \<Rightarrow> doc \<Rightarrow> int" where
  "doc_cmp q a b = CompareKeys q (doc_key q a) (doc_key q b)"

definition valid_doc :: "doc \<Rightarrow> bool" where
  "valid_doc d \<longleftrightarrow> valid_fields (snd d)"

lemma valid_doc_key: "valid_doc d \<Longrightarrow> valid_tuple (Order q) (doc_key q d)"
  by (simp add: valid_doc_def doc_key_def valid_OrderKey)

interpretation doc_order: total_cmp "doc_cmp q" valid_doc for q
proof unfold_locales
  fix a b c assume ab: "valid_doc a" "valid_doc b"
  show "doc_cmp q b a = - doc_cmp q a b"
    unfolding doc_cmp_def CompareKeys_def by (rule tuple_key.cmp_swap) (rule valid_doc_key ab)+
  assume c: "valid_doc c" and le: "doc_cmp q a b \<le> 0" "doc_cmp q b c \<le> 0"
  show "doc_cmp q a c \<le> 0"
    using le unfolding doc_cmp_def CompareKeys_def
    by (rule tuple_key.cmp_le_trans [rotated 3]) (rule valid_doc_key ab c)+
qed

lemma doc_cmp_0: "wf_order (Order q) \<Longrightarrow> doc_cmp q a b = 0 \<Longrightarrow> fst a = fst b"
  using CompareKeys_name by (simp add: doc_cmp_def doc_key_def)

text \<open>Documents of distinct names, sorted: earlier means strictly smaller.\<close>

lemma sorted_docs_strict:
  assumes "wf_order (Order q)" "sorted_wrt (\<lambda>a b. doc_cmp q a b \<le> 0) xs" "distinct (map fst xs)"
  shows "sorted_wrt (\<lambda>a b. doc_cmp q a b < 0) xs"
  using assms(2,3)
proof (induction xs)
  case (Cons x xs)
  have "doc_cmp q x y < 0" if "y \<in> set xs" for y
    using Cons.prems that doc_cmp_0 [OF assms(1), of x y] by (force simp: less_le)
  with Cons show ?case by auto
qed simp

lemma full_cursor: "length (Values c) = length (Order q) \<Longrightarrow> compareToCursor q k c = CompareKeys q k (Values c)"
  by (simp add: compareToCursor_def CompareKeys_def)

lemma length_doc_key [simp]: "length (doc_key q d) = length (Order q)"
  by (simp add: doc_key_def OrderKey_def)

definition startAfter :: "Query \<Rightarrow> doc \<Rightarrow> Query" where
  "startAfter q d = q\<lparr>Start := Some \<lparr>Values = doc_key q d, Before = False\<rparr>, End := None\<rparr>"

definition endAt :: "Query \<Rightarrow> doc \<Rightarrow> Query" where
  "endAt q d = q\<lparr>Start := None, End := Some \<lparr>Values = doc_key q d, Before = False\<rparr>\<rparr>"

lemma InCursorRange_startAfter: "InCursorRange (startAfter q d) (doc_key q e) \<longleftrightarrow> doc_cmp q e d > 0"
proof -
  have "compareToCursor (startAfter q d) k \<lparr>Values = doc_key q d, Before = False\<rparr> =
      CompareKeys q k (doc_key q d)" for k
    by (simp add: startAfter_def compareToCursor_def CompareKeys_def)
  then show ?thesis by (auto simp: InCursorRange_def startAfter_def doc_cmp_def Let_def)
qed

lemma InCursorRange_endAt: "InCursorRange (endAt q d) (doc_key q e) \<longleftrightarrow> doc_cmp q e d \<le> 0"
proof -
  have "compareToCursor (endAt q d) k \<lparr>Values = doc_key q d, Before = False\<rparr> =
      CompareKeys q k (doc_key q d)" for k
    by (simp add: endAt_def compareToCursor_def CompareKeys_def)
  then show ?thesis by (auto simp: InCursorRange_def endAt_def doc_cmp_def Let_def)
qed

lemma filter_split:
  assumes "\<forall>x \<in> set (take k xs). \<not> P x" "\<forall>x \<in> set (drop k xs). P x"
  shows "filter P xs = drop k xs"
proof -
  have "filter P xs = filter P (take k xs) @ filter P (drop k xs)"
    by (metis append_take_drop_id filter_append)
  with assms show ?thesis by (simp add: filter_True filter_False)
qed

lemma sorted_strict_split:
  assumes "sorted_wrt (\<lambda>a b. doc_cmp q a b < 0) xs" "\<forall>x \<in> set xs. valid_doc x" "i < length xs"
  shows "\<forall>x \<in> set (take (Suc i) xs). doc_cmp q x (xs ! i) \<le> 0"
    and "\<forall>x \<in> set (drop (Suc i) xs). 0 < doc_cmp q x (xs ! i)"
proof -
  show "\<forall>x \<in> set (take (Suc i) xs). doc_cmp q x (xs ! i) \<le> 0"
  proof
    fix x assume "x \<in> set (take (Suc i) xs)"
    then obtain j where j: "j \<le> i" "x = xs ! j"
      using assms(3) by (auto simp: in_set_conv_nth less_Suc_eq_le)
    then show "doc_cmp q x (xs ! i) \<le> 0"
      using assms sorted_wrt_nth_less [OF assms(1), of j i] doc_order.cmp_refl [of "xs ! i" q]
      by (cases "j = i") auto
  qed
  show "\<forall>x \<in> set (drop (Suc i) xs). 0 < doc_cmp q x (xs ! i)"
  proof
    fix x assume x: "x \<in> set (drop (Suc i) xs)"
    then obtain j where "j < length xs - Suc i" "x = xs ! (Suc i + j)"
      using assms(3) by (auto simp: in_set_conv_nth)
    then have "doc_cmp q (xs ! i) x < 0" using sorted_wrt_nth_less [OF assms(1), of i "Suc i + j"] by simp
    then show "0 < doc_cmp q x (xs ! i)"
      using doc_order.cmp_swap [of "xs ! i" x q] assms x by (auto dest: in_set_dropD)
  qed
qed

section \<open>Projection\<close>

lemma projection_loop:
  fixes f :: Fields
  defines "step \<equiv> (\<lambda>p out. case GetField f p of None \<Rightarrow> out | Some v \<Rightarrow> SetField out p v)"
  shows "(\<forall>q. q \<noteq> [] \<longrightarrow> GetField out q \<noteq> None \<longrightarrow> GetField f q \<noteq> None) \<Longrightarrow> p \<noteq> [] \<Longrightarrow>
    p \<in> set ps \<or> GetField out p = GetField f p \<Longrightarrow> GetField (fold step ps out) p = GetField f p"
proof (induction ps arbitrary: out)
  case (Cons p' ps)
  have part: "\<forall>q. q \<noteq> [] \<longrightarrow> GetField (step p' out) q \<noteq> None \<longrightarrow> GetField f q \<noteq> None"
    using Cons.prems(1) GetField_copy_part [of f p' _ _ out] by (auto simp: step_def split: option.splits)
  have "p \<in> set ps \<or> GetField (step p' out) p = GetField f p"
  proof (cases "p = p'")
    case True
    with Cons.prems show ?thesis
      by (cases "GetField f p'") (auto simp: step_def GetField_SetField_same)
  next
    case False
    with Cons.prems show ?thesis
      by (cases "GetField f p'") (auto simp: step_def GetField_copy)
  qed
  with Cons.IH [OF part Cons.prems(2)] show ?case by simp
qed simp

lemma projection_loop_other:
  "\<forall>p \<in> set ps. p \<parallel> q \<Longrightarrow>
   GetField (fold (\<lambda>p out. case GetField f p of None \<Rightarrow> out | Some v \<Rightarrow> SetField out p v) ps out) q = GetField out q"
  by (induction ps arbitrary: out) (auto simp: GetField_SetField_other split: option.split)

section \<open>Properties of queries\<close>

lemma parseOrderBy_dirs:
  "parseOrderBy seen order nm d obs = Inr (order', nm', d') \<Longrightarrow>
   map Dir order' = map Dir order @ map snd obs \<and>
   (nm' \<longleftrightarrow> nm \<or> ''__name__'' \<in> fst ` set obs) \<and> d' = (if obs = [] then d else snd (last obs))"
  by (induction seen order nm d obs rule: parseOrderBy.induct) (auto split: if_splits sum.splits)

text \<open>
  A query that parses orders by exactly one document-name term, every other term has a
  non-empty path; when the request does not order by the name itself, the name comes last and
  inherits the direction of the last explicit term.
\<close>

theorem Parse_effective_order:
  assumes "Parse parent (Some sq) = Inr q"
  shows "wf_order (Order q) \<and>
    (''__name__'' \<notin> fst ` set (sq_OrderBy sq) \<longrightarrow> IsName (last (Order q))) \<and>
    (sq_OrderBy sq \<noteq> [] \<longrightarrow> map Dir (Order q) =
       map snd (sq_OrderBy sq) @
         (if ''__name__'' \<in> fst ` set (sq_OrderBy sq) then [] else [snd (last (sq_OrderBy sq))]))"
proof -
  obtain order nm d order' nm' d' where
    1: "parseOrderBy [] [] False Asc (sq_OrderBy sq) = Inr (order, nm, d)" and
    2: "implicitOrder (sq_Where sq) (order, nm, d) = Inr (order', nm', d')" and
    q: "Order q = appendNameOrder (order', nm', d')"
    using assms by (metis Parse_order prod_cases3)
  note dirs = parseOrderBy_dirs [OF 1]
  have nm: "nm' = nm" and same: "order \<noteq> [] \<Longrightarrow> order' = order \<and> d' = d"
    using 2 by (auto simp: implicitOrder_def Let_def split: if_splits sum.splits)
  have "sq_OrderBy sq \<noteq> [] \<Longrightarrow> order \<noteq> []" using dirs by auto
  with dirs nm same q show ?thesis
    using Parse_wf_order [OF assms] by (auto simp: appendNameOrder_def)
qed

definition sample_query :: StructuredQuery where
  "sample_query = \<lparr>sq_From = [(''c'', False)], sq_Where = Some (FieldFilter ''a'' GREATER_THAN (IntegerValue 1)),
     sq_OrderBy = [(''a'', Desc)], sq_StartAt = None, sq_EndAt = None, sq_Offset = 0, sq_Limit = None,
     sq_Select = None\<rparr>"

lemma parse_a: "ParseFieldPath ''a'' = Inr [''a'']"
  by (simp add: ParseFieldPath_def parseSegments.simps parseSegment_def)

lemma Parse_sample:
  "Parse ''p'' (Some sample_query) =
     Inr \<lparr>Parent = ''p'', CollectionID = ''c'', AllDescendants = False,
       Where = Some (FieldFilter ''a'' GREATER_THAN (IntegerValue 1)),
       Order = [\<lparr>Path = [''a''], IsName = False, Dir = Desc\<rparr>, \<lparr>Path = [], IsName = True, Dir = Desc\<rparr>],
       Start = None, End = None, Offset = 0, Limit = - 1, Projection = [], KeysOnly = False\<rparr>"
  by (simp add: Parse_def sample_query_def implicitOrder_def appendNameOrder_def withSelect_def
      canonicalizeNameOperands_def parse_a)

theorem Parse_effective_order_witness:
  "\<exists>q. Parse ''p'' (Some sample_query) = Inr q \<and> wf_order (Order q) \<and> map Dir (Order q) = [Desc, Desc]"
  using Parse_effective_order [OF Parse_sample] Parse_sample by (simp add: sample_query_def)

text \<open>
  C23: pagination loses and repeats nothing. When the documents of a parsed query stand in
  query order, resuming with a start-after cursor built from the i-th document selects exactly
  the documents behind it, and ending at that document selects exactly the ones up to it.
\<close>

theorem pagination_exact:
  assumes "Parse parent sqo = Inr q"
    and "sorted_wrt (\<lambda>a b. doc_cmp q a b \<le> 0) xs" "distinct (map fst xs)" "\<forall>d \<in> set xs. valid_doc d"
    and "i < length xs"
  shows "filter (\<lambda>d. InCursorRange (startAfter q (xs ! i)) (doc_key q d)) xs = drop (Suc i) xs \<and>
    filter (\<lambda>d. InCursorRange (endAt q (xs ! i)) (doc_key q d)) xs = take (Suc i) xs"
proof -
  have strict: "sorted_wrt (\<lambda>a b. doc_cmp q a b < 0) xs"
    using assms by (intro sorted_docs_strict Parse_wf_order)
  note le = sorted_strict_split(1) [OF strict assms(4,5)]
  note gt = sorted_strict_split(2) [OF strict assms(4,5)]
  have after: "filter (\<lambda>d. doc_cmp q d (xs ! i) > 0) xs = drop (Suc i) xs"
    using le gt by (intro filter_split) auto
  have "filter (\<lambda>d. doc_cmp q d (xs ! i) \<le> 0) (take (Suc i) xs @ drop (Suc i) xs) = take (Suc i) xs"
    using le gt by (simp only: filter_append) (auto simp: filter_id_conv filter_empty_conv)
  then have "filter (\<lambda>d. doc_cmp q d (xs ! i) \<le> 0) xs = take (Suc i) xs" by simp
  with after show ?thesis by (simp add: InCursorRange_startAfter InCursorRange_endAt)
qed

theorem pagination_exact_witness:
  "\<exists>q. filter (\<lambda>d. InCursorRange (startAfter q (''x'', [(''a'', IntegerValue 2)])) (doc_key q d))
      [(''x'', [(''a'', IntegerValue 2)]), (''y'', [(''a'', IntegerValue 1)])] = [(''y'', [(''a'', IntegerValue 1)])]"
proof -
  let ?xs = "[(''x'', [(''a'', IntegerValue 2)]), (''y'', [(''a'', IntegerValue 1)])]"
  from Parse_sample obtain q where q: "Parse ''p'' (Some sample_query) = Inr q"
    "Order q = [\<lparr>Path = [''a''], IsName = False, Dir = Desc\<rparr>, \<lparr>Path = [], IsName = True, Dir = Desc\<rparr>]"
    by auto
  have "sorted_wrt (\<lambda>a b. doc_cmp q a b \<le> 0) ?xs"
    by (simp add: doc_cmp_def doc_key_def CompareKeys_def OrderKey_def orderValue_def q Compare_number
        int_scaled_def cmp3_def)
  moreover have "\<forall>d \<in> set ?xs. valid_doc d" by (simp add: valid_doc_def valid_fields_def)
  ultimately show ?thesis
    using pagination_exact [OF q(1), of ?xs 0] by (intro exI [of _ q]) simp
qed

text \<open>
  A projection keeps exactly what was selected: at every selected path the projected
  document reads as the document does (present or absent), and at a path unrelated to all
  selected ones it has nothing.
\<close>

theorem projection_exact:
  assumes "\<not> KeysOnly q" "p \<in> set (Projection q)" "p \<noteq> []" "\<forall>s \<in> set (Projection q). s \<parallel> r"
  shows "GetField (ApplyProjection q f) p = GetField f p \<and> GetField (ApplyProjection q f) r = None"
proof -
  from assms(2) have "Projection q \<noteq> []" by auto
  with assms show ?thesis
    using projection_loop [of "[]" f p "Projection q"] projection_loop_other [OF assms(4), of f "[]"]
    by (simp add: ApplyProjection_def)
qed

theorem projection_exact_witness:
  "\<exists>q. GetField (ApplyProjection q [(''a'', NullValue), (''b'', NullValue)]) [''a''] = Some NullValue \<and>
       GetField (ApplyProjection q [(''a'', NullValue), (''b'', NullValue)]) [''b''] = None"
proof -
  define q where "q = \<lparr>Parent = [], CollectionID = ''c'', AllDescendants = False, Where = None, Order = [],
    Start = None, End = None, Offset = 0, Limit = - 1, Projection = [[''a'']], KeysOnly = False\<rparr>"
  show ?thesis
    using projection_exact [of q "[''a'']" "[''b'']" "[(''a'', NullValue), (''b'', NullValue)]"]
    by (intro exI [of _ q]) (simp add: q_def parallel_Cons_iff)
qed

lemma list_operator_loops:
  "inList v els \<longleftrightarrow> (\<exists>el \<in> set els. \<not> IsNull el \<and> \<not> IsNaN el \<and> Compare v el = 0)"
  "notInList v els \<longleftrightarrow> \<not> (\<exists>el \<in> set els. IsNull el \<or> \<not> IsNaN el \<and> Compare v el = 0)"
  "containsAny v els \<longleftrightarrow> (\<exists>el \<in> set els. \<not> IsNull el \<and> \<not> IsNaN el \<and> arrayContains v el)"
proof -
  have nan: "Compare v el = 0 \<Longrightarrow> IsNaN v \<longleftrightarrow> IsNaN el" for el
    using Compare_types [of v el] by (cases "TypeOrder v = TypeOrder el") (simp_all add: IsNaN_def)
  show "inList v els \<longleftrightarrow> (\<exists>el \<in> set els. \<not> IsNull el \<and> \<not> IsNaN el \<and> Compare v el = 0)"
    by (induction els) (use nan in auto)
  show "notInList v els \<longleftrightarrow> \<not> (\<exists>el \<in> set els. IsNull el \<or> \<not> IsNaN el \<and> Compare v el = 0)"
    by (induction els) auto
  show "containsAny v els \<longleftrightarrow> (\<exists>el \<in> set els. \<not> IsNull el \<and> \<not> IsNaN el \<and> arrayContains v el)"
    by (induction els) auto
qed

text \<open>
  The list operators are what their one-element operators say: IN is equality with some
  element that is neither null nor NaN, NOT-IN is inequality with every element that is not NaN
  (and fails on a null element or a null field), ARRAY-CONTAINS-ANY is ARRAY-CONTAINS of some
  element.
\<close>

theorem list_operators:
  "(evalOp IN_LIST v (ArrayValue els) \<longleftrightarrow> (\<exists>el \<in> set els. \<not> IsNull el \<and> \<not> IsNaN el \<and> evalOp EQUAL v el)) \<and>
   (evalOp NOT_IN v (ArrayValue els) \<longleftrightarrow>
      \<not> IsNull v \<and> \<not> (\<exists>el \<in> set els. IsNull el \<or> \<not> IsNaN el \<and> \<not> evalOp NOT_EQUAL v el)) \<and>
   (evalOp ARRAY_CONTAINS_ANY v (ArrayValue els) \<longleftrightarrow> (\<exists>el \<in> set els. evalOp ARRAY_CONTAINS v el))"
  using list_operator_loops by (auto simp: evalOp_def)

end
