(* ===== verification/IndexDef.thy ===== *)
theory IndexDef
  imports Query
begin

text \<open>
  Package \<^verbatim>\<open>index\<close>, files \<^verbatim>\<open>index.go\<close> and \<^verbatim>\<open>config.go\<close>: composite index definitions, their
  canonical specification string and identifier, the keys a document contributes to an index,
  scan prefixes, and the reading of index configurations. A nil byte slice is \<open>None\<close> where
  the source distinguishes it from an empty one.
\<close>

section \<open>Definitions\<close>

record Field =
  fPath :: string
  fDesc :: bool
  fContains :: bool

record Def =
  dCollectionID :: string
  dFields :: "Field list"
  dGroup :: bool

abbreviation (input) "NameField \<equiv> ''__name__''"

fun specField :: "Field \<Rightarrow> string" where
  "specField f =
     CHR ''|'' # fPath f @
       (if fContains f then '' contains'' else if fDesc f then '' desc'' else '' asc'')"

definition Spec :: "Def \<Rightarrow> string" where
  "Spec d = (if dGroup d then ''group:'' else []) @ dCollectionID d @ concat (map specField (dFields d))"

text \<open>\<^verbatim>\<open>fnv.New64a\<close>: the 64-bit FNV-1a hash.\<close>

fun fnv64a :: "uint64 \<Rightarrow> bytes \<Rightarrow> uint64" where
  "fnv64a h [] = h"
| "fnv64a h (b # bs) = fnv64a ((h XOR ucast b) * 1099511628211) bs"

definition ID :: "Def \<Rightarrow> int64" where
  "ID d = fnv64a 14695981039346656037 (bytes_of (Spec d)) AND NOT (push_bit 63 1)"

definition trailingDirection :: "Def \<Rightarrow> bool" where
  "trailingDirection d =
     (if dFields d = [] then False
      else if fContains (last (dFields d)) then False
      else fDesc (last (dFields d)))"

definition ContainsPath :: "Def \<Rightarrow> string option" where
  "ContainsPath d = map_option fPath (find fContains (dFields d))"

section \<open>Keys of a document\<close>

definition appendName :: "bytes \<Rightarrow> string \<Rightarrow> bool \<Rightarrow> bytes" where
  "appendName dst name desc = (if desc then AppendNameKeyDesc dst name else AppendNameKey dst name)"

fun fanOut :: "bytes list \<Rightarrow> bytes list \<Rightarrow> Value list \<Rightarrow> bytes list" where
  "fanOut seen heads [] = []"
| "fanOut seen heads (el # els) =
     (let enc = AppendSortKey [] el in
      if enc \<in> set seen then fanOut seen heads els
      else map (\<lambda>h. h @ enc) heads @ fanOut (enc # seen) heads els)"

text \<open>One component of the index; \<open>None\<close> is the early return of no keys.\<close>

definition keysStep :: "string \<Rightarrow> Fields \<Rightarrow> bytes list \<Rightarrow> Field \<Rightarrow> bytes list option" where
  "keysStep name flds heads f =
     (if fPath f = NameField then Some (map (\<lambda>h. appendName h name (fDesc f)) heads)
      else
        (case ParseFieldPath (fPath f) of
           Inl e \<Rightarrow> None
         | Inr fp \<Rightarrow>
             (case GetField flds fp of
                None \<Rightarrow> None
              | Some v \<Rightarrow>
                  if fContains f then
                    (case v of
                       ArrayValue els \<Rightarrow>
                         let nxt = fanOut [] heads els in if nxt = [] then None else Some nxt
                     | _ \<Rightarrow> None)
                  else
                    Some (map (\<lambda>h. if fDesc f then AppendSortKeyDesc h v else AppendSortKey h v) heads))))"

fun keysLoop :: "string \<Rightarrow> Fields \<Rightarrow> bytes list \<Rightarrow> Field list \<Rightarrow> bytes list option" where
  "keysLoop name flds heads [] = Some heads"
| "keysLoop name flds heads (f # fs) =
     (case keysStep name flds heads f of
        None \<Rightarrow> None
      | Some heads' \<Rightarrow> keysLoop name flds heads' fs)"

definition Keys :: "Def \<Rightarrow> string \<Rightarrow> Fields \<Rightarrow> bytes list" where
  "Keys d name flds =
     (case keysLoop name flds [[]] (dFields d) of
        None \<Rightarrow> []
      | Some heads \<Rightarrow>
          if dFields d = [] \<or> fPath (last (dFields d)) \<noteq> NameField
          then map (\<lambda>h. appendName h name (trailingDirection d)) heads
          else heads)"

fun prefixLoop :: "bytes \<Rightarrow> Field list \<Rightarrow> Value list \<Rightarrow> bytes" where
  "prefixLoop key (f # fs) (v # vs) =
     prefixLoop (if fDesc f then AppendSortKeyDesc key v else AppendSortKey key v) fs vs"
| "prefixLoop key fs vs = key"

definition PrefixKey :: "Def \<Rightarrow> Value list \<Rightarrow> bytes" where
  "PrefixKey d eq = prefixLoop [] (dFields d) eq"

text \<open>The loop from the last byte down; the argument is the reversed prefix.\<close>

fun prefixEndLoop :: "bytes \<Rightarrow> bytes option" where
  "prefixEndLoop [] = None"
| "prefixEndLoop (b # bs) = (if b \<noteq> 0xFF then Some (rev ((b + 1) # bs)) else prefixEndLoop bs)"

definition PrefixEnd :: "bytes \<Rightarrow> bytes option" where
  "PrefixEnd p = prefixEndLoop (rev p)"

definition EncodeID :: "int64 \<Rightarrow> string" where
  "EncodeID id' =
     concat (map (\<lambda>c. [''0123456789abcdef'' ! unat (drop_bit 4 c), ''0123456789abcdef'' ! unat (c AND 0x0F)])
       (be_bytes 8 (unat id')))"

section \<open>Configuration and specification strings\<close>

record fileField =
  ff_FieldPath :: string
  ff_Order :: string
  ff_ArrayConfig :: string
  ff_VectorConfig :: bytes

record fileIndex =
  fi_CollectionGroup :: string
  fi_QueryScope :: string
  fi_Fields :: "fileField list"

datatype skip_reason =
    UnsupportedArrayConfig | MoreThanOneContains | VectorIndex | NoFieldPath | UnrecognisedOrder
  | NoOrderedFields | NameOnly

text \<open>
  \<^verbatim>\<open>strings.EqualFold\<close> against an ASCII constant. Beside the two letter cases, simple Unicode
  folding takes the long s (bytes C5 BF) to s and the Kelvin sign (bytes E2 84 AA) to k.
\<close>

fun foldAscii :: "string \<Rightarrow> string" where
  "foldAscii [] = []"
| "foldAscii (c # s) =
     (if c = CHR 0xC5 \<and> take 1 s = [CHR 0xBF] then CHR ''s'' # foldAscii (drop 1 s)
      else if c = CHR 0xE2 \<and> take 2 s = [CHR 0x84, CHR 0xAA] then CHR ''k'' # foldAscii (drop 2 s)
      else if CHR ''A'' \<le> c \<and> c \<le> CHR ''Z'' then char_of (of_char c + 32 :: nat) # foldAscii s
      else c # foldAscii s)"

definition EqualFold :: "string \<Rightarrow> string \<Rightarrow> bool" where
  "EqualFold s t \<longleftrightarrow> foldAscii s = foldAscii t"

text \<open>The loop over the fields of one entry: the definition so far, or why it is skipped.\<close>

fun configFields :: "Def \<Rightarrow> fileField list \<Rightarrow> skip_reason + Def" where
  "configFields d [] = Inr d"
| "configFields d (ff # ffs) =
     (if ff_ArrayConfig ff \<noteq> [] then
        (if \<not> EqualFold (ff_ArrayConfig ff) ''CONTAINS'' then Inl UnsupportedArrayConfig
         else if ContainsPath d \<noteq> None then Inl MoreThanOneContains
         else configFields
                (d\<lparr>dFields := dFields d @ [\<lparr>fPath = ff_FieldPath ff, fDesc = False, fContains = True\<rparr>]\<rparr>) ffs)
      else if length (ff_VectorConfig ff) > 0 then Inl VectorIndex
      else if ff_FieldPath ff = [] then Inl NoFieldPath
      else
        let desc = EqualFold (ff_Order ff) ''DESCENDING'' in
        if \<not> desc \<and> \<not> EqualFold (ff_Order ff) ''ASCENDING'' then Inl UnrecognisedOrder
        else configFields
               (d\<lparr>dFields := dFields d @ [\<lparr>fPath = ff_FieldPath ff, fDesc = desc, fContains = False\<rparr>]\<rparr>) ffs)"

definition configIndex :: "fileIndex \<Rightarrow> skip_reason + Def" where
  "configIndex fi =
     (case configFields \<lparr>dCollectionID = fi_CollectionGroup fi, dFields = [],
             dGroup = EqualFold (fi_QueryScope fi) ''COLLECTION_GROUP''\<rparr> (fi_Fields fi) of
        Inl r \<Rightarrow> Inl r
      | Inr d \<Rightarrow>
          if dFields d = [] then Inl NoOrderedFields
          else if fPath (last (dFields d)) = NameField then
            (if butlast (dFields d) = [] then Inl NameOnly else Inr (d\<lparr>dFields := butlast (dFields d)\<rparr>))
          else Inr d)"

fun configLoop ::
  "Def list \<Rightarrow> (string \<times> skip_reason) list \<Rightarrow> int64 list \<Rightarrow> fileIndex list \<Rightarrow>
   (Def list \<times> (string \<times> skip_reason) list) option" where
  "configLoop defs skipped seen [] = Some (defs, skipped)"
| "configLoop defs skipped seen (fi # fis) =
     (if fi_CollectionGroup fi = [] then None
      else
        (case configIndex fi of
           Inl r \<Rightarrow> configLoop defs (skipped @ [(fi_CollectionGroup fi, r)]) seen fis
         | Inr d \<Rightarrow>
             if ID d \<in> set seen then configLoop defs skipped seen fis
             else configLoop (defs @ [d]) skipped (ID d # seen) fis))"

text \<open>\<^verbatim>\<open>ParseConfig\<close> after the JSON decoder; \<open>None\<close> is its error return.\<close>

definition ParseConfig :: "fileIndex list \<Rightarrow> (Def list \<times> (string \<times> skip_reason) list) option" where
  "ParseConfig indexes = configLoop [] [] [] indexes"

definition CutPrefix :: "string \<Rightarrow> string \<Rightarrow> string \<times> bool" where
  "CutPrefix s p = (if take (length p) s = p then (drop (length p) s, True) else (s, False))"

definition Cut :: "string \<Rightarrow> char \<Rightarrow> string \<times> string \<times> bool" where
  "Cut s sep =
     (case dropWhile (\<lambda>c. c \<noteq> sep) s of
        [] \<Rightarrow> (s, [], False)
      | _ # rest \<Rightarrow> (takeWhile (\<lambda>c. c \<noteq> sep) s, rest, True))"

definition parseSpecField :: "string \<Rightarrow> Field option" where
  "parseSpecField p =
     (case Cut p CHR '' '' of (path, dir, ok) \<Rightarrow>
        if \<not> ok \<or> path = [] then None
        else if dir = ''asc'' then Some \<lparr>fPath = path, fDesc = False, fContains = False\<rparr>
        else if dir = ''desc'' then Some \<lparr>fPath = path, fDesc = True, fContains = False\<rparr>
        else if dir = ''contains'' then Some \<lparr>fPath = path, fDesc = False, fContains = True\<rparr>
        else None)"

fun parseSpecFields :: "Field list \<Rightarrow> string list \<Rightarrow> Field list option" where
  "parseSpecFields fs [] = Some fs"
| "parseSpecFields fs (p # ps) =
     (case parseSpecField p of None \<Rightarrow> None | Some f \<Rightarrow> parseSpecFields (fs @ [f]) ps)"

definition ParseSpec :: "string \<Rightarrow> Def option" where
  "ParseSpec spec0 =
     (case CutPrefix spec0 ''group:'' of (spec, grp) \<Rightarrow>
        (case splitOn CHR ''|'' spec of
           [] \<Rightarrow> None
         | cid # ps \<Rightarrow>
             if ps = [] \<or> cid = [] then None
             else map_option (\<lambda>fs. \<lparr>dCollectionID = cid, dFields = fs, dGroup = grp\<rparr>)
                    (parseSpecFields [] ps)))"

section \<open>The end of a prefix range\<close>

lemma prefixEndLoop_snoc:
  "prefixEndLoop (u @ [b]) =
     (case prefixEndLoop u of Some e \<Rightarrow> Some (b # e) | None \<Rightarrow> if b \<noteq> 0xFF then Some [b + 1] else None)"
  by (induction u) auto

lemma PrefixEnd_simps [simp]:
  "PrefixEnd [] = None"
  "PrefixEnd (b # p) =
     (case PrefixEnd p of Some e \<Rightarrow> Some (b # e) | None \<Rightarrow> if b \<noteq> 0xFF then Some [b + 1] else None)"
  by (simp_all add: PrefixEnd_def prefixEndLoop_snoc)

lemma byte_FF: "(0xFF :: byte) = - 1"
  by simp

lemma byte_succ: "b \<noteq> 0xFF \<Longrightarrow> x < b + 1 \<longleftrightarrow> x \<le> b" for b x :: byte
proof -
  assume b: "b \<noteq> 0xFF"
  have "unat (0xFF :: byte) = 255" by simp
  with b have "unat b \<noteq> 255" by (metis unsigned_word_eqI)
  moreover have "unat b < 256" using unsigned_less [of b, where ?'a = nat] by simp
  ultimately have "unat (b + 1) = unat b + 1" by (simp add: unat_word_ariths)
  then show ?thesis by (simp add: word_less_nat_alt word_le_nat_alt less_Suc_eq_le)
qed

lemma byte_max: "x \<le> (0xFF :: byte)"
  unfolding byte_FF by (rule word_n1_ge)

text \<open>The range from a prefix to its end holds exactly the extensions of the prefix.\<close>

lemma PrefixEnd_range:
  "prefix p k \<longleftrightarrow> p \<le> k \<and> (case PrefixEnd p of None \<Rightarrow> True | Some e \<Rightarrow> k < e)"
proof (induction p arbitrary: k)
  case (Cons b p)
  show ?case
  proof (cases k)
    case Nil
    then show ?thesis by simp
  next
    case (Cons c k')
    then show ?thesis
      using Cons.IH [of k'] byte_succ [of b c] byte_max [of c]
      by (cases "PrefixEnd p") (auto simp: le_less)
  qed
qed simp

section \<open>Keys as encoded tuples\<close>

text \<open>
  The values a document offers for one component of an index: none when the field is missing,
  one for an ordered component, the elements for an array-contains component, the name itself
  for the name component.
\<close>

definition fieldValues :: "string \<Rightarrow> Fields \<Rightarrow> Field \<Rightarrow> Value list" where
  "fieldValues name flds f =
     (if fPath f = NameField then [ReferenceValue name]
      else
        (case ParseFieldPath (fPath f) of
           Inl e \<Rightarrow> []
         | Inr fp \<Rightarrow>
             (case GetField flds fp of
                None \<Rightarrow> []
              | Some v \<Rightarrow> if fContains f then GetArrayValues v else [v])))"

definition fieldEnc :: "Field \<Rightarrow> Value \<Rightarrow> bytes" where
  "fieldEnc f v =
     (let k = (if fPath f = NameField then nameKey (GetReferenceValue v) else sortKey v)
      in if fDesc f then complement k else k)"

fun fieldsKey :: "Field list \<Rightarrow> Value list \<Rightarrow> bytes" where
  "fieldsKey (f # fs) (v # vs) = fieldEnc f v @ fieldsKey fs vs"
| "fieldsKey fs vs = []"

definition fieldOrder :: "Field \<Rightarrow> OrderSpec" where
  "fieldOrder f = \<lparr>Path = [], IsName = (fPath f = NameField), Dir = (if fDesc f then Desc else Asc)\<rparr>"

definition field_ok :: "Field \<Rightarrow> Value \<Rightarrow> bool" where
  "field_ok f v \<longleftrightarrow> valid_value v \<and> (fPath f = NameField \<longrightarrow> (\<exists>r. v = ReferenceValue r))"

definition fields_ok :: "Field list \<Rightarrow> Value list \<Rightarrow> bool" where
  "fields_ok fs vs \<longleftrightarrow> list_all2 field_ok fs vs"

definition wf_field :: "Field \<Rightarrow> bool" where
  "wf_field f \<longleftrightarrow> (fContains f \<longrightarrow> \<not> fDesc f \<and> fPath f \<noteq> NameField)"

lemma fieldEnc_cmp:
  assumes "field_ok f a" "field_ok f b"
  shows "bytes_Compare (fieldEnc f a @ x) (fieldEnc f b @ y) =
    then_cmp (Compare a b * dir_int (Dir (fieldOrder f))) (bytes_Compare x y)"
proof (cases "fPath f = NameField")
  case True
  with assms obtain r r' where "a = ReferenceValue r" "b = ReferenceValue r'" by (auto simp: field_ok_def)
  with True show ?thesis
    using name_key.enc_cmp [where a = r and b = r'] name_key.enc_desc_cmp [where a = r and b = r']
    by (simp add: fieldEnc_def fieldOrder_def)
next
  case False
  with assms show ?thesis
    using value_key.enc_cmp [of a b] value_key.enc_desc_cmp [of a b]
    by (simp add: fieldEnc_def fieldOrder_def field_ok_def)
qed

lemma fieldsKey_cmp:
  assumes "fields_ok fs as" "fields_ok fs bs"
  shows "bytes_Compare (fieldsKey fs as @ x) (fieldsKey fs bs @ y) =
    then_cmp (compareTuples (map fieldOrder fs) as bs) (bytes_Compare x y)"
  using assms
proof (induction fs arbitrary: as bs)
  case (Cons f fs)
  then obtain a as' b bs' where "as = a # as'" "bs = b # bs'"
    by (auto simp: fields_ok_def list_all2_Cons1)
  with Cons show ?case by (simp add: fields_ok_def fieldEnc_cmp then_cmp_assoc)
qed (simp add: fields_ok_def)

interpretation index_key: key_encoding "fieldsKey fs" "compareTuples (map fieldOrder fs)" "fields_ok fs" for fs
  by unfold_locales (rule fieldsKey_cmp)

lemma appendName_eq: "fPath f = NameField \<Longrightarrow> appendName h name (fDesc f) = h @ fieldEnc f (ReferenceValue name)"
  by (simp add: appendName_def fieldEnc_def)

definition keySet :: "bytes list option \<Rightarrow> bytes set" where
  "keySet r = (case r of None \<Rightarrow> {} | Some hs \<Rightarrow> set hs)"

text \<open>All extensions of a set of heads by a set of encodings.\<close>

definition extend_all :: "bytes set \<Rightarrow> bytes set \<Rightarrow> bytes set" where
  "extend_all hs es = (\<Union>h \<in> hs. (@) h ` es)"

lemma extend_simps [simp]: "extend_all hs {} = {}" "extend_all hs {[]} = hs" "extend_all {[]} es = es"
  by (auto simp: extend_all_def)

lemma extend_insert: "extend_all hs (insert e es) = (\<lambda>h. h @ e) ` hs \<union> extend_all hs es"
  by (auto simp: extend_all_def)

lemma extend_assoc: "extend_all (extend_all hs es) gs = extend_all hs (extend_all es gs)"
  by (auto simp: extend_all_def image_iff)

lemma in_extend: "k \<in> extend_all hs es \<longleftrightarrow> (\<exists>h \<in> hs. \<exists>e \<in> es. k = h @ e)"
  by (auto simp: extend_all_def)

lemma set_fanOut: "set (fanOut seen heads els) = extend_all (set heads) (sortKey ` set els - set seen)"
proof (induction els arbitrary: seen)
  case (Cons el els)
  have "insert e E - S = insert e (E - insert e S)" if "e \<notin> S" for e :: bytes and E S using that by auto
  with Cons show ?case by (simp add: Let_def extend_insert insert_Diff_if)
qed simp

lemma keysStep_set:
  "wf_field f \<Longrightarrow> keySet (keysStep name flds heads f) =
     extend_all (set heads) (fieldEnc f ` set (fieldValues name flds f))"
proof (cases "fPath f = NameField")
  case True
  then show ?thesis by (auto simp: keySet_def keysStep_def fieldValues_def appendName_eq extend_insert)
next
  case False
  assume wf: "wf_field f"
  show ?thesis
  proof (cases "ParseFieldPath (fPath f)")
    case (Inl e)
    with False show ?thesis by (simp add: keySet_def keysStep_def fieldValues_def)
  next
    case (Inr fp)
    show ?thesis
    proof (cases "GetField flds fp")
      case None
      with False Inr show ?thesis by (simp add: keySet_def keysStep_def fieldValues_def)
    next
      case (Some v)
      show ?thesis
      proof (cases "fContains f")
        case True
        with wf have enc: "fieldEnc f = sortKey" using False by (auto simp: fieldEnc_def wf_field_def)
        have set: "set (fanOut [] heads (GetArrayValues v)) = extend_all (set heads) (sortKey ` set (GetArrayValues v))"
          by (simp add: set_fanOut)
        show ?thesis
        proof (cases "fanOut [] heads (GetArrayValues v) = []")
          case True
          with set show ?thesis
            using \<open>fContains f\<close> False Inr Some
            by (cases v) (simp_all add: keySet_def keysStep_def fieldValues_def Let_def enc)
        next
          case nonempty: False
          then obtain els where "v = ArrayValue els" by (cases v) auto
          with set nonempty \<open>fContains f\<close> False Inr Some show ?thesis
            by (simp add: keySet_def keysStep_def fieldValues_def Let_def enc)
        qed
      next
        case F: False
        then show ?thesis
          using False Inr Some by (auto simp: keySet_def keysStep_def fieldValues_def fieldEnc_def extend_insert)
      qed
    qed
  qed
qed

definition keyTuples :: "string \<Rightarrow> Fields \<Rightarrow> Field list \<Rightarrow> Value list set" where
  "keyTuples name flds fs = {vs. list_all2 (\<lambda>f v. v \<in> set (fieldValues name flds f)) fs vs}"

lemma keyTuples_simps:
  "keyTuples name flds [] = {[]}"
  "fieldsKey (f # fs) ` keyTuples name flds (f # fs) =
     extend_all (fieldEnc f ` set (fieldValues name flds f)) (fieldsKey fs ` keyTuples name flds fs)"
proof -
  have "keyTuples name flds (f # fs) =
      (\<Union>v \<in> set (fieldValues name flds f). (#) v ` keyTuples name flds fs)"
    by (auto simp: keyTuples_def list_all2_Cons1)
  then show "fieldsKey (f # fs) ` keyTuples name flds (f # fs) =
      extend_all (fieldEnc f ` set (fieldValues name flds f)) (fieldsKey fs ` keyTuples name flds fs)"
    by (simp add: extend_all_def image_UN image_image)
qed (simp add: keyTuples_def)

lemma keysLoop_set:
  "\<forall>f \<in> set fs. wf_field f \<Longrightarrow>
   keySet (keysLoop name flds heads fs) = extend_all (set heads) (fieldsKey fs ` keyTuples name flds fs)"
proof (induction fs arbitrary: heads)
  case Nil
  then show ?case by (simp add: keySet_def keyTuples_simps)
next
  case (Cons f fs)
  have step: "keySet (keysStep name flds heads f) = extend_all (set heads) (fieldEnc f ` set (fieldValues name flds f))"
    using Cons.prems by (intro keysStep_set) simp
  show ?case
  proof (cases "keysStep name flds heads f")
    case None
    with step have none: "extend_all (set heads) (fieldEnc f ` set (fieldValues name flds f)) = {}"
      by (simp add: keySet_def)
    show ?thesis unfolding keyTuples_simps extend_assoc [symmetric] none using None
      by (simp add: keySet_def extend_all_def)
  next
    case (Some heads')
    with step have "set heads' = extend_all (set heads) (fieldEnc f ` set (fieldValues name flds f))"
      by (simp add: keySet_def)
    then show ?thesis unfolding keyTuples_simps extend_assoc [symmetric] using Some Cons by simp
  qed
qed

definition effectiveFields :: "Def \<Rightarrow> Field list" where
  "effectiveFields d =
     (if length (dFields d) > 0 \<and> fPath (last (dFields d)) = NameField then dFields d
      else dFields d @ [\<lparr>fPath = NameField, fDesc = trailingDirection d, fContains = False\<rparr>])"

lemma Keys_keysLoop:
  "set (Keys d name flds) = keySet (keysLoop name flds [[]] (effectiveFields d))"
proof -
  have snoc: "keysLoop name flds heads (fs @ [f]) =
      (case keysLoop name flds heads fs of None \<Rightarrow> None | Some h \<Rightarrow> keysStep name flds h f)" for heads fs f
    by (induction fs arbitrary: heads) (auto split: option.split)
  show ?thesis
    by (auto simp: Keys_def effectiveFields_def snoc keysStep_def keySet_def split: option.split)
qed

lemma set_Keys:
  assumes "\<forall>f \<in> set (dFields d). wf_field f"
  shows "set (Keys d name flds) = fieldsKey (effectiveFields d) ` keyTuples name flds (effectiveFields d)"
proof -
  have "\<forall>f \<in> set (effectiveFields d). wf_field f"
    using assms by (auto simp: effectiveFields_def wf_field_def)
  from keysLoop_set [OF this, of name flds "[[]]"] show ?thesis by (simp add: Keys_keysLoop)
qed

section \<open>Keys of one document do not collide\<close>

lemma sortKey_parallel: "valid_value a \<Longrightarrow> valid_value b \<Longrightarrow> sortKey a \<noteq> sortKey b \<Longrightarrow> sortKey a \<parallel> sortKey b"
  using value_key.enc_prefix_free [of a b] value_key.enc_prefix_free [of b a] by (auto simp: parallel_def)

lemma parallel_same_head: "e \<parallel> e' \<Longrightarrow> (h @ e) \<parallel> (h @ e')"
  by (simp add: parallel_def)

lemma sorted_parallel_map_append:
  "sorted_wrt (\<parallel>) heads \<Longrightarrow> sorted_wrt (\<parallel>) (map (\<lambda>h. h @ g h) heads)"
  by (auto simp: sorted_wrt_map elim!: sorted_wrt_mono_rel [rotated] intro: parallel_append)

lemma sorted_parallel_sym:
  "sorted_wrt (\<parallel>) xs \<Longrightarrow> x \<in> set xs \<Longrightarrow> y \<in> set xs \<Longrightarrow> x \<noteq> y \<Longrightarrow> x \<parallel> y"
  by (induction xs) (auto simp: parallel_commute)

lemma fanOut_parallel:
  assumes "sorted_wrt (\<parallel>) heads" "\<forall>e \<in> set els. valid_value e"
  shows "sorted_wrt (\<parallel>) (fanOut seen heads els)"
  using assms(2)
proof (induction els arbitrary: seen)
  case (Cons el els)
  have "(h @ sortKey el) \<parallel> (h' @ sortKey e)"
    if "h \<in> set heads" "h' \<in> set heads" "e \<in> set els" "sortKey e \<noteq> sortKey el" for h h' e
  proof (cases "h = h'")
    case True
    with that Cons.prems show ?thesis
      using sortKey_parallel [of el e] by (auto intro!: parallel_same_head)
  next
    case False
    with that sorted_parallel_sym [OF assms(1)] show ?thesis by (blast intro: parallel_append)
  qed
  then have cross: "\<forall>x \<in> set (map (\<lambda>h. h @ sortKey el) heads).
      \<forall>y \<in> set (fanOut (sortKey el # seen) heads els). x \<parallel> y"
    by (simp add: set_fanOut extend_all_def) blast
  show ?case
    using Cons sorted_parallel_map_append [OF assms(1), of "\<lambda>_. sortKey el"] cross
    by (simp add: Let_def sorted_wrt_append)
qed simp

lemma keysStep_parallel:
  assumes "sorted_wrt (\<parallel>) heads" "valid_fields flds" "keysStep name flds heads f = Some heads'"
  shows "sorted_wrt (\<parallel>) heads'"
proof -
  have "\<forall>e \<in> set els. valid_value e" if "GetField flds fp = Some (ArrayValue els)" for fp els
    using valid_GetField [OF assms(2) that] by simp
  with assms show ?thesis
    by (cases "fDesc f") (auto simp: keysStep_def appendName_def Let_def sorted_parallel_map_append fanOut_parallel
        split: if_splits sum.splits option.splits Value.splits)
qed

lemma keysLoop_parallel:
  "sorted_wrt (\<parallel>) heads \<Longrightarrow> valid_fields flds \<Longrightarrow> keysLoop name flds heads fs = Some heads' \<Longrightarrow>
   sorted_wrt (\<parallel>) heads'"
  by (induction fs arbitrary: heads) (auto split: option.splits intro: keysStep_parallel)

lemma sorted_parallel_distinct: "sorted_wrt (\<parallel>) xs \<Longrightarrow> distinct xs"
  by (induction xs) (auto simp: parallel_def)

section \<open>Specification strings\<close>

definition spec_safe :: "Def \<Rightarrow> bool" where
  "spec_safe d \<longleftrightarrow> dFields d \<noteq> [] \<and> dCollectionID d \<noteq> [] \<and> CHR ''|'' \<notin> set (dCollectionID d) \<and>
     (dGroup d \<or> take 6 (dCollectionID d) \<noteq> ''group:'') \<and>
     (\<forall>f \<in> set (dFields d). fPath f \<noteq> [] \<and> CHR ''|'' \<notin> set (fPath f) \<and> CHR '' '' \<notin> set (fPath f) \<and>
        (fContains f \<longrightarrow> \<not> fDesc f))"

definition dirWord :: "Field \<Rightarrow> string" where
  "dirWord f = (if fContains f then ''contains'' else if fDesc f then ''desc'' else ''asc'')"

lemma specField_eq: "specField f = CHR ''|'' # fPath f @ CHR '' '' # dirWord f"
  by (simp add: dirWord_def)

declare specField.simps [simp del]

lemma joinWith_Cons_head: "joinWith c ((x # s) # ts) = x # joinWith c (s # ts)"
  by (cases ts) simp_all

lemma spec_join:
  "cid @ concat (map specField fs) = joinWith CHR ''|'' (cid # map (\<lambda>f. fPath f @ CHR '' '' # dirWord f) fs)"
  by (induction fs arbitrary: cid) (simp_all add: specField_eq joinWith_Cons_head)

lemma Cut_append: "c \<notin> set p \<Longrightarrow> Cut (p @ c # r) c = (p, r, True)"
  by (induction p) (auto simp: Cut_def split: list.splits)

lemma parseSpecField_spec:
  "fPath f \<noteq> [] \<Longrightarrow> CHR '' '' \<notin> set (fPath f) \<Longrightarrow> (fContains f \<longrightarrow> \<not> fDesc f) \<Longrightarrow>
   parseSpecField (fPath f @ CHR '' '' # dirWord f) = Some f"
  by (cases f) (auto simp: parseSpecField_def Cut_append dirWord_def)

lemma parseSpecFields_spec:
  "\<forall>f \<in> set fs. fPath f \<noteq> [] \<and> CHR '' '' \<notin> set (fPath f) \<and> (fContains f \<longrightarrow> \<not> fDesc f) \<Longrightarrow>
   parseSpecFields acc (map (\<lambda>f. fPath f @ CHR '' '' # dirWord f) fs) = Some (acc @ fs)"
  by (induction fs arbitrary: acc) (auto simp: parseSpecField_spec)

lemma dirWord_no_bar: "CHR ''|'' \<notin> set (dirWord f)"
  by (simp add: dirWord_def)

lemma take_group: "CHR ''|'' \<notin> set cid \<Longrightarrow> take 6 (cid @ CHR ''|'' # r) = ''group:'' \<Longrightarrow> take 6 cid = ''group:''"
proof (cases "length cid < 6")
  case True
  assume cid: "CHR ''|'' \<notin> set cid" and eq: "take 6 (cid @ CHR ''|'' # r) = ''group:''"
  from True have "CHR ''|'' \<in> set (take 6 (cid @ CHR ''|'' # r))"
    by (cases "6 - length cid") auto
  then show ?thesis unfolding eq by simp
qed simp

section \<open>Reading configurations\<close>

definition config_ok :: "Def \<Rightarrow> bool" where
  "config_ok d \<longleftrightarrow> length (filter fContains (dFields d)) \<le> 1 \<and> (\<forall>f \<in> set (dFields d). fContains f \<longrightarrow> \<not> fDesc f)"

lemma ContainsPath_None: "ContainsPath d = None \<Longrightarrow> filter fContains (dFields d) = []"
  by (simp add: ContainsPath_def find_None_iff filter_empty_conv)

lemma configFields_ok: "configFields d ffs = Inr d' \<Longrightarrow> config_ok d \<Longrightarrow> config_ok d'"
proof (induction d ffs rule: configFields.induct)
  case (2 d ff ffs)
  have "ContainsPath d = None \<Longrightarrow>
      config_ok (d\<lparr>dFields := dFields d @ [\<lparr>fPath = ff_FieldPath ff, fDesc = False, fContains = True\<rparr>]\<rparr>)"
    using 2(4) ContainsPath_None [of d] by (auto simp: config_ok_def)
  moreover have "config_ok (d\<lparr>dFields := dFields d @ [\<lparr>fPath = ff_FieldPath ff, fDesc = b, fContains = False\<rparr>]\<rparr>)" for b
    using 2(4) by (auto simp: config_ok_def)
  ultimately show ?case using 2(1,2) 2(3) by (auto simp: Let_def split: if_splits)
qed simp

lemma filter_butlast_length: "length (filter P (butlast xs)) \<le> length (filter P xs)"
  by (cases xs rule: rev_cases) auto

lemma configIndex_ok: "configIndex fi = Inr d \<Longrightarrow> config_ok d \<and> dFields d \<noteq> []"
proof -
  assume fi: "configIndex fi = Inr d"
  let ?d0 = "\<lparr>dCollectionID = fi_CollectionGroup fi, dFields = [], dGroup = EqualFold (fi_QueryScope fi) ''COLLECTION_GROUP''\<rparr>"
  have "config_ok ?d0" by (simp add: config_ok_def)
  with fi obtain d' where d': "config_ok d'" and
    d: "d = d' \<and> dFields d' \<noteq> [] \<or> d = d'\<lparr>dFields := butlast (dFields d')\<rparr> \<and> butlast (dFields d') \<noteq> []"
    by (auto simp: configIndex_def split: sum.splits if_splits dest: configFields_ok)
  from d' have "config_ok (d'\<lparr>dFields := butlast (dFields d')\<rparr>)"
    using filter_butlast_length [of fContains "dFields d'"] by (auto simp: config_ok_def dest: in_set_butlastD)
  with d d' show ?thesis by auto
qed

lemma configLoop_spec:
  assumes "configLoop defs skipped seen fis = Some (defs', skipped')"
    and "set seen = ID ` set defs" "distinct (map ID defs)"
    and "\<forall>d \<in> set defs. config_ok d \<and> dFields d \<noteq> []"
  shows "distinct (map ID defs') \<and> (\<forall>d \<in> set defs'. config_ok d \<and> dFields d \<noteq> []) \<and>
    set defs \<subseteq> set defs' \<and> set skipped \<subseteq> set skipped' \<and>
    (\<forall>fi \<in> set fis. case configIndex fi of
        Inl r \<Rightarrow> (fi_CollectionGroup fi, r) \<in> set skipped'
      | Inr d \<Rightarrow> ID d \<in> ID ` set defs')"
  using assms
proof (induction defs skipped seen fis rule: configLoop.induct)
  case (2 defs skipped seen fi fis)
  from 2(4) have cg: "fi_CollectionGroup fi \<noteq> []" by (auto split: if_splits)
  show ?case
  proof (cases "configIndex fi")
    case (Inl r)
    with 2(1) [OF cg Inl] 2(4-) cg show ?thesis by auto
  next
    case (Inr d)
    show ?thesis
    proof (cases "ID d \<in> set seen")
      case True
      with 2(2) [OF cg Inr True] 2(4-) cg Inr show ?thesis by auto
    next
      case False
      with 2(3) [OF cg Inr False] 2(4-) cg Inr configIndex_ok [OF Inr] show ?thesis by auto
    qed
  qed
qed simp

section \<open>Properties of index definitions\<close>

text \<open>
  The bytes from a prefix up to its end are exactly the keys that extend the prefix; when
  there is no end (an empty or all-FF prefix) every key from the prefix on extends it.
\<close>

theorem prefix_range_exact:
  "prefix p k \<longleftrightarrow> bytes_Compare p k \<le> 0 \<and> (case PrefixEnd p of None \<Rightarrow> True | Some e \<Rightarrow> bytes_Compare k e < 0)"
  using PrefixEnd_range [of p k] by (simp add: bytes_Compare_cmp3 split: option.splits)

text \<open>
  The entries one document contributes to an index are pairwise distinct (none is even a
  prefix of another), whatever its arrays repeat, so they cannot collide on the entry table's
  primary key.
\<close>

theorem Keys_distinct:
  assumes "valid_fields flds"
  shows "distinct (Keys d name flds) \<and> sorted_wrt (\<parallel>) (Keys d name flds)"
proof -
  have "sorted_wrt (\<parallel>) (Keys d name flds)"
    using keysLoop_parallel [OF _ assms, of "[[]]" name "dFields d"]
    by (cases "trailingDirection d")
      (auto simp: Keys_def appendName_def sorted_parallel_map_append split: option.splits)
  then show ?thesis by (simp add: sorted_parallel_distinct)
qed

definition tags_index :: Def where
  "tags_index = \<lparr>dCollectionID = ''c'',
     dFields = [\<lparr>fPath = ''a'', fDesc = False, fContains = True\<rparr>], dGroup = False\<rparr>"

theorem Keys_distinct_witness:
  "distinct (Keys tags_index ''d'' [(''a'', ArrayValue [NullValue, NullValue, BooleanValue True])]) \<and>
   length (Keys tags_index ''d'' [(''a'', ArrayValue [NullValue, NullValue, BooleanValue True])]) = 2"
  using Keys_distinct [of "[(''a'', ArrayValue [NullValue, NullValue, BooleanValue True])]" tags_index "''d''"]
  by (simp add: valid_fields_def)
    (simp add: Keys_def tags_index_def keysStep_def parse_a Let_def sortKey_simps)

lemma ParseSpec_Spec:
  assumes "spec_safe d"
  shows "ParseSpec (Spec d) = Some d"
proof -
  let ?part = "\<lambda>f. fPath f @ CHR '' '' # dirWord f"
  note safe = assms [unfolded spec_safe_def]
  have body: "splitOn CHR ''|'' (dCollectionID d @ concat (map specField (dFields d))) =
      dCollectionID d # map ?part (dFields d)"
    unfolding spec_join using safe dirWord_no_bar by (intro splitOn_joinWith) auto
  have cut: "CutPrefix (Spec d) ''group:'' = (dCollectionID d @ concat (map specField (dFields d)), dGroup d)"
  proof (cases "dGroup d")
    case False
    obtain f fs where "dFields d = f # fs" using safe by (cases "dFields d") auto
    with False safe have "take 6 (Spec d) \<noteq> ''group:''"
      using take_group [of "dCollectionID d"] by (auto simp: Spec_def specField_eq simp del: take_append)
    moreover have "length ''group:'' = 6" by simp
    ultimately show ?thesis using False by (simp only: CutPrefix_def) (simp add: Spec_def)
  qed (simp add: CutPrefix_def Spec_def)
  have "parseSpecFields [] (map ?part (dFields d)) = Some (dFields d)"
    using safe parseSpecFields_spec [of "dFields d" "[]"] by simp
  with body cut safe show ?thesis by (simp add: ParseSpec_def)
qed

text \<open>
  A definition whose names avoid the separator characters is recovered from its
  specification string, so the registry can rebuild from the database what was registered; in
  particular two such definitions with the same specification are the same.
\<close>

theorem spec_round_trip:
  assumes "spec_safe d"
  shows "ParseSpec (Spec d) = Some d"
  using assms by (rule ParseSpec_Spec)

theorem spec_round_trip_witness:
  "ParseSpec (Spec tags_index) = Some tags_index"
  by (rule spec_round_trip) (simp add: spec_safe_def tags_index_def)

text \<open>
  Reading a configuration drops nothing silently: every entry is either reported as skipped
  with its reason or represented among the definitions by its identifier; the definitions have
  distinct identifiers, at least one field and at most one array-contains field, which carries
  no direction.
\<close>

theorem ParseConfig_complete:
  assumes "ParseConfig fis = Some (defs, skipped)"
  shows "distinct (map ID defs) \<and> (\<forall>d \<in> set defs. config_ok d \<and> dFields d \<noteq> []) \<and>
    (\<forall>fi \<in> set fis. case configIndex fi of
        Inl r \<Rightarrow> (fi_CollectionGroup fi, r) \<in> set skipped
      | Inr d \<Rightarrow> ID d \<in> ID ` set defs)"
  using configLoop_spec [OF assms [unfolded ParseConfig_def]] by auto

theorem ParseConfig_complete_witness:
  "\<exists>defs. ParseConfig [\<lparr>fi_CollectionGroup = ''c'', fi_QueryScope = ''COLLECTION'', fi_Fields = []\<rparr>] =
     Some (defs, [(''c'', NoOrderedFields)]) \<and> distinct (map ID defs)"
proof -
  have "ParseConfig [\<lparr>fi_CollectionGroup = ''c'', fi_QueryScope = ''COLLECTION'', fi_Fields = []\<rparr>] =
      Some ([], [(''c'', NoOrderedFields)])"
    by (simp add: ParseConfig_def configIndex_def)
  from ParseConfig_complete [OF this] this show ?thesis by blast
qed

end
