(* ===== verification/Plan.thy ===== *)
theory Plan
  imports IndexDef
begin

text \<open>
  Package \<^verbatim>\<open>index\<close>, file \<^verbatim>\<open>plan.go\<close>: deciding whether an index can serve a query, and with
  what byte ranges. Maps from field paths to operands are association lists with distinct
  keys; pointers that may be nil are options, and the pointers the filter walk fills in are a
  record it passes along.
\<close>

section \<open>Splitting a filter\<close>

datatype ineqOp = Gt | Gte | Lt | Lte

record inequality =
  iPath :: string
  iOp :: ineqOp
  iValue :: Value

record inFilter =
  inPath :: string
  inValues :: "Value list"
  inContains :: bool

type_synonym eqMap = "(string \<times> Value) list"

record collected =
  c_eq :: eqMap
  c_ineq :: "inequality option"
  c_in :: "inFilter option"
  c_contains :: "(string \<times> Value) option"

definition collectField :: "string \<Rightarrow> FieldOp \<Rightarrow> Value \<Rightarrow> collected \<Rightarrow> collected option" where
  "collectField path op v st =
     (if path = NameField then None
      else
        (case op of
           EQUAL \<Rightarrow>
             if map_of (c_eq st) path \<noteq> None then None
             else Some (st\<lparr>c_eq := AList.update path v (c_eq st)\<rparr>)
         | GREATER_THAN \<Rightarrow>
             if c_ineq st \<noteq> None then None
             else Some (st\<lparr>c_ineq := Some \<lparr>iPath = path, iOp = Gt, iValue = v\<rparr>\<rparr>)
         | GREATER_THAN_OR_EQUAL \<Rightarrow>
             if c_ineq st \<noteq> None then None
             else Some (st\<lparr>c_ineq := Some \<lparr>iPath = path, iOp = Gte, iValue = v\<rparr>\<rparr>)
         | LESS_THAN \<Rightarrow>
             if c_ineq st \<noteq> None then None
             else Some (st\<lparr>c_ineq := Some \<lparr>iPath = path, iOp = Lt, iValue = v\<rparr>\<rparr>)
         | LESS_THAN_OR_EQUAL \<Rightarrow>
             if c_ineq st \<noteq> None then None
             else Some (st\<lparr>c_ineq := Some \<lparr>iPath = path, iOp = Lte, iValue = v\<rparr>\<rparr>)
         | ARRAY_CONTAINS \<Rightarrow>
             if c_contains st \<noteq> None then None
             else Some (st\<lparr>c_contains := Some (path, v)\<rparr>)
         | IN_LIST \<Rightarrow>
             if c_in st \<noteq> None \<or> GetArrayValues v = [] then None
             else Some (st\<lparr>c_in := Some \<lparr>inPath = path, inValues = GetArrayValues v, inContains = False\<rparr>\<rparr>)
         | ARRAY_CONTAINS_ANY \<Rightarrow>
             if c_in st \<noteq> None \<or> GetArrayValues v = [] then None
             else Some (st\<lparr>c_in := Some \<lparr>inPath = path, inValues = GetArrayValues v, inContains = True\<rparr>\<rparr>)
         | _ \<Rightarrow> None))"

fun collect :: "Filter \<Rightarrow> collected \<Rightarrow> collected option"
  and collectAll :: "Filter list \<Rightarrow> collected \<Rightarrow> collected option" where
  "collect (CompositeFilter op subs) st = (if op \<noteq> CompositeAnd then None else collectAll subs st)"
| "collect (FieldFilter path op v) st = collectField path op v st"
| "collect (UnaryFilter path op) st = None"
| "collect FilterUnset st = None"
| "collectAll [] st = Some st"
| "collectAll (f # fs) st = (case collect f st of None \<Rightarrow> None | Some st' \<Rightarrow> collectAll fs st')"

definition noneCollected :: collected where
  "noneCollected = \<lparr>c_eq = [], c_ineq = None, c_in = None, c_contains = None\<rparr>"

definition collectWhere :: "Query \<Rightarrow> collected option" where
  "collectWhere q = (case Where q of None \<Rightarrow> Some noneCollected | Some f \<Rightarrow> collect f noneCollected)"

definition splitContains :: "collected \<Rightarrow> eqMap option" where
  "splitContains st =
     (case c_contains st of
        None \<Rightarrow> Some (c_eq st)
      | Some (p, v) \<Rightarrow>
          if IsNull v \<or> IsNaN v then None
          else if map_of (c_eq st) p \<noteq> None then None
          else Some (AList.update p v (c_eq st)))"

definition splitFilters :: "Query \<Rightarrow> (eqMap \<times> inequality option \<times> inFilter option) option" where
  "splitFilters q =
     (case collectWhere q of
        None \<Rightarrow> None
      | Some st \<Rightarrow>
          (case splitContains st of
             None \<Rightarrow> None
           | Some eq \<Rightarrow>
               if (case c_ineq st of
                     None \<Rightarrow> False
                   | Some ineq \<Rightarrow>
                       Order q = [] \<or> IsName (hd (Order q)) \<or>
                       FieldPath_String (Path (hd (Order q))) \<noteq> iPath ineq) then None
               else if (case c_in st of
                     None \<Rightarrow> False
                   | Some inl \<Rightarrow>
                       map_of eq (inPath inl) \<noteq> None \<or>
                       (case c_ineq st of None \<Rightarrow> False | Some ineq \<Rightarrow> iPath ineq = inPath inl) \<or>
                       inValues inl = []) then None
               else Some (eq, c_ineq st, c_in st)))"

definition containsPath :: "Query \<Rightarrow> string" where
  "containsPath q =
     (case collectWhere q of
        None \<Rightarrow> []
      | Some st \<Rightarrow>
          (case c_contains st of
             Some (p, v) \<Rightarrow> p
           | None \<Rightarrow>
               (case c_in st of
                  Some inl \<Rightarrow> if inContains inl then inPath inl else []
                | None \<Rightarrow> [])))"

definition Eligible :: "Query \<Rightarrow> bool" where
  "Eligible q \<longleftrightarrow> splitFilters q \<noteq> None"

section \<open>Matching a definition\<close>

fun matchEq :: "eqMap \<Rightarrow> string \<Rightarrow> Field list \<Rightarrow> Value list option" where
  "matchEq eq cPath [] = Some []"
| "matchEq eq cPath (f # fs) =
     (case map_of eq (fPath f) of
        None \<Rightarrow> None
      | Some v \<Rightarrow>
          if fContains f \<noteq> (cPath \<noteq> [] \<and> fPath f = cPath) then None
          else map_option ((#) v) (matchEq eq cPath fs))"

text \<open>The loop over the ordering terms; the first argument is the direction found at index 0.\<close>

fun matchOrder :: "bool option \<Rightarrow> Field list \<Rightarrow> OrderSpec list \<Rightarrow> bool option" where
  "matchOrder rv fs [] = Some (rv = Some True)"
| "matchOrder rv [] (o1 # os) = None"
| "matchOrder rv (f # fs) (o1 # os) =
     (let want = (if IsName o1 then NameField else FieldPath_String (Path o1));
          opposed = (fDesc f \<noteq> (Dir o1 = Desc))
      in if fPath f \<noteq> want then None
         else
           (case rv of
              None \<Rightarrow> matchOrder (Some opposed) fs os
            | Some r \<Rightarrow> if opposed \<noteq> r then None else matchOrder rv fs os))"

definition match :: "Def \<Rightarrow> eqMap \<Rightarrow> string \<Rightarrow> OrderSpec list \<Rightarrow> (bytes \<times> bool) option" where
  "match d eq cPath order =
     (let fs = effectiveFields d in
      if length fs < length eq + length order then None
      else
        (case matchEq eq cPath (take (length eq) fs) of
           None \<Rightarrow> None
         | Some eqValues \<Rightarrow>
             (case matchOrder None (drop (length eq) fs) order of
                None \<Rightarrow> None
              | Some reversed \<Rightarrow> Some (PrefixKey d eqValues, reversed))))"

section \<open>Bounds\<close>

definition maxBound :: "bytes option \<Rightarrow> bytes option \<Rightarrow> bytes option" where
  "maxBound a b =
     (case b of
        None \<Rightarrow> a
      | Some y \<Rightarrow> (case a of None \<Rightarrow> b | Some x \<Rightarrow> if bytes_Compare y x > 0 then b else a))"

definition minBound :: "bytes option \<Rightarrow> bytes option \<Rightarrow> bytes option" where
  "minBound a b =
     (case b of
        None \<Rightarrow> a
      | Some y \<Rightarrow> (case a of None \<Rightarrow> b | Some x \<Rightarrow> if bytes_Compare y x < 0 then b else a))"

text \<open>
  A slice built by appending to nil is nil when nothing was appended; \<open>slice\<close> makes that
  distinction, and \<open>PrefixEnd\<close> of a nil slice is nil.
\<close>

definition slice :: "bytes \<Rightarrow> bytes option" where
  "slice k = (if k = [] then None else Some k)"

definition sliceEnd :: "bytes option \<Rightarrow> bytes option" where
  "sliceEnd k = (case k of None \<Rightarrow> None | Some b \<Rightarrow> PrefixEnd b)"

definition startBoundFor :: "bytes option \<Rightarrow> bool \<Rightarrow> bytes option" where
  "startBoundFor k inclusive = (if inclusive then k else sliceEnd k)"

definition endBoundFor :: "bytes option \<Rightarrow> bool \<Rightarrow> bytes option" where
  "endBoundFor k inclusive = (if inclusive then sliceEnd k else k)"

definition cursorKey :: "Def \<Rightarrow> nat \<Rightarrow> bytes \<Rightarrow> Value list \<Rightarrow> bytes option" where
  "cursorKey d eqCount p vals = slice (prefixLoop p (drop eqCount (effectiveFields d)) vals)"

definition capVals :: "Value list \<Rightarrow> nat \<Rightarrow> Value list" where
  "capVals vals n = (if length vals > n then take n vals else vals)"

type_synonym range_bounds = "bytes option \<times> bytes option"

definition ineqSwitch :: "ineqOp \<Rightarrow> bool \<Rightarrow> bytes option \<Rightarrow> range_bounds \<Rightarrow> range_bounds" where
  "ineqSwitch op fieldDesc k b =
     (case b of (lo, hi) \<Rightarrow>
        (case op of
           Gt \<Rightarrow> if fieldDesc then (lo, minBound hi k) else (maxBound lo (sliceEnd k), hi)
         | Gte \<Rightarrow> if fieldDesc then (lo, minBound hi (sliceEnd k)) else (maxBound lo k, hi)
         | Lt \<Rightarrow> if fieldDesc then (maxBound lo (sliceEnd k), hi) else (lo, minBound hi k)
         | Lte \<Rightarrow> if fieldDesc then (maxBound lo k, hi) else (lo, minBound hi (sliceEnd k))))"

text \<open>The inequality part: bounds, and whether the function returns here (a NaN operand).\<close>

definition ineqBounds ::
  "Def \<Rightarrow> nat \<Rightarrow> bytes \<Rightarrow> bool \<Rightarrow> inequality \<Rightarrow> range_bounds \<Rightarrow> range_bounds \<times> bool" where
  "ineqBounds d eqCount p fieldDesc ineq b =
     (case b of (lo, hi) \<Rightarrow>
        let bucket = p @ TypeBucket [] (iValue ineq) fieldDesc;
            lo1 = maxBound lo (Some bucket);
            hi1 = minBound hi (PrefixEnd bucket)
        in if IsNaN (iValue ineq) then ((lo1, lo1), True)
           else
             (ineqSwitch (iOp ineq) fieldDesc (cursorKey d eqCount p [iValue ineq]) (lo1, hi1), False))"

definition startBounds :: "Def \<Rightarrow> nat \<Rightarrow> bytes \<Rightarrow> bool \<Rightarrow> Query \<Rightarrow> range_bounds \<Rightarrow> range_bounds" where
  "startBounds d eqCount p reversed q b =
     (case b of (lo, hi) \<Rightarrow>
        (case Start q of
           None \<Rightarrow> (lo, hi)
         | Some c \<Rightarrow>
             let k = cursorKey d eqCount p (capVals (Values c) (length (Order q)))
             in if reversed then (lo, minBound hi (endBoundFor k (Before c)))
                else (maxBound lo (startBoundFor k (Before c)), hi)))"

definition endBounds :: "Def \<Rightarrow> nat \<Rightarrow> bytes \<Rightarrow> bool \<Rightarrow> Query \<Rightarrow> range_bounds \<Rightarrow> range_bounds" where
  "endBounds d eqCount p reversed q b =
     (case b of (lo, hi) \<Rightarrow>
        (case End q of
           None \<Rightarrow> (lo, hi)
         | Some c \<Rightarrow>
             let k = cursorKey d eqCount p (capVals (Values c) (length (Order q)));
                 inclusive = (\<not> Before c)
             in if reversed then (maxBound lo (startBoundFor k inclusive), hi)
                else (lo, minBound hi (endBoundFor k inclusive))))"

definition closeBounds :: "range_bounds \<Rightarrow> range_bounds" where
  "closeBounds b =
     (case b of (lo, hi) \<Rightarrow>
        (case hi of
           None \<Rightarrow> (lo, hi)
         | Some h \<Rightarrow> if bytes_Compare (case lo of None \<Rightarrow> [] | Some l \<Rightarrow> l) h \<ge> 0 then (lo, lo) else (lo, hi)))"

definition bounds :: "Def \<Rightarrow> nat \<Rightarrow> bytes \<Rightarrow> bool \<Rightarrow> Query \<Rightarrow> range_bounds" where
  "bounds d eqCount p reversed q =
     (let b0 = (Some p, PrefixEnd p); fs = effectiveFields d in
      if eqCount \<ge> length fs then b0
      else
        let fieldDesc = fDesc (fs ! eqCount);
            (b1, stop) =
              (case splitFilters q of
                 Some (_, Some ineq, _) \<Rightarrow> ineqBounds d eqCount p fieldDesc ineq b0
               | _ \<Rightarrow> (b0, False))
        in if stop then b1
           else closeBounds (endBounds d eqCount p reversed q (startBounds d eqCount p reversed q b1)))"

section \<open>Plans\<close>

record Range =
  Lo :: "bytes option"
  Hi :: "bytes option"
  SuffixFrom :: nat

record Plan =
  pDef :: Def
  Ranges :: "Range list"
  Reversed :: bool
  Dedup :: bool

definition rangeFor :: "Def \<Rightarrow> nat \<Rightarrow> bytes \<Rightarrow> bool \<Rightarrow> Query \<Rightarrow> Range" where
  "rangeFor d n p reversed q =
     (case bounds d n p reversed q of (lo, hi) \<Rightarrow> \<lparr>Lo = lo, Hi = hi, SuffixFrom = length p\<rparr>)"

text \<open>The loop over the values of an in-list; the state is (seen, ranges, reversed).\<close>

fun inRanges ::
  "Def \<Rightarrow> eqMap \<Rightarrow> string \<Rightarrow> string \<Rightarrow> Query \<Rightarrow> bytes list \<Rightarrow> Range list \<Rightarrow> bool \<Rightarrow> Value list \<Rightarrow>
   (Range list \<times> bool) option" where
  "inRanges d eq cPath path q seen ranges reversed [] = Some (ranges, reversed)"
| "inRanges d eq cPath path q seen ranges reversed (v # vs) =
     (if IsNull v \<or> IsNaN v then inRanges d eq cPath path q seen ranges reversed vs
      else
        let sub = AList.update path v eq in
        (case match d sub cPath (Order q) of
           None \<Rightarrow> None
         | Some (p, rv) \<Rightarrow>
             if p \<in> set seen then inRanges d eq cPath path q seen ranges reversed vs
             else inRanges d eq cPath path q (p # seen)
                    (ranges @ [rangeFor d (length sub) p rv q]) rv vs))"

definition planRanges :: "Def \<Rightarrow> eqMap \<Rightarrow> inFilter option \<Rightarrow> Query \<Rightarrow> (Range list \<times> bool) option" where
  "planRanges d eq inl q =
     (let cPath = containsPath q in
      (case inl of
         None \<Rightarrow>
           (case match d eq cPath (Order q) of
              None \<Rightarrow> None
            | Some (p, reversed) \<Rightarrow> Some ([rangeFor d (length eq) p reversed q], reversed))
       | Some i \<Rightarrow>
           (case inRanges d eq cPath (inPath i) q [] [] False (inValues i) of
              None \<Rightarrow> None
            | Some (ranges, reversed) \<Rightarrow>
                if ranges = [] then Some ([], False) else Some (ranges, reversed))))"

fun tryDefs :: "Query \<Rightarrow> eqMap \<Rightarrow> inFilter option \<Rightarrow> (int64 \<Rightarrow> bool) \<Rightarrow> Def list \<Rightarrow> Plan option" where
  "tryDefs q eq inl ready [] = None"
| "tryDefs q eq inl ready (d # ds) =
     (if dCollectionID d \<noteq> CollectionID q \<or> dGroup d \<noteq> AllDescendants q then tryDefs q eq inl ready ds
      else if \<not> ready (ID d) then tryDefs q eq inl ready ds
      else
        (case planRanges d eq inl q of
           None \<Rightarrow> tryDefs q eq inl ready ds
         | Some (ranges, reversed) \<Rightarrow>
             Some \<lparr>pDef = d, Ranges = ranges, Reversed = reversed,
               Dedup = (case inl of None \<Rightarrow> False | Some i \<Rightarrow> inContains i)\<rparr>))"

definition For :: "Query \<Rightarrow> Def list \<Rightarrow> (int64 \<Rightarrow> bool) \<Rightarrow> Plan option" where
  "For q defs ready =
     (if \<not> Eligible q then None
      else
        (case splitFilters q of
           None \<Rightarrow> None
         | Some (eq, ineq, inl) \<Rightarrow> tryDefs q eq inl ready defs))"

definition Single :: "Plan \<Rightarrow> Range option" where
  "Single p = (case Ranges p of [r] \<Rightarrow> Some r | _ \<Rightarrow> None)"

definition GetRanges :: "Plan option \<Rightarrow> Range list" where
  "GetRanges p = (case p of None \<Rightarrow> [] | Some pl \<Rightarrow> Ranges pl)"

section \<open>Ranges of keys\<close>

definition above :: "bytes option \<Rightarrow> bytes \<Rightarrow> bool" where
  "above lo k \<longleftrightarrow> (case lo of None \<Rightarrow> True | Some l \<Rightarrow> l \<le> k)"

definition below :: "bytes option \<Rightarrow> bytes \<Rightarrow> bool" where
  "below hi k \<longleftrightarrow> (case hi of None \<Rightarrow> True | Some h \<Rightarrow> k < h)"

definition in_range :: "range_bounds \<Rightarrow> bytes \<Rightarrow> bool" where
  "in_range b k \<longleftrightarrow> above (fst b) k \<and> below (snd b) k"

lemma above_below_simps [simp]: "above None k" "below None k" "above (Some l) k \<longleftrightarrow> l \<le> k" "below (Some h) k \<longleftrightarrow> k < h"
  by (simp_all add: above_def below_def)

lemma above_maxBound [simp]: "above (maxBound a b) k \<longleftrightarrow> above a k \<and> above b k"
  by (auto simp: maxBound_def bytes_Compare_cmp3 split: option.split)

lemma below_minBound [simp]: "below (minBound a b) k \<longleftrightarrow> below a k \<and> below b k"
  by (auto simp: minBound_def bytes_Compare_cmp3 split: option.split)

lemma maxBound_Some: "\<exists>l'. maxBound (Some l) b = Some l'"
  by (auto simp: maxBound_def split: option.split)

lemma prefix_in_range: "above (Some p) k \<and> below (PrefixEnd p) k \<longleftrightarrow> prefix p k"
  using PrefixEnd_range [of p k] by (simp add: below_def)

lemma in_range_closeBounds:
  assumes "b = (Some l, hi)"
  shows "in_range (closeBounds b) k \<longleftrightarrow> in_range b k"
  using assms by (auto simp: closeBounds_def in_range_def bytes_Compare_cmp3 split: option.split)

lemma PrefixEnd_append:
  "PrefixEnd (p @ x) = (case PrefixEnd x of Some e \<Rightarrow> Some (p @ e) | None \<Rightarrow> PrefixEnd p)"
  by (induction p) (auto split: option.splits)

lemma append_mono_iff [simp]: "p @ x \<le> p @ y \<longleftrightarrow> x \<le> y" "p @ x < p @ y \<longleftrightarrow> x < y" for p x y :: bytes
  by (induction p) auto

context key_encoding
begin

lemma enc_cmp_order:
  assumes "ok a" "ok b"
  shows "enc b \<le> enc a @ x \<longleftrightarrow> 0 \<le> cmp a b" "enc a @ x < enc b \<longleftrightarrow> cmp a b < 0"
proof -
  have "cmp3 (enc a @ x) (enc b) = then_cmp (cmp a b) (cmp3 x [])"
    using enc_cmp [OF assms, of x "[]"] by (simp add: bytes_Compare_cmp3)
  moreover have "cmp3 x ([] :: bytes) \<ge> 0" by (cases x) (simp_all add: cmp3_def)
  ultimately show "enc b \<le> enc a @ x \<longleftrightarrow> 0 \<le> cmp a b" "enc a @ x < enc b \<longleftrightarrow> cmp a b < 0"
    by (auto simp: then_cmp_def cmp3_def split: if_splits)
qed

lemma enc_prefix_iff:
  assumes "ok a" "ok b"
  shows "prefix (enc b) (enc a @ x) \<longleftrightarrow> cmp a b = 0"
proof
  assume "prefix (enc b) (enc a @ x)"
  then obtain z where "enc a @ x = enc b @ z" by (auto simp: prefix_def)
  then have "then_cmp (cmp a b) (bytes_Compare x z) = 0" using enc_cmp [OF assms, of x z] by simp
  then show "cmp a b = 0" by simp
next
  assume "cmp a b = 0"
  then have "enc a = enc b" using enc_eq_iff [OF assms] by simp
  then show "prefix (enc b) (enc a @ x)" by simp
qed

lemma enc_end_order:
  assumes "ok a" "ok b" "PrefixEnd (enc b) = Some e"
  shows "e \<le> enc a @ x \<longleftrightarrow> 0 < cmp a b" "enc a @ x < e \<longleftrightarrow> cmp a b \<le> 0"
proof -
  have "enc b < e" using PrefixEnd_range [of "enc b" "enc b"] assms(3) by simp
  moreover have "enc b \<le> enc a @ x \<and> enc a @ x < e \<longleftrightarrow> cmp a b = 0"
    using PrefixEnd_range [of "enc b" "enc a @ x"] enc_prefix_iff [OF assms(1,2)] assms(3) by simp
  ultimately show "enc a @ x < e \<longleftrightarrow> cmp a b \<le> 0"
    using enc_cmp_order [OF assms(1,2), of x] by (metis leI le_less less_le_trans order_less_trans)
  then show "e \<le> enc a @ x \<longleftrightarrow> 0 < cmp a b" by (simp flip: not_less)
qed

end

section \<open>Tuples, prefixes and directions\<close>

lemma fieldsKey_append:
  "length fs = length vs \<Longrightarrow> fieldsKey (fs @ gs) (vs @ ws) = fieldsKey fs vs @ fieldsKey gs ws"
  by (induction fs vs rule: list_induct2) auto

lemma fieldsKey_take: "fieldsKey fs vs = fieldsKey (take (length vs) fs) vs"
  by (induction fs vs rule: fieldsKey.induct) auto

lemma prefixLoop_append: "prefixLoop key fs vs = key @ prefixLoop [] fs vs"
proof (induction fs arbitrary: key vs)
  case (Cons f fs)
  show ?case
  proof (cases vs)
    case (Cons v vs')
    then show ?thesis
      using Cons.IH [of "key @ sortKey v" vs'] Cons.IH [of "key @ complement (sortKey v)" vs']
        Cons.IH [of "sortKey v" vs'] Cons.IH [of "complement (sortKey v)" vs'] by simp
  qed simp
qed simp

lemma prefixLoop_fieldsKey:
  "\<forall>f \<in> set (take (length vs) fs). fPath f \<noteq> NameField \<Longrightarrow> prefixLoop key fs vs = key @ fieldsKey fs vs"
proof (induction fs arbitrary: key vs)
  case (Cons f fs)
  then show ?case by (cases vs) (auto simp: fieldEnc_def)
qed simp

lemma compareTuples_take: "compareTuples os as bs = compareTuples (take (length bs) os) (take (length bs) as) bs"
proof (induction os arbitrary: as bs)
  case (Cons o1 os)
  then show ?case
    by (cases as; cases bs) (auto simp: Cons.IH [of "tl as" "tl bs"])
qed simp

lemma compareTuples_0_iff:
  "length os = length as \<Longrightarrow> length as = length bs \<Longrightarrow>
   compareTuples os as bs = 0 \<longleftrightarrow> list_all2 (\<lambda>a b. Compare a b = 0) as bs"
proof (induction os as bs rule: list_induct3)
  case (Cons o1 os a as b bs)
  then show ?case by (cases "Dir o1") auto
qed simp

text \<open>An index scanned in one direction agrees with the query order term by term.\<close>

definition wantPath :: "OrderSpec \<Rightarrow> string" where
  "wantPath o1 = (if IsName o1 then NameField else FieldPath_String (Path o1))"

definition aligned :: "bool \<Rightarrow> Field \<Rightarrow> OrderSpec \<Rightarrow> bool" where
  "aligned r f o1 \<longleftrightarrow> fPath f = wantPath o1 \<and> (fDesc f \<noteq> (Dir o1 = Desc)) = r"

lemma matchOrder_rest:
  "matchOrder (Some r) fs os = Some r' \<Longrightarrow> r' = r \<and> length os \<le> length fs \<and> list_all2 (aligned r) (take (length os) fs) os"
  by (induction "Some r" fs os rule: matchOrder.induct)
    (auto simp: Let_def aligned_def wantPath_def split: if_splits)

lemma matchOrder_aligned:
  assumes "matchOrder None fs os = Some r"
  shows "length os \<le> length fs \<and> list_all2 (aligned r) (take (length os) fs) os"
proof (cases os)
  case (Cons o1 os')
  with assms obtain f fs' where fs: "fs = f # fs'" by (cases fs) auto
  with Cons assms have "matchOrder (Some (fDesc f \<noteq> (Dir o1 = Desc))) fs' os' = Some r" "fPath f = wantPath o1"
    by (auto simp: Let_def wantPath_def split: if_splits)
  with matchOrder_rest [OF this(1)] fs Cons show ?thesis by (auto simp: aligned_def)
qed simp

lemma compareTuples_aligned:
  "list_all2 (aligned r) fs os \<Longrightarrow>
   compareTuples (map fieldOrder fs) as bs = (if r then - compareTuples os as bs else compareTuples os as bs)"
proof (induction fs os arbitrary: as bs rule: list_all2_induct)
  case (Cons f fs o1 os)
  then show ?case
    by (cases as; cases bs; cases "Dir o1") (auto simp: aligned_def fieldOrder_def then_cmp_def)
qed simp

section \<open>The documents of an equality prefix\<close>

definition wf_def :: "Def \<Rightarrow> bool" where
  "wf_def d \<longleftrightarrow> distinct (map fPath (dFields d)) \<and>
     (\<forall>f \<in> set (dFields d). fPath f \<noteq> NameField \<and> fPath f \<noteq> [] \<and> (fContains f \<longrightarrow> \<not> fDesc f))"

lemma wf_def_fields: "wf_def d \<Longrightarrow> f \<in> set (dFields d) \<Longrightarrow> wf_field f \<and> fPath f \<noteq> NameField"
  by (auto simp: wf_def_def wf_field_def)

lemma wf_def_effective: "wf_def d \<Longrightarrow>
    effectiveFields d = dFields d @ [\<lparr>fPath = NameField, fDesc = trailingDirection d, fContains = False\<rparr>]"
  by (auto simp: effectiveFields_def wf_def_def last_in_set)

lemma matchEq_all2:
  "matchEq eq cP fs = Some vals \<Longrightarrow>
   list_all2 (\<lambda>f v. map_of eq (fPath f) = Some v \<and> fContains f = (cP \<noteq> [] \<and> fPath f = cP)) fs vals"
  by (induction eq cP fs arbitrary: vals rule: matchEq.induct) (auto split: option.splits if_splits)

definition eqHolds :: "string \<Rightarrow> string \<Rightarrow> Fields \<Rightarrow> string \<times> Value \<Rightarrow> bool" where
  "eqHolds cP name flds pv =
     evalFieldFilter (fst pv) (if cP \<noteq> [] \<and> fst pv = cP then ARRAY_CONTAINS else EQUAL) (snd pv) name flds"

definition containsOk :: "string \<Rightarrow> eqMap \<Rightarrow> bool" where
  "containsOk cP eq \<longleftrightarrow> (\<forall>v. cP \<noteq> [] \<and> map_of eq cP = Some v \<longrightarrow> \<not> IsNull v \<and> \<not> IsNaN v)"

lemma arrayContains_iff:
  "\<not> IsNaN v \<Longrightarrow> arrayContains a v \<longleftrightarrow> (\<exists>m \<in> set (GetArrayValues a). Compare m v = 0)"
proof -
  assume v: "\<not> IsNaN v"
  have "Compare m v = 0 \<Longrightarrow> \<not> IsNaN m" for m
    using v Compare_types [of m v] by (cases "TypeOrder m = TypeOrder v") (simp_all add: IsNaN_def)
  with v show ?thesis by (cases a) (auto simp: arrayContains_def list_ex_iff)
qed

lemma eqHolds_fieldValues:
  assumes "fPath f \<noteq> NameField" "fContains f = (cP \<noteq> [] \<and> fPath f = cP)" "containsOk cP eq"
    "map_of eq (fPath f) = Some v"
  shows "eqHolds cP name flds (fPath f, v) \<longleftrightarrow> (\<exists>a \<in> set (fieldValues name flds f). Compare a v = 0)"
proof (cases "fContains f")
  case True
  with assms have "\<not> IsNull v" "\<not> IsNaN v" by (auto simp: containsOk_def)
  with True assms show ?thesis
    by (auto simp: eqHolds_def evalFieldFilter_def evalOp_def fieldValues_def arrayContains_iff
        split: sum.splits option.splits)
next
  case False
  with assms show ?thesis
    by (auto simp: eqHolds_def evalFieldFilter_def evalOp_def fieldValues_def split: sum.splits option.splits)
qed

lemma eq_covered:
  assumes "distinct (map fst eq)" "distinct (map fPath fs)" "length fs = length eq"
    and "\<forall>f \<in> set fs. map_of eq (fPath f) \<noteq> None"
  shows "fst ` set eq = fPath ` set fs"
proof -
  have "fPath ` set fs \<subseteq> fst ` set eq" using assms(4) by (force simp: map_of_eq_None_iff)
  moreover have "card (fPath ` set fs) = card (fst ` set eq)"
    using assms(1-3) by (metis distinct_card length_map set_map)
  ultimately show ?thesis by (metis List.finite_set card_subset_eq finite_imageI)
qed

text \<open>The name term of the query order sits on the name component, so the index ends there.\<close>

lemma aligned_to_end:
  assumes "list_all2 (aligned r) (take (length os) (D @ [N])) os" "length os \<le> Suc (length D)"
    and "\<forall>f \<in> set D. fPath f \<noteq> NameField" "fPath N = NameField" "o1 \<in> set os" "IsName o1"
  shows "length os = Suc (length D) \<and> list_all2 (\<lambda>f o2. fPath f = NameField \<longleftrightarrow> IsName o2) (D @ [N]) os"
proof -
  let ?R = "D @ [N]"
  have path: "i < length os \<Longrightarrow> fPath (?R ! i) = wantPath (os ! i)" for i
    using list_all2_nthD2 [OF assms(1), of i] nth_take [of i "length os" ?R] by (simp only: aligned_def)
  have last: "i = length D" if "i < length os" "IsName (os ! i)" for i
  proof (rule ccontr)
    assume "i \<noteq> length D"
    with that assms(2) have i: "i < length D" by simp
    then have "fPath (D ! i) \<noteq> NameField" using assms(3) by simp
    with i path [OF that(1)] that(2) show False by (simp add: nth_append wantPath_def)
  qed
  from assms(5,6) obtain j where j: "j < length os" "IsName (os ! j)" by (auto simp: in_set_conv_nth)
  with last have "j = length D" by blast
  with j assms(2) have len: "length os = Suc (length D)" and name: "IsName (os ! length D)" by auto
  have "list_all2 (\<lambda>f o2. fPath f = NameField \<longleftrightarrow> IsName o2) ?R os"
  proof (intro list_all2_all_nthI)
    show "length ?R = length os" using len by simp
    fix i assume i: "i < length ?R"
    show "fPath (?R ! i) = NameField \<longleftrightarrow> IsName (os ! i)"
    proof (cases "i = length D")
      case True
      then show ?thesis using name assms(4) by simp
    next
      case False
      with i have "i < length D" by simp
      moreover from this assms(3) have "fPath (D ! i) \<noteq> NameField" by simp
      ultimately show ?thesis using last [of i] len False by (auto simp: nth_append)
    qed
  qed
  with len show ?thesis by simp
qed

lemma match_parts:
  assumes wf: "wf_def d" "wf_order os" and m: "match d eq cP os = Some (p, r)"
  obtains E R vals where "effectiveFields d = E @ R" "length E = length eq" "E = take (length eq) (dFields d)"
    "list_all2 (\<lambda>f v. map_of eq (fPath f) = Some v \<and> fContains f = (cP \<noteq> [] \<and> fPath f = cP)) E vals"
    "list_all2 (aligned r) R os" "list_all2 (\<lambda>f o2. fPath f = NameField \<longleftrightarrow> IsName o2) R os"
    "p = fieldsKey E vals"
proof -
  let ?N = "\<lparr>fPath = NameField, fDesc = trailingDirection d, fContains = False\<rparr>"
  let ?n = "length eq"
  note eff = wf_def_effective [OF wf(1)]
  from m obtain vals where len: "?n + length os \<le> Suc (length (dFields d))" and
    vals: "matchEq eq cP (take ?n (effectiveFields d)) = Some vals" and
    ord: "matchOrder None (drop ?n (effectiveFields d)) os = Some r" and p: "p = PrefixKey d vals"
    by (auto simp: match_def Let_def eff split: if_splits option.splits)
  obtain o1 where o1: "o1 \<in> set os" "IsName o1" using wf_order_name [OF wf(2)] by blast
  then have n: "?n \<le> length (dFields d)" using len by (cases os) auto
  define E where "E = take ?n (dFields d)"
  define D where "D = drop ?n (dFields d)"
  have split: "take ?n (effectiveFields d) = E" "drop ?n (effectiveFields d) = D @ [?N]"
    using n by (simp_all add: eff E_def D_def)
  have D: "\<forall>f \<in> set D. fPath f \<noteq> NameField" and E: "\<forall>f \<in> set E. fPath f \<noteq> NameField"
    using wf_def_fields [OF wf(1)] by (auto simp: D_def E_def dest: in_set_takeD in_set_dropD)
  have al: "list_all2 (aligned r) (take (length os) (D @ [?N])) os" "length os \<le> Suc (length D)"
    using matchOrder_aligned [OF ord] by (simp_all add: split)
  note fin = aligned_to_end [OF al D _ o1]
  have all: "list_all2 (aligned r) (D @ [?N]) os" using al fin by simp
  have vals2: "list_all2 (\<lambda>f v. map_of eq (fPath f) = Some v \<and> fContains f = (cP \<noteq> [] \<and> fPath f = cP)) E vals"
    using matchEq_all2 [OF vals] by (simp add: split)
  then have lv: "length vals = ?n" using n by (simp add: list_all2_lengthD [symmetric] E_def)
  have "p = fieldsKey (dFields d) vals"
    unfolding p PrefixKey_def using E prefixLoop_fieldsKey [of vals "dFields d" "[]"] lv by (simp add: E_def)
  then have "p = fieldsKey E vals" using fieldsKey_take [of "dFields d" vals] lv by (simp add: E_def)
  moreover have "effectiveFields d = E @ (D @ [?N])" by (simp add: eff E_def D_def)
  moreover have "length E = ?n" using n by (simp add: E_def)
  ultimately show thesis using that [OF _ _ E_def vals2 all] fin by simp
qed

lemma fieldValues_aligned:
  assumes "aligned r f o1" "fPath f = NameField \<longleftrightarrow> IsName o1" "\<not> fContains f" "IsName o1 \<or> Path o1 \<noteq> []"
  shows "fieldValues name flds f =
    (if IsName o1 \<or> GetField flds (Path o1) \<noteq> None then [orderValue name flds o1] else [])"
proof (cases "IsName o1")
  case True
  with assms show ?thesis by (simp add: fieldValues_def orderValue_def)
next
  case False
  with assms have "ParseFieldPath (fPath f) = Inr (Path o1)" "fPath f \<noteq> NameField"
    using parseSegments_print [of "Path o1" "[]"] FieldPath_String_not_Nil [of "Path o1"]
    by (auto simp: aligned_def wantPath_def ParseFieldPath_def FieldPath_String_def)
  with False assms show ?thesis by (auto simp: fieldValues_def orderValue_def)
qed

lemma order_tuples:
  assumes "list_all2 (aligned r) R os" "list_all2 (\<lambda>f o1. fPath f = NameField \<longleftrightarrow> IsName o1) R os"
    and "\<forall>f \<in> set R. \<not> fContains f" "\<forall>o1 \<in> set os. IsName o1 \<or> Path o1 \<noteq> []"
  shows "keyTuples name flds R =
    (if list_all (\<lambda>o1. IsName o1 \<or> GetField flds (Path o1) \<noteq> None) os
     then {map (orderValue name flds) os} else {})"
  using assms
proof (induction R os rule: list_all2_induct)
  case Nil
  then show ?case by (simp add: keyTuples_simps)
next
  case (Cons f R o1 os)
  have "keyTuples name flds (f # R) = (\<Union>v \<in> set (fieldValues name flds f). (#) v ` keyTuples name flds R)"
    by (auto simp: keyTuples_def list_all2_Cons1)
  with Cons fieldValues_aligned [of r f o1 name flds] show ?case by auto
qed

text \<open>
  What a successful match means for one document: it has a key under the prefix exactly when the
  equality filters hold and every ordering field is present, and that key is the prefix followed
  by the document's ordering tuple.
\<close>

definition scanKey :: "Field list \<Rightarrow> bytes \<Rightarrow> Query \<Rightarrow> string \<Rightarrow> Fields \<Rightarrow> bytes" where
  "scanKey R p q name flds = p @ fieldsKey R (OrderKey q name flds)"

definition orderPresent :: "Query \<Rightarrow> Fields \<Rightarrow> bool" where
  "orderPresent q flds \<longleftrightarrow> list_all (\<lambda>o1. IsName o1 \<or> GetField flds (Path o1) \<noteq> None) (Order q)"

lemma eq_tuples:
  assumes "list_all2 (\<lambda>f v. map_of eq (fPath f) = Some v \<and> fContains f = (cP \<noteq> [] \<and> fPath f = cP)) E vals"
    and "containsOk cP eq" "\<forall>f \<in> set E. fPath f \<noteq> NameField"
  shows "(\<exists>ve \<in> keyTuples name flds E. list_all2 (\<lambda>a b. Compare a b = 0) ve vals) \<longleftrightarrow>
    (\<forall>(f, v) \<in> set (zip E vals). eqHolds cP name flds (fPath f, v))"
  using assms(1,3)
proof (induction E vals rule: list_all2_induct)
  case Nil
  then show ?case by (simp add: keyTuples_simps)
next
  case (Cons f E v vals)
  have kt: "keyTuples name flds (f # E) = (\<Union>a \<in> set (fieldValues name flds f). (#) a ` keyTuples name flds E)"
    by (auto simp: keyTuples_def list_all2_Cons1)
  have "eqHolds cP name flds (fPath f, v) \<longleftrightarrow> (\<exists>a \<in> set (fieldValues name flds f). Compare a v = 0)"
    using Cons.hyps(1) Cons.prems assms(2) by (intro eqHolds_fieldValues [where eq = eq]) auto
  with Cons kt show ?case by auto
qed

lemma eq_zip:
  assumes "list_all2 (\<lambda>f v. map_of eq (fPath f) = Some v \<and> fContains f = (cP \<noteq> [] \<and> fPath f = cP)) E vals"
    and "distinct (map fst eq)" "distinct (map fPath E)" "length E = length eq"
  shows "(\<forall>(f, v) \<in> set (zip E vals). P (fPath f, v)) \<longleftrightarrow> (\<forall>pv \<in> set eq. P pv)"
proof -
  have zip: "map_of eq (fPath f) = Some v" if "(f, v) \<in> set (zip E vals)" for f v
    using assms(1) that by (auto simp: list_all2_iff)
  have "\<forall>f \<in> set E. map_of eq (fPath f) \<noteq> None"
    using assms(1) by (induction rule: list_all2_induct) auto
  then have cov: "fst ` set eq = fPath ` set E"
    using assms by (intro eq_covered) auto
  have "\<exists>f. (f, snd pv) \<in> set (zip E vals) \<and> fPath f = fst pv" if "pv \<in> set eq" for pv
  proof -
    from that cov obtain f where f: "f \<in> set E" "fPath f = fst pv" by (metis imageE imageI)
    then obtain v where fv: "(f, v) \<in> set (zip E vals)"
      using list_all2_lengthD [OF assms(1)] by (metis in_set_impl_in_set_zip1)
    moreover have "map_of eq (fst pv) = Some (snd pv)" using that assms(2) by simp
    ultimately show ?thesis using zip [OF fv] f by auto
  qed
  note entry = this
  show ?thesis
  proof
    assume all: "\<forall>(f, v) \<in> set (zip E vals). P (fPath f, v)"
    show "\<forall>pv \<in> set eq. P pv"
    proof
      fix pv assume "pv \<in> set eq"
      from entry [OF this] obtain f where "(f, snd pv) \<in> set (zip E vals)" "fPath f = fst pv" by blast
      with all show "P pv" by fastforce
    qed
  next
    assume all: "\<forall>pv \<in> set eq. P pv"
    show "\<forall>(f, v) \<in> set (zip E vals). P (fPath f, v)"
    proof clarify
      fix f v assume "(f, v) \<in> set (zip E vals)"
      from map_of_SomeD [OF zip [OF this]] all show "P (fPath f, v)" by blast
    qed
  qed
qed

lemma valid_fieldValues: "valid_fields flds \<Longrightarrow> v \<in> set (fieldValues name flds f) \<Longrightarrow> field_ok f v"
proof -
  assume flds: "valid_fields flds" and v: "v \<in> set (fieldValues name flds f)"
  have "valid_value w" if "GetField flds fp = Some a" "w \<in> set (GetArrayValues a)" for fp a w
    using valid_GetField [OF flds that(1)] that(2) by (cases a) auto
  with v valid_GetField [OF flds] show ?thesis
    by (cases "ParseFieldPath (fPath f)"; cases "GetField flds (projr (ParseFieldPath (fPath f)))")
      (auto simp: fieldValues_def field_ok_def split: if_splits)
qed

lemma keyTuples_ok: "valid_fields flds \<Longrightarrow> vs \<in> keyTuples name flds fs \<Longrightarrow> fields_ok fs vs"
  by (auto simp: keyTuples_def fields_ok_def elim!: list_all2_mono intro: valid_fieldValues)

lemma keyTuples_append:
  "keyTuples name flds (E @ R) = {ve @ vr |ve vr. ve \<in> keyTuples name flds E \<and> vr \<in> keyTuples name flds R}"
proof (intro equalityI subsetI)
  fix vs assume "vs \<in> keyTuples name flds (E @ R)"
  then show "vs \<in> {ve @ vr |ve vr. ve \<in> keyTuples name flds E \<and> vr \<in> keyTuples name flds R}"
    by (auto simp: keyTuples_def list_all2_append1)
next
  fix vs assume "vs \<in> {ve @ vr |ve vr. ve \<in> keyTuples name flds E \<and> vr \<in> keyTuples name flds R}"
  then obtain ve vr where "vs = ve @ vr" "ve \<in> keyTuples name flds E" "vr \<in> keyTuples name flds R" by blast
  then show "vs \<in> keyTuples name flds (E @ R)"
    unfolding keyTuples_def by (simp add: list_all2_appendI)
qed

lemma prefix_keys:
  assumes wf: "wf_def d" "wf_order (Order q)" and eff: "effectiveFields d = E @ R"
    and vals: "list_all2 (\<lambda>f v. map_of eq (fPath f) = Some v \<and> fContains f = (cP \<noteq> [] \<and> fPath f = cP)) E vals"
    and al: "list_all2 (aligned r) R (Order q)" "list_all2 (\<lambda>f o1. fPath f = NameField \<longleftrightarrow> IsName o1) R (Order q)"
    and E: "E = take (length eq) (dFields d)" "length E = length eq" and R: "\<forall>f \<in> set R. \<not> fContains f"
    and eq: "distinct (map fst eq)" "containsOk cP eq" "\<forall>pv \<in> set eq. valid_value (snd pv)"
    and flds: "valid_fields flds"
  shows "{k \<in> set (Keys d name flds). prefix (fieldsKey E vals) k} =
    (if (\<forall>pv \<in> set eq. eqHolds cP name flds pv) \<and> orderPresent q flds
     then {scanKey R (fieldsKey E vals) q name flds} else {})"
proof -
  have nm: "\<forall>f \<in> set E. fPath f \<noteq> NameField"
    using wf_def_fields [OF wf(1)] E by (auto dest: in_set_takeD)
  have okv: "fields_ok E vals"
    unfolding fields_ok_def
    by (rule list.rel_mono_strong [OF vals])
      (use nm eq(3) in \<open>auto simp: field_ok_def dest!: map_of_SomeD\<close>)
  have keys: "set (Keys d name flds) = fieldsKey (E @ R) ` keyTuples name flds (E @ R)"
    using set_Keys [of d name flds] wf_def_fields [OF wf(1)] by (simp add: eff)
  note tuples = keyTuples_append [of name flds E R]
  have Rt: "keyTuples name flds R = (if orderPresent q flds then {OrderKey q name flds} else {})"
    using order_tuples [OF al R] wf(2) by (simp add: orderPresent_def OrderKey_def wf_order_def)
  have pre: "prefix (fieldsKey E vals) (fieldsKey E ve @ x) \<longleftrightarrow> list_all2 (\<lambda>a b. Compare a b = 0) ve vals"
    "list_all2 (\<lambda>a b. Compare a b = 0) ve vals \<Longrightarrow> fieldsKey E ve = fieldsKey E vals"
    if "ve \<in> keyTuples name flds E" for ve x
  proof -
    have ok: "fields_ok E ve" using keyTuples_ok [OF flds that] .
    have "compareTuples (map fieldOrder E) ve vals = 0 \<longleftrightarrow> list_all2 (\<lambda>a b. Compare a b = 0) ve vals"
      using ok okv by (intro compareTuples_0_iff) (auto simp: fields_ok_def dest!: list_all2_lengthD)
    then show "prefix (fieldsKey E vals) (fieldsKey E ve @ x) \<longleftrightarrow> list_all2 (\<lambda>a b. Compare a b = 0) ve vals"
      "list_all2 (\<lambda>a b. Compare a b = 0) ve vals \<Longrightarrow> fieldsKey E ve = fieldsKey E vals"
      using index_key.enc_prefix_iff [OF ok okv] index_key.enc_eq_iff [OF ok okv] by simp_all
  qed
  have app: "fieldsKey (E @ R) (ve @ vr) = fieldsKey E ve @ fieldsKey R vr" if "ve \<in> keyTuples name flds E" for ve vr
    using that by (intro fieldsKey_append) (auto simp: keyTuples_def dest: list_all2_lengthD)
  have holds: "(\<forall>pv \<in> set eq. eqHolds cP name flds pv) \<longleftrightarrow>
      (\<exists>ve \<in> keyTuples name flds E. list_all2 (\<lambda>a b. Compare a b = 0) ve vals)"
    using eq_tuples [OF vals eq(2) nm] eq_zip [OF vals eq(1) _ E(2), of "eqHolds cP name flds"] wf(1) E(1)
    by (simp add: wf_def_def distinct_take flip: take_map)
  have "k \<in> set (Keys d name flds) \<and> prefix (fieldsKey E vals) k \<longleftrightarrow>
      (\<exists>ve \<in> keyTuples name flds E. list_all2 (\<lambda>a b. Compare a b = 0) ve vals \<and>
        (\<exists>vr \<in> keyTuples name flds R. k = fieldsKey E vals @ fieldsKey R vr))" for k
    unfolding keys tuples using pre app by (simp add: image_iff) metis
  then show ?thesis unfolding holds Rt scanKey_def by auto
qed

section \<open>Bounds select what filters and cursors select\<close>

lemma PrefixEnd_first: "b \<noteq> 0xFF \<Longrightarrow> \<exists>e. PrefixEnd (b # x) = Some e"
  by (cases "PrefixEnd x") auto

lemma fieldEnc_first: "fPath f \<noteq> NameField \<Longrightarrow> \<exists>b x. fieldEnc f v = b # x \<and> b \<noteq> 0xFF"
proof -
  assume f: "fPath f \<noteq> NameField"
  obtain x where x: "sortKey v = order_tag (TypeOrder v) # x" using sortKey_tag by metis
  have "order_tag (TypeOrder v) XOR 0xFF \<noteq> 0xFF"
  proof
    assume "order_tag (TypeOrder v) XOR 0xFF = 0xFF"
    then have "unat (order_tag (TypeOrder v) XOR 0xFF) = 255" by simp
    then have "unat (order_tag (TypeOrder v)) = 0"
      using unat_xor_FF [of "order_tag (TypeOrder v)"] unsigned_less [of "order_tag (TypeOrder v)", where ?'a = nat]
      by simp
    then show False using order_tag_bounds(2) [of v] by (simp add: unat_eq_0)
  qed
  with f x show ?thesis using order_tag_bounds(1) [of v] by (cases "fDesc f") (simp_all add: fieldEnc_def Let_def)
qed

lemma fieldsKey_first:
  "fs \<noteq> [] \<Longrightarrow> vs \<noteq> [] \<Longrightarrow> fPath (hd fs) \<noteq> NameField \<Longrightarrow> \<exists>b x. fieldsKey fs vs = b # x \<and> b \<noteq> 0xFF"
  using fieldEnc_first [of "hd fs" "hd vs"] by (cases fs; cases vs) auto

text \<open>A position in the ordering part of the index, as a byte bound.\<close>

lemma cursor_bounds:
  fixes p :: bytes
  assumes R: "drop n (effectiveFields d) = R" and ok: "fields_ok R vr"
    and ws: "ws \<noteq> []" "length ws \<le> length R" "list_all valid_value ws"
    and nm: "\<forall>f \<in> set (take (length ws) R). fPath f \<noteq> NameField"
  defines "c \<equiv> compareTuples (map fieldOrder R) vr ws" and "k \<equiv> p @ fieldsKey R vr"
    and "ck \<equiv> cursorKey d n p ws"
  shows "above ck k \<longleftrightarrow> 0 \<le> c" "below ck k \<longleftrightarrow> c < 0"
    and "above (sliceEnd ck) k \<longleftrightarrow> 0 < c" "below (sliceEnd ck) k \<longleftrightarrow> c \<le> 0"
proof -
  let ?m = "length ws"
  let ?B = "fieldsKey (take ?m R) ws"
  have "take ?m R \<noteq> []" using ws by (cases R; cases ws) auto
  moreover from this nm have "fPath (hd (take ?m R)) \<noteq> NameField" by (meson hd_in_set)
  ultimately obtain b x where B: "?B = b # x" "b \<noteq> 0xFF" using fieldsKey_first ws(1) by blast
  obtain e where e: "PrefixEnd ?B = Some e" using PrefixEnd_first B by metis
  have ck: "ck = Some (p @ ?B)"
    unfolding ck_def cursorKey_def R prefixLoop_fieldsKey [OF nm] fieldsKey_take [of R ws]
    by (simp add: slice_def B)
  have sck: "sliceEnd ck = Some (p @ e)" by (simp add: ck sliceEnd_def PrefixEnd_append e)
  have lens: "length vr = length R" using ok by (simp add: fields_ok_def list_all2_lengthD)
  have "fieldsKey R vr = fieldsKey (take ?m R @ drop ?m R) (take ?m vr @ drop ?m vr)" by simp
  also have "\<dots> = fieldsKey (take ?m R) (take ?m vr) @ fieldsKey (drop ?m R) (drop ?m vr)"
    using lens by (intro fieldsKey_append) simp
  finally have key: "fieldsKey R vr = fieldsKey (take ?m R) (take ?m vr) @ fieldsKey (drop ?m R) (drop ?m vr)" .
  have ok1: "fields_ok (take ?m R) (take ?m vr)" using ok by (simp add: fields_ok_def list_all2_takeI)
  have "fPath (R ! j) \<noteq> NameField" if "j < ?m" for j
    using that nm ws(2) nth_mem [of j "take ?m R"] by simp
  then have ok2: "fields_ok (take ?m R) ws"
    using ws by (auto simp: fields_ok_def field_ok_def list_all2_conv_all_nth list_all_length)
  have c: "compareTuples (map fieldOrder (take ?m R)) (take ?m vr) ws = c"
    unfolding c_def using compareTuples_take [of "map fieldOrder R" vr ws] by (simp add: take_map)
  note o = index_key.enc_cmp_order [OF ok1 ok2, unfolded c] index_key.enc_end_order [OF ok1 ok2 e, unfolded c]
  show "above ck k \<longleftrightarrow> 0 \<le> c" "below ck k \<longleftrightarrow> c < 0"
    "above (sliceEnd ck) k \<longleftrightarrow> 0 < c" "below (sliceEnd ck) k \<longleftrightarrow> c \<le> 0"
    unfolding sck unfolding k_def ck key using o by simp_all
qed

fun opField :: "ineqOp \<Rightarrow> FieldOp" where
  "opField Gt = GREATER_THAN" | "opField Gte = GREATER_THAN_OR_EQUAL"
| "opField Lt = LESS_THAN" | "opField Lte = LESS_THAN_OR_EQUAL"

lemma evalOp_range:
  "evalOp (opField op) v w \<longleftrightarrow> TypeOrder v = TypeOrder w \<and> \<not> IsNaN w \<and>
     (case op of Gt \<Rightarrow> Compare v w > 0 | Gte \<Rightarrow> Compare v w \<ge> 0 | Lt \<Rightarrow> Compare v w < 0 | Lte \<Rightarrow> Compare v w \<le> 0)"
  by (cases op) (auto simp: evalOp_def IsNaN_def)

lemma TypeBucket_prefix:
  assumes "fPath f \<noteq> NameField"
  shows "prefix (TypeBucket [] v (fDesc f)) (fieldEnc f w @ x) \<longleftrightarrow> TypeOrder w = TypeOrder v"
proof -
  obtain t u where tu: "sortKey v = order_tag (TypeOrder v) # t" "sortKey w = order_tag (TypeOrder w) # u"
    using sortKey_tag by metis
  have "order_tag (TypeOrder v) XOR 0xFF = order_tag (TypeOrder w) XOR 0xFF \<longleftrightarrow>
      order_tag (TypeOrder v) = order_tag (TypeOrder w)"
    by (metis xor_FF_less_iff less_irrefl linorder_neqE)
  with assms show ?thesis by (auto simp: TypeBucket_def fieldEnc_def tu)
qed

lemma ineqBounds_range:
  assumes R: "drop n (effectiveFields d) = f # R'" and ok: "fields_ok (f # R') (v # vr)"
    and f: "fPath f \<noteq> NameField" and w: "valid_value (iValue i)"
    and b: "ineqBounds d n p (fDesc f) i (Some p, PrefixEnd p) = (b', stop)"
  shows "in_range b' (p @ fieldsKey (f # R') (v # vr)) \<longleftrightarrow> evalOp (opField (iOp i)) v (iValue i)"
    and "stop \<longleftrightarrow> IsNaN (iValue i)"
proof -
  let ?w = "iValue i" and ?k = "p @ fieldsKey (f # R') (v # vr)"
  let ?bucket = "p @ TypeBucket [] ?w (fDesc f)"
  let ?lo = "maxBound (Some p) (Some ?bucket)" and ?hi = "minBound (PrefixEnd p) (PrefixEnd ?bucket)"
  have clamp: "above ?lo ?k \<and> below ?hi ?k \<longleftrightarrow> TypeOrder v = TypeOrder ?w"
    using prefix_in_range [of p ?k] prefix_in_range [of ?bucket ?k] TypeBucket_prefix [OF f, of ?w v] by auto
  let ?ck = "cursorKey d n p [?w]" and ?c = "Compare v ?w * (if fDesc f then - 1 else 1)"
  have c: "compareTuples (map fieldOrder (f # R')) (v # vr) [?w] = ?c"
    by (simp add: fieldOrder_def)
  have cb: "above ?ck ?k \<longleftrightarrow> 0 \<le> ?c" "below ?ck ?k \<longleftrightarrow> ?c < 0"
    "above (sliceEnd ?ck) ?k \<longleftrightarrow> 0 < ?c" "below (sliceEnd ?ck) ?k \<longleftrightarrow> ?c \<le> 0"
    unfolding c [symmetric] using w f by (intro cursor_bounds [OF R ok]; simp)+
  from b show "stop \<longleftrightarrow> IsNaN ?w" by (auto simp: ineqBounds_def Let_def split: if_splits)
  show "in_range b' ?k \<longleftrightarrow> evalOp (opField (iOp i)) v ?w"
  proof (cases "IsNaN ?w")
    case True
    with b have "b' = (?lo, ?lo)" by (simp add: ineqBounds_def Let_def)
    moreover obtain l where "?lo = Some l" using maxBound_Some by blast
    then have "\<not> in_range (?lo, ?lo) ?k" by (simp add: in_range_def not_less)
    ultimately show ?thesis using True by (simp add: evalOp_range)
  next
    case False
    with b have "b' = ineqSwitch (iOp i) (fDesc f) (cursorKey d n p [?w]) (?lo, ?hi)"
      by (simp add: ineqBounds_def Let_def)
    then have "in_range b' ?k \<longleftrightarrow> (above ?lo ?k \<and> below ?hi ?k) \<and>
        (case iOp i of Gt \<Rightarrow> Compare v ?w > 0 | Gte \<Rightarrow> Compare v ?w \<ge> 0
         | Lt \<Rightarrow> Compare v ?w < 0 | Lte \<Rightarrow> Compare v ?w \<le> 0)"
      by (cases "iOp i"; cases "fDesc f")
        (simp_all only: ineqSwitch_def in_range_def above_maxBound below_minBound cb prod.case ineqOp.case
          if_True if_False fst_conv snd_conv; linarith)+
    then show ?thesis using False clamp by (simp only: evalOp_range) simp
  qed
qed

lemma ineqBounds_prefix:
  assumes b: "ineqBounds d n p fd i (Some p, PrefixEnd p) = (b', stop)" and k: "in_range b' k"
  shows "prefix p k"
proof (cases "IsNaN (iValue i)")
  case True
  let ?lo = "maxBound (Some p) (Some (p @ TypeBucket [] (iValue i) fd))"
  from True b have "b' = (?lo, ?lo)" by (simp add: ineqBounds_def Let_def)
  moreover obtain l where "?lo = Some l" using maxBound_Some by blast
  ultimately show ?thesis using k by (auto simp: in_range_def)
next
  case False
  with b k show ?thesis
    using prefix_in_range [of p k]
    by (cases "iOp i"; cases fd) (auto simp: ineqBounds_def ineqSwitch_def in_range_def Let_def)
qed

lemma ineqBounds_Some: "ineqBounds d n p fd i (Some p, PrefixEnd p) = (b', stop) \<Longrightarrow> \<exists>l hi. b' = (Some l, hi)"
  using maxBound_Some
  by (auto simp: ineqBounds_def ineqSwitch_def Let_def split: if_splits ineqOp.splits) metis+

text \<open>
  Cursors as the planner supports them: not empty and not reaching the name term (whose key has
  no tag byte in the index, while a cursor is encoded as a tagged reference).
\<close>

definition cursor_ok :: "Query \<Rightarrow> Cursor option \<Rightarrow> bool" where
  "cursor_ok q co \<longleftrightarrow> (case co of None \<Rightarrow> True
     | Some c \<Rightarrow> Values c \<noteq> [] \<and> list_all valid_value (Values c) \<and>
         length (Values c) \<le> length (Order q) \<and> \<not> list_ex IsName (take (length (Values c)) (Order q)))"

lemma capVals_id: "length vs \<le> n \<Longrightarrow> capVals vs n = vs"
  by (simp add: capVals_def)

lemma cursor_compare:
  assumes "cursor_ok q (Some c)" and al: "list_all2 (aligned r) R (Order q)" and len: "length vr = length (Order q)"
  shows "compareTuples (map fieldOrder R) vr (Values c) = (if r then - compareToCursor q vr c else compareToCursor q vr c)"
proof -
  have "compareToCursor q vr c = compareTuples (Order q) vr (Values c)"
    using assms(1) compareTuples_take [of "Order q" vr "Values c"]
      compareTuples_take [of "take (length (Values c)) (Order q)" vr "Values c"]
    by (auto simp: compareToCursor_def cursor_ok_def Let_def min_def)
  then show ?thesis using compareTuples_aligned [OF al, of vr "Values c"] by simp
qed

lemma cursor_range:
  fixes p :: bytes
  assumes R: "drop n (effectiveFields d) = R" and ok: "fields_ok R vr"
    and c: "cursor_ok q (Some c)" and al: "list_all2 (aligned r) R (Order q)"
      "list_all2 (\<lambda>f o1. fPath f = NameField \<longleftrightarrow> IsName o1) R (Order q)"
  defines "k \<equiv> p @ fieldsKey R vr" and "ck \<equiv> cursorKey d n p (capVals (Values c) (length (Order q)))"
    and "x \<equiv> compareToCursor q vr c"
  shows "above (startBoundFor ck incl) k \<longleftrightarrow> (if r then x \<le> 0 \<and> (x = 0 \<longrightarrow> incl) else x \<ge> 0 \<and> (x = 0 \<longrightarrow> incl))"
    and "below (endBoundFor ck incl) k \<longleftrightarrow> (if r then x \<ge> 0 \<and> (x = 0 \<longrightarrow> incl) else x \<le> 0 \<and> (x = 0 \<longrightarrow> incl))"
proof -
  let ?ws = "Values c"
  have lens: "length R = length (Order q)" "length vr = length R"
    using list_all2_lengthD [OF al(1)] ok by (auto simp: fields_ok_def dest: list_all2_lengthD)
  have ws: "?ws \<noteq> []" "length ?ws \<le> length R" "list_all valid_value ?ws"
    using c lens by (simp_all add: cursor_ok_def)
  have nm: "\<forall>f \<in> set (take (length ?ws) R). fPath f \<noteq> NameField"
  proof
    fix f assume "f \<in> set (take (length ?ws) R)"
    then obtain j where j: "j < length ?ws" "j < length R" "f = R ! j" by (auto simp: in_set_conv_nth)
    then have "Order q ! j \<in> set (take (length ?ws) (Order q))"
      using lens by (auto simp: in_set_conv_nth intro!: exI [of _ j])
    then have "\<not> IsName (Order q ! j)" using c by (auto simp: cursor_ok_def list_ex_iff)
    with j list_all2_nthD [OF al(2) j(2)] show "fPath f \<noteq> NameField" by simp
  qed
  have cmp: "compareTuples (map fieldOrder R) vr ?ws = (if r then - x else x)"
    unfolding x_def using c al(1) lens by (intro cursor_compare) auto
  have cap: "capVals ?ws (length (Order q)) = ?ws" using ws lens by (simp add: capVals_id)
  note b = cursor_bounds [OF R ok ws nm, of p, unfolded cmp]
  show "above (startBoundFor ck incl) k \<longleftrightarrow> (if r then x \<le> 0 \<and> (x = 0 \<longrightarrow> incl) else x \<ge> 0 \<and> (x = 0 \<longrightarrow> incl))"
    "below (endBoundFor ck incl) k \<longleftrightarrow> (if r then x \<ge> 0 \<and> (x = 0 \<longrightarrow> incl) else x \<le> 0 \<and> (x = 0 \<longrightarrow> incl))"
    unfolding k_def ck_def cap using b by (cases r; cases incl; auto simp: startBoundFor_def endBoundFor_def)+
qed

lemma cursors_range:
  fixes p :: bytes
  assumes "drop n (effectiveFields d) = R" "fields_ok R vr"
    and "cursor_ok q (Start q)" "cursor_ok q (End q)" and al: "list_all2 (aligned r) R (Order q)"
      "list_all2 (\<lambda>f o1. fPath f = NameField \<longleftrightarrow> IsName o1) R (Order q)"
  shows "in_range (endBounds d n p r q (startBounds d n p r q b)) (p @ fieldsKey R vr) \<longleftrightarrow>
    in_range b (p @ fieldsKey R vr) \<and> InCursorRange q vr"
proof -
  obtain lo hi where b: "b = (lo, hi)" by fastforce
  note cr = cursor_range [OF assms(1,2) _ al, where p = p]
  have st: "in_range (startBounds d n p r q b) (p @ fieldsKey R vr) \<longleftrightarrow> in_range b (p @ fieldsKey R vr) \<and>
      (case Start q of None \<Rightarrow> True | Some s \<Rightarrow> let c = compareToCursor q vr s in \<not> (c < 0 \<or> (c = 0 \<and> \<not> Before s)))"
    using assms(3) cr by (cases "Start q") (auto simp: startBounds_def b in_range_def Let_def)
  have en: "in_range (endBounds d n p r q b') (p @ fieldsKey R vr) \<longleftrightarrow> in_range b' (p @ fieldsKey R vr) \<and>
      (case End q of None \<Rightarrow> True | Some e \<Rightarrow> let c = compareToCursor q vr e in \<not> (c > 0 \<or> (c = 0 \<and> Before e)))" for b'
    using assms(4) cr
    by (cases "End q"; cases b') (auto simp: endBounds_def in_range_def Let_def)
  show ?thesis unfolding en st by (auto simp: InCursorRange_def Let_def split: option.splits)
qed

text \<open>The scan range of a matched definition, on the keys of documents and on other keys.\<close>

lemma bounds_unfold:
  assumes "n < length (effectiveFields d)"
  shows "bounds d n p r q =
    (case splitFilters q of
       Some (_, Some i, _) \<Rightarrow>
         (case ineqBounds d n p (fDesc (effectiveFields d ! n)) i (Some p, PrefixEnd p) of (b1, stop) \<Rightarrow>
            if stop then b1 else closeBounds (endBounds d n p r q (startBounds d n p r q b1)))
     | _ \<Rightarrow> closeBounds (endBounds d n p r q (startBounds d n p r q (Some p, PrefixEnd p))))"
  using assms by (auto simp: bounds_def Let_def split: option.splits prod.splits)

lemma cursor_bounds_Some: "\<exists>l' hi'. endBounds d n p r q (startBounds d n p r q (Some l, hi)) = (Some l', hi')"
  using maxBound_Some
  by (auto simp: endBounds_def startBounds_def Let_def split: option.splits prod.splits if_splits)

lemma in_range_cursors: "in_range (endBounds d n p r q (startBounds d n p r q b)) k \<Longrightarrow> in_range b k"
  by (cases b) (auto simp: endBounds_def startBounds_def in_range_def Let_def split: option.splits if_splits)

lemma in_range_close_cursors:
  "in_range (closeBounds (endBounds d n p r q (startBounds d n p r q (Some l, hi)))) k \<longleftrightarrow>
   in_range (endBounds d n p r q (startBounds d n p r q (Some l, hi))) k"
  using cursor_bounds_Some [of d n p r q l hi] in_range_closeBounds by metis

definition ineqHolds :: "inequality option \<Rightarrow> string \<Rightarrow> Fields \<Rightarrow> bool" where
  "ineqHolds io name flds \<longleftrightarrow> (case io of None \<Rightarrow> True
     | Some i \<Rightarrow> evalFieldFilter (iPath i) (opField (iOp i)) (iValue i) name flds)"

lemma bounds_prefix:
  assumes len: "n < length (effectiveFields d)" and k: "in_range (bounds d n p r q) k"
  shows "prefix p k"
proof -
  have k0: "in_range (Some p, PrefixEnd p) k \<longleftrightarrow> prefix p k"
    using prefix_in_range [of p k] by (simp add: in_range_def)
  show ?thesis
  proof (cases "\<exists>eq i inl. splitFilters q = Some (eq, Some i, inl)")
    case True
    then obtain eq i inl where sp: "splitFilters q = Some (eq, Some i, inl)" by blast
    obtain b1 stop where b1: "ineqBounds d n p (fDesc (effectiveFields d ! n)) i (Some p, PrefixEnd p) = (b1, stop)"
      by fastforce
    obtain l hi where "b1 = (Some l, hi)" using ineqBounds_Some [OF b1] by blast
    then have "in_range b1 k"
      using k in_range_cursors [of d n p r q b1 k]
      by (auto simp: bounds_unfold [OF len] sp b1 in_range_close_cursors split: if_splits)
    then show ?thesis by (rule ineqBounds_prefix [OF b1])
  next
    case False
    with k show ?thesis
      using in_range_cursors [of d n p r q "(Some p, PrefixEnd p)" k]
      by (auto simp: bounds_unfold [OF len] in_range_close_cursors k0 split: option.splits)
  qed
qed

lemma fields_ok_OrderKey:
  assumes "list_all2 (\<lambda>f o1. fPath f = NameField \<longleftrightarrow> IsName o1) R (Order q)" "valid_fields flds"
  shows "fields_ok R (OrderKey q name flds)"
proof -
  have "list_all valid_value (OrderKey q name flds)"
    using valid_OrderKey [OF assms(2), of q name] by (simp add: valid_tuple_def)
  moreover have "\<exists>r. orderValue name flds (Order q ! j) = ReferenceValue r" if "IsName (Order q ! j)" for j
    using that by (simp add: orderValue_def)
  ultimately show ?thesis
    using assms(1) by (auto simp: fields_ok_def field_ok_def OrderKey_def list_all2_conv_all_nth list_all_length)
qed

lemma ineq_first_term:
  assumes "splitFilters q = Some (eq, Some i, inl)" "Order q = o1 # os" "wf_order (Order q)"
    and "orderPresent q flds" "iPath i \<noteq> NameField"
  shows "\<not> IsName o1 \<and> (evalFieldFilter (iPath i) op w name flds \<longleftrightarrow> evalOp op (orderValue name flds o1) w)"
proof -
  from assms have o1: "\<not> IsName o1" "FieldPath_String (Path o1) = iPath i"
    by (auto simp: splitFilters_def split: option.splits if_splits)
  moreover have "Path o1 \<noteq> []" using assms o1 by (auto simp: wf_order_def)
  then have "ParseFieldPath (iPath i) = Inr (Path o1)"
    using o1(2) parseSegments_print [of "Path o1" "[]"] FieldPath_String_not_Nil [of "Path o1"]
    by (auto simp: ParseFieldPath_def FieldPath_String_def)
  moreover obtain a where "GetField flds (Path o1) = Some a"
    using assms o1 by (auto simp: orderPresent_def)
  ultimately show ?thesis using assms(5) by (auto simp: evalFieldFilter_def orderValue_def)
qed

lemma bounds_exact:
  assumes eff: "effectiveFields d = E @ R" "length E = n"
    and al: "list_all2 (aligned r) R (Order q)" "list_all2 (\<lambda>f o1. fPath f = NameField \<longleftrightarrow> IsName o1) R (Order q)"
    and cur: "cursor_ok q (Start q)" "cursor_ok q (End q)" and os: "wf_order (Order q)"
    and split: "splitFilters q = Some (eq, io, inl)" and io: "\<forall>i. io = Some i \<longrightarrow> valid_value (iValue i) \<and> iPath i \<noteq> NameField"
    and flds: "valid_fields flds" "orderPresent q flds"
  shows "in_range (bounds d n p r q) (scanKey R p q name flds) \<longleftrightarrow>
      ineqHolds io name flds \<and> InCursorRange q (OrderKey q name flds)"
proof -
  let ?vr = "OrderKey q name flds"
  let ?k = "p @ fieldsKey R ?vr"
  have R: "drop n (effectiveFields d) = R" using eff by simp
  have okR: "fields_ok R ?vr" using al(2) flds(1) by (rule fields_ok_OrderKey)
  obtain f R' o1 os' where fR: "R = f # R'" and oos: "Order q = o1 # os'"
    using al os by (cases R; cases "Order q") (auto simp: wf_order_def)
  have vr: "?vr = orderValue name flds o1 # tl ?vr" by (simp add: OrderKey_def oos)
  have len: "n < length (effectiveFields d)" and nth: "effectiveFields d ! n = f"
    using eff fR by (simp_all add: nth_append)
  note cr = cursors_range [OF R okR cur al, of p]
  show ?thesis
  proof (cases io)
    case None
    have "in_range (Some p, PrefixEnd p) ?k"
      using prefix_in_range [of p ?k] by (simp add: in_range_def)
    with None show ?thesis
      by (simp add: bounds_unfold [OF len] split in_range_close_cursors cr ineqHolds_def scanKey_def)
  next
    case (Some i)
    obtain b1 stop where b1: "ineqBounds d n p (fDesc f) i (Some p, PrefixEnd p) = (b1, stop)" by fastforce
    obtain l hi where l: "b1 = (Some l, hi)" using ineqBounds_Some [OF b1] by blast
    have ineq: "\<not> IsName o1" "evalFieldFilter (iPath i) (opField (iOp i)) (iValue i) name flds \<longleftrightarrow>
        evalOp (opField (iOp i)) (orderValue name flds o1) (iValue i)"
      using ineq_first_term [OF split [unfolded Some] oos os flds(2)] io Some by auto
    then have i: "fPath f \<noteq> NameField" "valid_value (iValue i)" using al(2) io Some by (simp_all add: fR oos)
    note ir = ineqBounds_range [OF R [unfolded fR] _ i b1, of "orderValue name flds o1" "tl ?vr"]
    have rng: "in_range b1 ?k \<longleftrightarrow> evalFieldFilter (iPath i) (opField (iOp i)) (iValue i) name flds"
      and stop: "stop \<longleftrightarrow> IsNaN (iValue i)"
      using ir okR ineq vr fR by simp_all
    show ?thesis
    proof (cases stop)
      case True
      then have "\<not> evalFieldFilter (iPath i) (opField (iOp i)) (iValue i) name flds"
        using ineq stop by (simp add: evalOp_range)
      with rng True show ?thesis
        by (simp add: bounds_unfold [OF len] split Some nth b1 ineqHolds_def scanKey_def)
    next
      case False
      then show ?thesis
        using cr rng
        by (simp add: bounds_unfold [OF len] split Some nth b1 l in_range_close_cursors ineqHolds_def scanKey_def)
    qed
  qed
qed

section \<open>The collected filters are the filter\<close>

fun valid_filter :: "Filter \<Rightarrow> bool" where
  "valid_filter (CompositeFilter op subs) = list_all valid_filter subs"
| "valid_filter (FieldFilter fp op v) = valid_value v"
| "valid_filter f = True"

definition inOp :: "inFilter \<Rightarrow> FieldOp" where
  "inOp i = (if inContains i then ARRAY_CONTAINS_ANY else IN_LIST)"

definition collectedHolds :: "collected \<Rightarrow> string \<Rightarrow> Fields \<Rightarrow> bool" where
  "collectedHolds st name flds \<longleftrightarrow>
     (\<forall>pv \<in> set (c_eq st). evalFieldFilter (fst pv) EQUAL (snd pv) name flds) \<and>
     ineqHolds (c_ineq st) name flds \<and>
     (\<forall>i. c_in st = Some i \<longrightarrow> evalFieldFilter (inPath i) (inOp i) (ArrayValue (inValues i)) name flds) \<and>
     (\<forall>pv. c_contains st = Some pv \<longrightarrow> evalFieldFilter (fst pv) ARRAY_CONTAINS (snd pv) name flds)"

definition collected_ok :: "collected \<Rightarrow> bool" where
  "collected_ok st \<longleftrightarrow> distinct (map fst (c_eq st)) \<and>
     (\<forall>pv \<in> set (c_eq st). fst pv \<noteq> NameField \<and> valid_value (snd pv)) \<and>
     (\<forall>i. c_ineq st = Some i \<longrightarrow> valid_value (iValue i) \<and> iPath i \<noteq> NameField) \<and>
     (\<forall>i. c_in st = Some i \<longrightarrow> inPath i \<noteq> NameField \<and> (\<forall>v \<in> set (inValues i). valid_value v)) \<and>
     (\<forall>pv. c_contains st = Some pv \<longrightarrow> fst pv \<noteq> NameField \<and> valid_value (snd pv))"

lemma update_absent: "map_of m k = None \<Longrightarrow> AList.update k v m = m @ [(k, v)]"
  by (induction m) (auto split: if_splits)

lemma evalFieldFilter_array:
  "op = IN_LIST \<or> op = ARRAY_CONTAINS_ANY \<Longrightarrow>
   evalFieldFilter fp op (ArrayValue (GetArrayValues v)) name flds = evalFieldFilter fp op v name flds"
proof -
  assume "op = IN_LIST \<or> op = ARRAY_CONTAINS_ANY"
  then have "evalOp op a (ArrayValue (GetArrayValues v)) = evalOp op a v" for a
    by (elim disjE) (simp_all add: evalOp_def)
  then show ?thesis by (simp add: evalFieldFilter_def split: sum.split option.split)
qed

lemma collectField_correct:
  assumes "collectField fp op v st = Some st'"
  shows "collectedHolds st' name flds \<longleftrightarrow> collectedHolds st name flds \<and> evalFieldFilter fp op v name flds"
  using assms evalFieldFilter_array [of op fp v name flds]
  by (cases op)
    (auto simp: collectField_def collectedHolds_def ineqHolds_def inOp_def update_absent split: if_splits)

lemma valid_GetArrayValues: "valid_value v \<Longrightarrow> w \<in> set (GetArrayValues v) \<Longrightarrow> valid_value w"
  by (cases v) auto

lemma collected_ok_updates:
  assumes "collected_ok st" "fp \<noteq> NameField" "valid_value v"
  shows "map_of (c_eq st) fp = None \<Longrightarrow> collected_ok (st\<lparr>c_eq := c_eq st @ [(fp, v)]\<rparr>)"
    and "collected_ok (st\<lparr>c_ineq := Some \<lparr>iPath = fp, iOp = op, iValue = v\<rparr>\<rparr>)"
    and "collected_ok (st\<lparr>c_in := Some \<lparr>inPath = fp, inValues = GetArrayValues v, inContains = b\<rparr>\<rparr>)"
    and "collected_ok (st\<lparr>c_contains := Some (fp, v)\<rparr>)"
proof -
  show "map_of (c_eq st) fp = None \<Longrightarrow> collected_ok (st\<lparr>c_eq := c_eq st @ [(fp, v)]\<rparr>)"
    using assms by (auto simp: collected_ok_def map_of_eq_None_iff)
qed (use assms valid_GetArrayValues [OF assms(3)] in \<open>simp_all add: collected_ok_def\<close>)

lemma collectField_ok:
  assumes "collectField fp op v st = Some st'" "collected_ok st" "valid_value v"
  shows "collected_ok st'"
proof -
  have "fp \<noteq> NameField" using assms(1) by (auto simp: collectField_def)
  note up = collected_ok_updates [OF assms(2) this assms(3)]
  show ?thesis
    using assms(1) up by (cases op) (auto simp: collectField_def update_absent split: if_splits)
qed

lemma collect_correct:
  "collect f st = Some st' \<Longrightarrow>
   collectedHolds st' name flds \<longleftrightarrow> collectedHolds st name flds \<and> evalFilter f name flds"
  "collectAll fs st = Some st' \<Longrightarrow>
   collectedHolds st' name flds \<longleftrightarrow> collectedHolds st name flds \<and> list_all (\<lambda>f. evalFilter f name flds) fs"
proof (induction f st and fs st arbitrary: st' and st' rule: collect_collectAll.induct)
  case (2 path op v st)
  then show ?case by (simp add: collectField_correct)
next
  case (6 f fs st)
  then obtain st1 where "collect f st = Some st1" "collectAll fs st1 = Some st'" by (auto split: option.splits)
  with 6 show ?case by simp
qed (simp_all split: if_splits)

lemma collect_ok:
  "collect f st = Some st' \<Longrightarrow> collected_ok st \<Longrightarrow> valid_filter f \<Longrightarrow> collected_ok st'"
  "collectAll fs st = Some st' \<Longrightarrow> collected_ok st \<Longrightarrow> list_all valid_filter fs \<Longrightarrow> collected_ok st'"
proof (induction f st and fs st arbitrary: st' and st' rule: collect_collectAll.induct)
  case (2 path op v st)
  then show ?case by (simp add: collectField_ok)
next
  case (6 f fs st)
  then obtain st1 where "collect f st = Some st1" "collectAll fs st1 = Some st'" by (auto split: option.splits)
  with 6 show ?case by simp
qed (simp_all split: if_splits)

definition valid_where :: "Query \<Rightarrow> bool" where
  "valid_where q \<longleftrightarrow> (case Where q of None \<Rightarrow> True | Some f \<Rightarrow> valid_filter f)"

lemma collectWhere_correct:
  assumes "collectWhere q = Some st"
  shows "Matches q name flds \<longleftrightarrow> orderPresent q flds \<and> collectedHolds st name flds"
    and "valid_where q \<Longrightarrow> collected_ok st"
proof -
  have none: "collectedHolds noneCollected name flds" "collected_ok noneCollected"
    by (simp_all add: collectedHolds_def ineqHolds_def noneCollected_def collected_ok_def)
  show "Matches q name flds \<longleftrightarrow> orderPresent q flds \<and> collectedHolds st name flds"
    using assms none collect_correct(1) [of _ noneCollected st name flds]
    by (auto simp: collectWhere_def Matches_def orderPresent_def split: option.splits)
  show "valid_where q \<Longrightarrow> collected_ok st"
    using assms none collect_ok(1) [of _ noneCollected st]
    by (auto simp: collectWhere_def valid_where_def split: option.splits)
qed

section \<open>One range is exact\<close>

text \<open>
  What the index definition and the query must satisfy for a plan to be exact: distinct paths, none
  of them the name or empty; array-contains components ascending and only for the path of the query's
  array filter, so none in the ordering part; array-contains-any on the path of that filter;
  cursors with values, none of them for the name; operands that are valid values. The planner
  checks only some of this. Theory \<open>PlanLimits\<close> and the last theorem here have a query, for each of these
  conditions that a definition or a query can break, which it accepts and serves wrongly.
\<close>

definition plan_ok :: "Query \<Rightarrow> Def \<Rightarrow> bool" where
  "plan_ok q d \<longleftrightarrow> wf_def d \<and> (\<forall>f \<in> set (dFields d). fContains f \<longrightarrow> fPath f = containsPath q) \<and>
     (case splitFilters q of
        Some (_, _, Some i) \<Rightarrow> inContains i \<longrightarrow> inPath i = containsPath q
      | _ \<Rightarrow> True) \<and>
     valid_where q \<and> cursor_ok q (Start q) \<and> cursor_ok q (End q) \<and> wf_order (Order q)"

lemma splitFilters_collect:
  assumes "splitFilters q = Some (eq, io, inl)"
  obtains st where "collectWhere q = Some st" "splitContains st = Some eq" "io = c_ineq st" "inl = c_in st"
    "\<forall>i. inl = Some i \<longrightarrow> map_of eq (inPath i) = None \<and> inValues i \<noteq> []"
  using assms by (auto simp: splitFilters_def split: option.splits if_splits)

lemma evalFieldFilter_empty_path: "\<not> evalFieldFilter [] op v name flds"
  by (simp add: evalFieldFilter_def ParseFieldPath_def)

lemma eqHolds_EQUAL:
  "(cP \<noteq> [] \<Longrightarrow> fst pv \<noteq> cP) \<Longrightarrow> eqHolds cP name flds pv = evalFieldFilter (fst pv) EQUAL (snd pv) name flds"
  by (auto simp: eqHolds_def)

lemma split_eq:
  assumes split: "splitFilters q = Some (eq, io, inl)" and st: "collectWhere q = Some st" and ok: "collected_ok st"
  shows "(\<forall>pv \<in> set eq. eqHolds (containsPath q) name flds pv) \<longleftrightarrow>
      (\<forall>pv \<in> set (c_eq st). evalFieldFilter (fst pv) EQUAL (snd pv) name flds) \<and>
      (\<forall>pv. c_contains st = Some pv \<longrightarrow> evalFieldFilter (fst pv) ARRAY_CONTAINS (snd pv) name flds)"
    and "distinct (map fst eq)" "\<forall>pv \<in> set eq. valid_value (snd pv) \<and> fst pv \<noteq> NameField"
    and "containsOk (containsPath q) eq"
proof -
  from split obtain st' where "collectWhere q = Some st'" "splitContains st' = Some eq" "inl = c_in st'"
    and inl: "\<forall>i. inl = Some i \<longrightarrow> map_of eq (inPath i) = None" by (rule splitFilters_collect) auto
  with st have sc: "splitContains st = Some eq" and ci: "inl = c_in st" by auto
  let ?cP = "containsPath q"
  have "((\<forall>pv \<in> set eq. eqHolds ?cP name flds pv) \<longleftrightarrow>
      (\<forall>pv \<in> set (c_eq st). evalFieldFilter (fst pv) EQUAL (snd pv) name flds) \<and>
      (\<forall>pv. c_contains st = Some pv \<longrightarrow> evalFieldFilter (fst pv) ARRAY_CONTAINS (snd pv) name flds)) \<and>
    distinct (map fst eq) \<and> (\<forall>pv \<in> set eq. valid_value (snd pv) \<and> fst pv \<noteq> NameField) \<and> containsOk ?cP eq"
  proof (cases "c_contains st")
    case None
    with sc have eq: "eq = c_eq st" by (simp add: splitContains_def)
    have cP: "?cP \<noteq> [] \<Longrightarrow> map_of eq ?cP = None"
      using None st inl ci by (auto simp: containsPath_def split: option.splits if_splits)
    have "eqHolds ?cP name flds pv = evalFieldFilter (fst pv) EQUAL (snd pv) name flds" if "pv \<in> set eq" for pv
      using cP that by (intro eqHolds_EQUAL) (metis imageI map_of_eq_None_iff)
    with None eq ok cP show ?thesis by (auto simp: collected_ok_def containsOk_def)
  next
    case (Some pv)
    obtain pc vc where pv: "pv = (pc, vc)" by fastforce
    with Some sc have eq: "eq = c_eq st @ [(pc, vc)]" and pc: "map_of (c_eq st) pc = None"
      and vc: "\<not> IsNull vc" "\<not> IsNaN vc"
      by (auto simp: splitContains_def update_absent split: if_splits)
    have cP: "?cP = pc" using Some st pv by (simp add: containsPath_def)
    have "eqHolds ?cP name flds x = evalFieldFilter (fst x) EQUAL (snd x) name flds" if "x \<in> set (c_eq st)" for x
      using that pc cP by (intro eqHolds_EQUAL) (metis imageI map_of_eq_None_iff)
    moreover have "eqHolds ?cP name flds (pc, vc) = evalFieldFilter pc ARRAY_CONTAINS vc name flds"
      by (cases "pc = []") (simp_all add: eqHolds_def cP evalFieldFilter_empty_path)
    moreover have "containsOk ?cP eq" using pc vc cP by (simp add: containsOk_def eq map_add_def)
    ultimately show ?thesis
      using Some pv eq ok pc by (auto simp: collected_ok_def map_of_eq_None_iff)
  qed
  then show "(\<forall>pv \<in> set eq. eqHolds ?cP name flds pv) \<longleftrightarrow>
      (\<forall>pv \<in> set (c_eq st). evalFieldFilter (fst pv) EQUAL (snd pv) name flds) \<and>
      (\<forall>pv. c_contains st = Some pv \<longrightarrow> evalFieldFilter (fst pv) ARRAY_CONTAINS (snd pv) name flds)"
    "distinct (map fst eq)" "\<forall>pv \<in> set eq. valid_value (snd pv) \<and> fst pv \<noteq> NameField"
    "containsOk ?cP eq" by blast+
qed

text \<open>An array-contains component that is filtered on stands in the equality prefix.\<close>

lemma order_fields_plain:
  assumes wf: "wf_def d" and cont: "\<forall>f \<in> set (dFields d). fContains f \<longrightarrow> fPath f = cP"
    and eff: "effectiveFields d = E @ R" and E: "E = take (length eq) (dFields d)" "length E = length eq"
    and vals: "list_all2 (\<lambda>f v. map_of eq (fPath f) = Some v \<and> Q f) E vals"
    and eq: "distinct (map fst eq)" "cP \<noteq> [] \<Longrightarrow> cP \<in> fst ` set eq"
  shows "\<forall>f \<in> set R. \<not> fContains f"
proof (intro ballI notI)
  fix f assume f: "f \<in> set R" and fc: "fContains f"
  let ?n = "length eq"
  have dist: "distinct (map fPath (take ?n (dFields d) @ drop ?n (dFields d)))" using wf by (simp add: wf_def_def)
  have "R = drop ?n (dFields d) @ [\<lparr>fPath = NameField, fDesc = trailingDirection d, fContains = False\<rparr>]"
    using eff E by (simp add: wf_def_effective [OF wf]) (metis append_eq_conv_conj append_take_drop_id append.assoc)
  with f fc have fd: "f \<in> set (drop ?n (dFields d))" by auto
  then have path: "fPath f = cP" "cP \<noteq> []" using cont fc wf by (auto simp: wf_def_def dest: in_set_dropD)
  have "\<forall>g \<in> set E. map_of eq (fPath g) \<noteq> None" using vals by (induction rule: list_all2_induct) auto
  moreover have "distinct (map fPath E)" using dist unfolding E(1) map_append distinct_append by blast
  ultimately have "fst ` set eq = fPath ` set E" using eq_covered [OF eq(1)] E by blast
  with eq(2) path have "fPath f \<in> fPath ` set (take ?n (dFields d))" using E by simp
  with dist fd show False unfolding map_append distinct_append by auto
qed

text \<open>
  For any equality map the definition matches, the keys of a document in the range: none or
  exactly the scan key.
\<close>

lemma range_keys:
  assumes ok: "plan_ok q d" and split: "splitFilters q = Some (eq0, io, inl)"
    and m: "match d eq (containsPath q) (Order q) = Some (p, r)"
    and eq: "distinct (map fst eq)" "containsOk (containsPath q) eq" "\<forall>pv \<in> set eq. valid_value (snd pv)"
      "containsPath q \<noteq> [] \<Longrightarrow> containsPath q \<in> fst ` set eq"
    and io: "\<forall>i. io = Some i \<longrightarrow> valid_value (iValue i) \<and> iPath i \<noteq> NameField"
    and flds: "valid_fields flds"
  shows "{k \<in> set (Keys d name flds). in_range (bounds d (length eq) p r q) k} =
    (if (\<forall>pv \<in> set eq. eqHolds (containsPath q) name flds pv) \<and> orderPresent q flds \<and>
        ineqHolds io name flds \<and> InCursorRange q (OrderKey q name flds)
     then {scanKey (drop (length eq) (effectiveFields d)) p q name flds} else {})"
proof -
  let ?cP = "containsPath q"
  have wf: "wf_def d" "wf_order (Order q)" and cur: "cursor_ok q (Start q)" "cursor_ok q (End q)"
    using ok by (simp_all add: plan_ok_def)
  from match_parts [OF wf m] obtain E R vals where eff: "effectiveFields d = E @ R" and lenE: "length E = length eq"
    and E: "E = take (length eq) (dFields d)"
    and vals: "list_all2 (\<lambda>f v. map_of eq (fPath f) = Some v \<and> fContains f = (?cP \<noteq> [] \<and> fPath f = ?cP)) E vals"
    and al: "list_all2 (aligned r) R (Order q)" "list_all2 (\<lambda>f o1. fPath f = NameField \<longleftrightarrow> IsName o1) R (Order q)"
    and p: "p = fieldsKey E vals" by blast
  have R: "\<forall>f \<in> set R. \<not> fContains f"
    using ok eff E lenE vals eq(1,4) by (intro order_fields_plain) (auto simp: plan_ok_def)
  have n: "length eq < length (effectiveFields d)"
    using eff lenE al wf(2) by (cases R; cases "Order q") (auto simp: wf_order_def)
  have sk: "drop (length eq) (effectiveFields d) = R" using eff lenE by simp
  note pk = prefix_keys [OF wf eff vals al E lenE R eq(1-3) flds, of name]
  have sub: "{k \<in> set (Keys d name flds). in_range (bounds d (length eq) p r q) k} =
      {k \<in> {k \<in> set (Keys d name flds). prefix p k}. in_range (bounds d (length eq) p r q) k}"
    using bounds_prefix [OF n] by auto
  show ?thesis
    unfolding sub pk [folded p] sk
    using bounds_exact [OF eff lenE al cur wf(2) split io flds, of p name] by auto
qed

section \<open>All ranges of a plan\<close>

lemma match_reversed:
  "match d eq cP os = Some (p, r) \<Longrightarrow> match d eq' cP os = Some (p', r') \<Longrightarrow> length eq = length eq' \<Longrightarrow> r = r'"
  by (auto simp: match_def Let_def split: if_splits option.splits)

definition goodValues :: "inFilter \<Rightarrow> Value set" where
  "goodValues i = {v \<in> set (inValues i). \<not> IsNull v \<and> \<not> IsNaN v}"

lemma inRanges_set:
  assumes "inRanges d eq cP path q seen ranges rv vs = Some (ranges', rv')" "map_of eq path = None"
    and "\<forall>v p r. match d (eq @ [(path, v)]) cP (Order q) = Some (p, r) \<longrightarrow> r = rho"
    and "\<forall>p \<in> set seen. rangeFor d (Suc (length eq)) p rho q \<in> set ranges" "ranges \<noteq> [] \<longrightarrow> rv = rho"
  shows "set ranges' = set ranges \<union> {rangeFor d (Suc (length eq)) p rho q |v p.
      v \<in> set vs \<and> \<not> IsNull v \<and> \<not> IsNaN v \<and> match d (eq @ [(path, v)]) cP (Order q) = Some (p, rho)} \<and>
    (\<forall>v \<in> set vs. \<not> IsNull v \<and> \<not> IsNaN v \<longrightarrow> (\<exists>p. match d (eq @ [(path, v)]) cP (Order q) = Some (p, rho))) \<and>
    (ranges' \<noteq> [] \<longrightarrow> rv' = rho)"
  using assms(1,4,5)
proof (induction vs arbitrary: seen ranges rv)
  case (Cons v vs)
  let ?R = "\<lambda>p. rangeFor d (Suc (length eq)) p rho q"
  show ?case
  proof (cases "IsNull v \<or> IsNaN v")
    case True
    with Cons.prems(1) have "inRanges d eq cP path q seen ranges rv vs = Some (ranges', rv')" by simp
    from Cons.IH [OF this Cons.prems(2,3)] True show ?thesis by (simp add: conj_disj_distribL) blast
  next
    case False
    with Cons.prems(1) assms(2) obtain p r where m: "match d (eq @ [(path, v)]) cP (Order q) = Some (p, r)"
      by (cases "match d (eq @ [(path, v)]) cP (Order q)") (auto simp: update_absent Let_def)
    with assms(3) have r: "r = rho" by blast
    show ?thesis
    proof (cases "p \<in> set seen")
      case True
      with Cons.prems(1) False m assms(2) have "inRanges d eq cP path q seen ranges rv vs = Some (ranges', rv')"
        by (simp add: update_absent Let_def)
      from Cons.IH [OF this Cons.prems(2,3)] True Cons.prems(2) m r False show ?thesis by auto
    next
      case new: False
      with Cons.prems(1) False m r assms(2)
      have "inRanges d eq cP path q (p # seen) (ranges @ [?R p]) rho vs = Some (ranges', rv')"
        by (simp add: update_absent Let_def)
      from Cons.IH [OF this] Cons.prems(2) m r False show ?thesis by auto
    qed
  qed
qed simp

text \<open>The equality maps a plan scans: one, or one per value of the in-list.\<close>

definition planEqs :: "eqMap \<Rightarrow> inFilter option \<Rightarrow> eqMap set" where
  "planEqs eq inl = (case inl of None \<Rightarrow> {eq} | Some i \<Rightarrow> (\<lambda>v. eq @ [(inPath i, v)]) ` goodValues i)"

lemma image_pairs: "{F e p |e p. e \<in> g ` A \<and> M e p} = {F (g v) p |v p. v \<in> A \<and> M (g v) p}"
  by blast

lemma planRanges_set:
  assumes "planRanges d eq inl q = Some (ranges, reversed)"
    and "\<forall>i. inl = Some i \<longrightarrow> map_of eq (inPath i) = None"
  obtains rho where
    "set ranges = {rangeFor d (length e) p rho q |e p. e \<in> planEqs eq inl \<and> match d e (containsPath q) (Order q) = Some (p, rho)}"
    "\<forall>e \<in> planEqs eq inl. \<exists>p. match d e (containsPath q) (Order q) = Some (p, rho)"
    "ranges \<noteq> [] \<longrightarrow> reversed = rho"
proof (cases inl)
  case None
  with assms(1) obtain p where "match d eq (containsPath q) (Order q) = Some (p, reversed)"
    "ranges = [rangeFor d (length eq) p reversed q]"
    by (auto simp: planRanges_def Let_def split: option.splits)
  with None show thesis by (intro that [of reversed]) (auto simp: planEqs_def)
next
  case (Some i)
  with assms(1) obtain ranges' rv' where ir: "inRanges d eq (containsPath q) (inPath i) q [] [] False (inValues i) = Some (ranges', rv')"
    and res: "ranges = ranges'" "ranges \<noteq> [] \<longrightarrow> reversed = rv'"
    by (auto simp: planRanges_def Let_def split: option.splits if_splits)
  obtain rho where rho: "\<forall>v p r. match d (eq @ [(inPath i, v)]) (containsPath q) (Order q) = Some (p, r) \<longrightarrow> r = rho"
  proof (cases "\<exists>v p r. match d (eq @ [(inPath i, v)]) (containsPath q) (Order q) = Some (p, r)")
    case True
    then obtain v p r where "match d (eq @ [(inPath i, v)]) (containsPath q) (Order q) = Some (p, r)" by blast
    with match_reversed show ?thesis by (intro that [of r]) fastforce
  qed (use that in blast)
  have dup: "map_of eq (inPath i) = None" using assms(2) Some by simp
  note sets = inRanges_set [OF ir dup rho, simplified]
  have "{rangeFor d (length e) p rho q |e p. e \<in> planEqs eq inl \<and> match d e (containsPath q) (Order q) = Some (p, rho)} =
      {rangeFor d (Suc (length eq)) p rho q |v p. v \<in> set (inValues i) \<and> \<not> IsNull v \<and> \<not> IsNaN v \<and>
        match d (eq @ [(inPath i, v)]) (containsPath q) (Order q) = Some (p, rho)}"
    unfolding Some planEqs_def option.case
      image_pairs [where F = "\<lambda>e p. rangeFor d (length e) p rho q"
        and M = "\<lambda>e p. match d e (containsPath q) (Order q) = Some (p, rho)"]
    by (simp add: goodValues_def conj_assoc)
  with sets res(1) have "set ranges = {rangeFor d (length e) p rho q |e p. e \<in> planEqs eq inl \<and>
      match d e (containsPath q) (Order q) = Some (p, rho)}" by simp
  moreover have "\<forall>e \<in> planEqs eq inl. \<exists>p. match d e (containsPath q) (Order q) = Some (p, rho)"
    using sets by (auto simp: Some planEqs_def goodValues_def)
  moreover have "ranges \<noteq> [] \<longrightarrow> reversed = rho" using sets res by auto
  ultimately show thesis by (rule that)
qed

lemma tryDefs_Some:
  "tryDefs q eq inl ready ds = Some plan \<Longrightarrow> pDef plan \<in> set ds \<and>
     planRanges (pDef plan) eq inl q = Some (Ranges plan, Reversed plan) \<and>
     ready (ID (pDef plan)) \<and> dCollectionID (pDef plan) = CollectionID q \<and> dGroup (pDef plan) = AllDescendants q \<and>
     Dedup plan = (case inl of None \<Rightarrow> False | Some i \<Rightarrow> inContains i)"
  by (induction ds) (auto split: if_splits option.splits)

lemma For_Some:
  assumes "For q defs ready = Some plan"
  obtains eq io inl where "splitFilters q = Some (eq, io, inl)" "tryDefs q eq inl ready defs = Some plan"
  using assms by (auto simp: For_def split: if_splits option.splits)

lemma planEqs_ok:
  assumes "splitFilters q = Some (eq, io, inl)" "plan_ok q d" "e \<in> planEqs eq inl"
  shows "distinct (map fst e)" "containsOk (containsPath q) e" "\<forall>pv \<in> set e. valid_value (snd pv)"
    "containsPath q \<noteq> [] \<Longrightarrow> containsPath q \<in> fst ` set e"
    "\<forall>i. io = Some i \<longrightarrow> valid_value (iValue i) \<and> iPath i \<noteq> NameField"
proof -
  from assms(1) obtain st where st: "collectWhere q = Some st" "splitContains st = Some eq" "io = c_ineq st"
    "inl = c_in st" and dup: "\<forall>i. inl = Some i \<longrightarrow> map_of eq (inPath i) = None"
    by (rule splitFilters_collect) auto
  have ok: "collected_ok st" using collectWhere_correct(2) [OF st(1)] assms(2) by (simp add: plan_ok_def)
  note sp = split_eq [OF assms(1) st(1) ok]
  have cP: "containsPath q \<noteq> [] \<Longrightarrow> containsPath q \<in> fst ` set eq \<or> (\<exists>i. inl = Some i \<and> containsPath q = inPath i)"
    using st by (auto simp: containsPath_def splitContains_def update_absent split: option.splits if_splits)
  show "\<forall>i. io = Some i \<longrightarrow> valid_value (iValue i) \<and> iPath i \<noteq> NameField"
    using ok st(3) by (simp add: collected_ok_def)
  have "distinct (map fst e) \<and> containsOk (containsPath q) e \<and> (\<forall>pv \<in> set e. valid_value (snd pv)) \<and>
      (containsPath q \<noteq> [] \<longrightarrow> containsPath q \<in> fst ` set e)"
  proof (cases inl)
    case None
    with assms(3) sp cP show ?thesis by (auto simp: planEqs_def)
  next
    case (Some i)
    with assms(3) obtain v where e: "e = eq @ [(inPath i, v)]" and v: "v \<in> set (inValues i)" "\<not> IsNull v" "\<not> IsNaN v"
      by (auto simp: planEqs_def goodValues_def)
    have new: "inPath i \<notin> fst ` set eq" using dup Some by (simp add: map_of_eq_None_iff)
    have "valid_value v" using ok Some st(4) v by (simp add: collected_ok_def)
    moreover have "containsOk (containsPath q) e"
      using sp(4) v dup Some by (auto simp: containsOk_def e map_add_def split: option.splits if_splits)
    ultimately show ?thesis using sp new cP Some by (auto simp: e)
  qed
  then show "distinct (map fst e)" "containsOk (containsPath q) e" "\<forall>pv \<in> set e. valid_value (snd pv)"
    "containsPath q \<noteq> [] \<Longrightarrow> containsPath q \<in> fst ` set e" by blast+
qed

lemma inFilter_disjunction:
  "evalFieldFilter (inPath i) (inOp i) (ArrayValue (inValues i)) name flds \<longleftrightarrow>
   (\<exists>v \<in> goodValues i. evalFieldFilter (inPath i) (if inContains i then ARRAY_CONTAINS else EQUAL) v name flds)"
proof -
  have "evalOp (inOp i) a (ArrayValue (inValues i)) \<longleftrightarrow>
      (\<exists>v \<in> goodValues i. evalOp (if inContains i then ARRAY_CONTAINS else EQUAL) a v)" for a
    by (auto simp: evalOp_def inOp_def goodValues_def list_operator_loops)
  then show ?thesis by (auto simp: evalFieldFilter_def split: sum.splits option.splits)
qed

lemma matches_planEqs:
  assumes split: "splitFilters q = Some (eq, io, inl)" and ok: "plan_ok q d"
  shows "Matches q name flds \<longleftrightarrow> orderPresent q flds \<and> ineqHolds io name flds \<and>
    (\<exists>e \<in> planEqs eq inl. \<forall>pv \<in> set e. eqHolds (containsPath q) name flds pv)"
proof -
  let ?cP = "containsPath q"
  from split obtain st where st: "collectWhere q = Some st" "splitContains st = Some eq" "io = c_ineq st"
    "inl = c_in st" and dup: "\<forall>i. inl = Some i \<longrightarrow> map_of eq (inPath i) = None"
    by (rule splitFilters_collect) auto
  have cok: "collected_ok st" using collectWhere_correct(2) [OF st(1)] ok by (simp add: plan_ok_def)
  note sp = split_eq(1) [OF split st(1) cok, of name flds]
  have "(\<forall>i. inl = Some i \<longrightarrow> evalFieldFilter (inPath i) (inOp i) (ArrayValue (inValues i)) name flds) \<and>
      (\<forall>pv \<in> set eq. eqHolds ?cP name flds pv) \<longleftrightarrow>
      (\<exists>e \<in> planEqs eq inl. \<forall>pv \<in> set e. eqHolds ?cP name flds pv)"
  proof (cases inl)
    case None
    then show ?thesis by (simp add: planEqs_def)
  next
    case (Some i)
    have "eqHolds ?cP name flds (inPath i, v) =
        evalFieldFilter (inPath i) (if inContains i then ARRAY_CONTAINS else EQUAL) v name flds" for v
    proof (cases "inContains i")
      case True
      then have "inPath i = ?cP" using ok split Some by (simp add: plan_ok_def)
      then show ?thesis using True by (simp add: eqHolds_def) (metis evalFieldFilter_empty_path)
    next
      case False
      have "?cP \<noteq> [] \<Longrightarrow> ?cP \<in> fst ` set eq"
        using st False Some by (auto simp: containsPath_def splitContains_def update_absent split: option.splits if_splits)
      then show ?thesis using dup Some False by (auto simp: eqHolds_def map_of_eq_None_iff)
    qed
    then show ?thesis by (auto simp: Some planEqs_def inFilter_disjunction)
  qed
  moreover have "Matches q name flds \<longleftrightarrow> orderPresent q flds \<and> collectedHolds st name flds"
    by (rule collectWhere_correct(1) [OF st(1)])
  ultimately show ?thesis using sp by (auto simp: collectedHolds_def st(3,4))
qed

text \<open>The keys of a document in one range of a plan.\<close>

lemma plan_range:
  assumes "For q defs ready = Some plan" "plan_ok q (pDef plan)" "r \<in> set (Ranges plan)"
  obtains e p eq io inl where "splitFilters q = Some (eq, io, inl)" "e \<in> planEqs eq inl" "SuffixFrom r = length p"
    "match (pDef plan) e (containsPath q) (Order q) = Some (p, Reversed plan)"
    "\<And>name flds. valid_fields flds \<Longrightarrow>
      {k \<in> set (Keys (pDef plan) name flds). in_range (Lo r, Hi r) k} =
        (if (\<forall>pv \<in> set e. eqHolds (containsPath q) name flds pv) \<and> orderPresent q flds \<and>
            ineqHolds io name flds \<and> InCursorRange q (OrderKey q name flds)
         then {scanKey (drop (length e) (effectiveFields (pDef plan))) p q name flds} else {})"
proof -
  from assms(1) obtain eq io inl where split: "splitFilters q = Some (eq, io, inl)"
    and td: "tryDefs q eq inl ready defs = Some plan" by (rule For_Some)
  have dup: "\<forall>i. inl = Some i \<longrightarrow> map_of eq (inPath i) = None"
    using split by (rule splitFilters_collect) auto
  from tryDefs_Some [OF td] have "planRanges (pDef plan) eq inl q = Some (Ranges plan, Reversed plan)" by blast
  then obtain rho where
    "set (Ranges plan) = {rangeFor (pDef plan) (length e) p rho q |e p. e \<in> planEqs eq inl \<and>
       match (pDef plan) e (containsPath q) (Order q) = Some (p, rho)}" and "Ranges plan \<noteq> [] \<longrightarrow> Reversed plan = rho"
    using dup by (rule planRanges_set)
  moreover from assms(3) have "Ranges plan \<noteq> []" by auto
  ultimately obtain e p where e: "e \<in> planEqs eq inl" and m: "match (pDef plan) e (containsPath q) (Order q) = Some (p, Reversed plan)"
    and r: "r = rangeFor (pDef plan) (length e) p (Reversed plan) q"
    using assms(3) by blast
  note ok = planEqs_ok [OF split assms(2) e]
  have "(Lo r, Hi r) = bounds (pDef plan) (length e) p (Reversed plan) q" "SuffixFrom r = length p"
    by (simp_all add: r rangeFor_def split: prod.split)
  with range_keys [OF assms(2) split m ok] m split e show thesis by (intro that [of eq io inl e p]) simp_all
qed

lemma plan_covers:
  assumes "For q defs ready = Some plan" "splitFilters q = Some (eq, io, inl)" "e \<in> planEqs eq inl"
  obtains p r where "r \<in> set (Ranges plan)" "r = rangeFor (pDef plan) (length e) p (Reversed plan) q"
    "match (pDef plan) e (containsPath q) (Order q) = Some (p, Reversed plan)"
proof -
  from assms(1) obtain eq' io' inl' where "splitFilters q = Some (eq', io', inl')"
    "tryDefs q eq' inl' ready defs = Some plan" by (rule For_Some)
  with assms(2) have td: "tryDefs q eq inl ready defs = Some plan" by simp
  have dup: "\<forall>i. inl = Some i \<longrightarrow> map_of eq (inPath i) = None"
    using assms(2) by (rule splitFilters_collect) auto
  from tryDefs_Some [OF td] have "planRanges (pDef plan) eq inl q = Some (Ranges plan, Reversed plan)" by blast
  then obtain rho where
    rs: "set (Ranges plan) = {rangeFor (pDef plan) (length e) p rho q |e p. e \<in> planEqs eq inl \<and>
       match (pDef plan) e (containsPath q) (Order q) = Some (p, rho)}"
    and m: "\<forall>e \<in> planEqs eq inl. \<exists>p. match (pDef plan) e (containsPath q) (Order q) = Some (p, rho)"
    and rev: "Ranges plan \<noteq> [] \<longrightarrow> Reversed plan = rho" using dup by (rule planRanges_set)
  from m assms(3) obtain p where p: "match (pDef plan) e (containsPath q) (Order q) = Some (p, rho)" by blast
  with rs assms(3) have r: "rangeFor (pDef plan) (length e) p rho q \<in> set (Ranges plan)" by blast
  then have "Reversed plan = rho" using rev by auto
  with r p show thesis by (intro that) auto
qed

text \<open>The components an index scan orders by.\<close>

definition orderPart :: "Query \<Rightarrow> Def \<Rightarrow> Field list" where
  "orderPart q d = drop (length (effectiveFields d) - length (Order q)) (effectiveFields d)"

lemma plan_parts:
  assumes "For q defs ready = Some plan" "plan_ok q (pDef plan)" "s \<in> set (Ranges plan)"
  obtains p where "SuffixFrom s = length p" "list_all2 (aligned (Reversed plan)) (orderPart q (pDef plan)) (Order q)"
    "list_all2 (\<lambda>f o1. fPath f = NameField \<longleftrightarrow> IsName o1) (orderPart q (pDef plan)) (Order q)"
    "\<And>m g j. valid_fields g \<Longrightarrow> j \<in> set (Keys (pDef plan) m g) \<Longrightarrow> in_range (Lo s, Hi s) j \<Longrightarrow>
       j = p @ fieldsKey (orderPart q (pDef plan)) (OrderKey q m g)"
proof (rule plan_range [OF assms])
  let ?d = "pDef plan"
  fix e p eq io inl
  assume m: "match ?d e (containsPath q) (Order q) = Some (p, Reversed plan)" and sf: "SuffixFrom s = length p"
    and keys: "\<And>name flds. valid_fields flds \<Longrightarrow> {k \<in> set (Keys ?d name flds). in_range (Lo s, Hi s) k} =
        (if (\<forall>pv \<in> set e. eqHolds (containsPath q) name flds pv) \<and> orderPresent q flds \<and>
            ineqHolds io name flds \<and> InCursorRange q (OrderKey q name flds)
         then {scanKey (drop (length e) (effectiveFields ?d)) p q name flds} else {})"
  have wf: "wf_def ?d" "wf_order (Order q)" using assms(2) by (simp_all add: plan_ok_def)
  from wf m obtain E R vals where E: "effectiveFields ?d = E @ R" "length E = length e"
    and al: "list_all2 (aligned (Reversed plan)) R (Order q)"
      "list_all2 (\<lambda>f o1. fPath f = NameField \<longleftrightarrow> IsName o1) R (Order q)" by (rule match_parts)
  have "length R = length (Order q)" using al(1) by (rule list_all2_lengthD)
  then have R: "orderPart q ?d = R" "drop (length e) (effectiveFields ?d) = R" using E by (simp_all add: orderPart_def)
  show thesis
  proof (rule that [OF sf])
    fix n g j assume g: "valid_fields g" and j: "j \<in> set (Keys ?d n g)" "in_range (Lo s, Hi s) j"
    then have "j \<in> {k \<in> set (Keys ?d n g). in_range (Lo s, Hi s) k}" by simp
    then show "j = p @ fieldsKey (orderPart q ?d) (OrderKey q n g)"
      unfolding keys [OF g] R by (simp add: scanKey_def split: if_splits)
  qed (use al R in simp_all)
qed

section \<open>Properties of the planner\<close>

lemma plan_selects:
  assumes "For q defs ready = Some plan" "plan_ok q (pDef plan)" "valid_fields flds"
  shows "(\<exists>r \<in> set (Ranges plan). \<exists>k \<in> set (Keys (pDef plan) name flds). in_range (Lo r, Hi r) k) \<longleftrightarrow>
    Matches q name flds \<and> InCursorRange q (OrderKey q name flds)"
proof
  assume "\<exists>r \<in> set (Ranges plan). \<exists>k \<in> set (Keys (pDef plan) name flds). in_range (Lo r, Hi r) k"
  then obtain r k where r: "r \<in> set (Ranges plan)" and k: "k \<in> set (Keys (pDef plan) name flds)" "in_range (Lo r, Hi r) k"
    by blast
  from plan_range [OF assms(1,2) r] show "Matches q name flds \<and> InCursorRange q (OrderKey q name flds)"
  proof cases
    case (1 e p eq io inl)
    from 1(5) [OF assms(3), of name] k show ?thesis
      using matches_planEqs [OF 1(1) assms(2), of name flds] 1(2) by (auto split: if_splits)
  qed
next
  assume match: "Matches q name flds \<and> InCursorRange q (OrderKey q name flds)"
  from assms(1) obtain eq io inl where split: "splitFilters q = Some (eq, io, inl)" by (rule For_Some)
  with match matches_planEqs [OF split assms(2), of name flds] obtain e where e: "e \<in> planEqs eq inl"
    "\<forall>pv \<in> set e. eqHolds (containsPath q) name flds pv" and rest: "orderPresent q flds" "ineqHolds io name flds" by blast
  from plan_covers [OF assms(1) split e(1)] obtain p r where r: "r \<in> set (Ranges plan)"
    "r = rangeFor (pDef plan) (length e) p (Reversed plan) q"
    "match (pDef plan) e (containsPath q) (Order q) = Some (p, Reversed plan)" by blast
  have "{k \<in> set (Keys (pDef plan) name flds). in_range (bounds (pDef plan) (length e) p (Reversed plan) q) k} =
      {scanKey (drop (length e) (effectiveFields (pDef plan))) p q name flds}"
    using range_keys [OF assms(2) split r(3) planEqs_ok [OF split assms(2) e(1)] assms(3), of name] e(2) rest match
    by simp
  moreover have "(Lo r, Hi r) = bounds (pDef plan) (length e) p (Reversed plan) q"
    unfolding r(2) by (simp add: rangeFor_def split: prod.splits)
  ultimately have "\<exists>k \<in> set (Keys (pDef plan) name flds). in_range (Lo r, Hi r) k"
    by (metis (mono_tags, lifting) mem_Collect_eq singletonI)
  with r(1) show "\<exists>r \<in> set (Ranges plan). \<exists>k \<in> set (Keys (pDef plan) name flds). in_range (Lo r, Hi r) k" by blast
qed

text \<open>
  C5: a plan is exact. A document has an index entry in one of the planned byte ranges if and
  only if it satisfies the query's filters, has every ordering field and lies between the
  query's cursors; this covers equality, range, in, array-contains and array-contains-any
  filters, ascending and descending components, and scans in both directions. It holds for
  the definitions and queries of \<open>plan_ok\<close>, the planner's documented shapes; outside them the
  planner accepts queries it serves wrongly.
\<close>

theorem plan_exact:
  assumes "For q defs ready = Some plan" "plan_ok q (pDef plan)" "valid_fields flds"
  shows "(\<exists>r \<in> set (Ranges plan). \<exists>k \<in> set (Keys (pDef plan) name flds). in_range (Lo r, Hi r) k) \<longleftrightarrow>
    Matches q name flds \<and> InCursorRange q (OrderKey q name flds)"
  using assms by (rule plan_selects)

definition a_index :: Def where
  "a_index = \<lparr>dCollectionID = ''c'',
     dFields = [\<lparr>fPath = ''a'', fDesc = False, fContains = False\<rparr>], dGroup = False\<rparr>"

definition a_query :: "Cursor option \<Rightarrow> Query" where
  "a_query start = \<lparr>Parent = ''p'', CollectionID = ''c'', AllDescendants = False, Where = None,
     Order = [\<lparr>Path = [''a''], IsName = False, Dir = Asc\<rparr>, \<lparr>Path = [], IsName = True, Dir = Asc\<rparr>],
     Start = start, End = None, Offset = 0, Limit = - 1, Projection = [], KeysOnly = False\<rparr>"

lemma a_split: "splitFilters (a_query c) = Some ([], None, None)" "containsPath (a_query c) = []"
  by (simp_all add: splitFilters_def collectWhere_def a_query_def noneCollected_def splitContains_def containsPath_def)

lemma a_effective: "effectiveFields a_index =
    [\<lparr>fPath = ''a'', fDesc = False, fContains = False\<rparr>, \<lparr>fPath = ''__name__'', fDesc = False, fContains = False\<rparr>]"
  by (simp add: effectiveFields_def a_index_def trailingDirection_def)

lemma a_match: "match a_index [] [] (Order (a_query c)) = Some ([], False)"
  by (simp add: match_def a_effective a_query_def FieldPath_String_def printSegment_def isSimpleSegment_def
      less_eq_char_def PrefixKey_def)

lemma a_For: "For (a_query c) [a_index] (\<lambda>_. True) =
    Some \<lparr>pDef = a_index, Ranges = [rangeFor a_index 0 [] False (a_query c)], Reversed = False, Dedup = False\<rparr>"
  by (simp add: For_def Eligible_def a_split planRanges_def a_match)
    (simp add: a_index_def a_query_def)

lemma a_plan_ok: "cursor_ok (a_query c) c \<Longrightarrow> plan_ok (a_query c) a_index"
  unfolding plan_ok_def a_split
  by (simp add: wf_def_def a_index_def valid_where_def wf_order_def) (simp add: a_query_def cursor_ok_def)

theorem plan_exact_witness:
  "\<exists>plan. For (a_query None) [a_index] (\<lambda>_. True) = Some plan \<and>
     (\<exists>r \<in> set (Ranges plan). \<exists>k \<in> set (Keys a_index ''d'' [(''a'', NullValue)]). in_range (Lo r, Hi r) k)"
proof -
  have "Matches (a_query None) ''d'' [(''a'', NullValue)]"
    "InCursorRange (a_query None) (OrderKey (a_query None) ''d'' [(''a'', NullValue)])"
    by (simp_all add: a_query_def Matches_def InCursorRange_def)
  with plan_exact [OF a_For [of None], of "[(''a'', NullValue)]" "''d''"] a_plan_ok [of None] a_For [of None]
  show ?thesis by (simp add: cursor_ok_def valid_fields_def)
qed

lemma plan_ordering:
  assumes "For q defs ready = Some plan" "plan_ok q (pDef plan)"
    and "r \<in> set (Ranges plan)" "k \<in> set (Keys (pDef plan) n f)" "in_range (Lo r, Hi r) k" "valid_fields f"
    and "r' \<in> set (Ranges plan)" "k' \<in> set (Keys (pDef plan) n' f')" "in_range (Lo r', Hi r') k'" "valid_fields f'"
  shows "bytes_Compare (drop (SuffixFrom r) k) (drop (SuffixFrom r') k') =
      (if Reversed plan then - 1 else 1) * CompareKeys q (OrderKey q n f) (OrderKey q n' f') \<and>
    (r = r' \<longrightarrow> bytes_Compare k k' =
      (if Reversed plan then - 1 else 1) * CompareKeys q (OrderKey q n f) (OrderKey q n' f'))"
proof -
  let ?R = "orderPart q (pDef plan)"
  from assms(1-3) obtain p where p: "SuffixFrom r = length p" and al: "list_all2 (aligned (Reversed plan)) ?R (Order q)"
      "list_all2 (\<lambda>f o1. fPath f = NameField \<longleftrightarrow> IsName o1) ?R (Order q)"
    and keys: "\<And>m g j. valid_fields g \<Longrightarrow> j \<in> set (Keys (pDef plan) m g) \<Longrightarrow> in_range (Lo r, Hi r) j \<Longrightarrow>
       j = p @ fieldsKey ?R (OrderKey q m g)" by (rule plan_parts) blast
  from assms(1,2,7) obtain p' where p': "SuffixFrom r' = length p'"
    and keys': "\<And>m g j. valid_fields g \<Longrightarrow> j \<in> set (Keys (pDef plan) m g) \<Longrightarrow> in_range (Lo r', Hi r') j \<Longrightarrow>
       j = p' @ fieldsKey ?R (OrderKey q m g)" by (rule plan_parts) blast
  have "bytes_Compare (fieldsKey ?R (OrderKey q n f)) (fieldsKey ?R (OrderKey q n' f')) =
      (if Reversed plan then - 1 else 1) * CompareKeys q (OrderKey q n f) (OrderKey q n' f')"
    using index_key.enc_order [OF fields_ok_OrderKey [OF al(2) assms(6)] fields_ok_OrderKey [OF al(2) assms(10)], of n n']
      compareTuples_aligned [OF al(1), of "OrderKey q n f" "OrderKey q n' f'"] by (simp add: CompareKeys_def)
  moreover have "k = p @ fieldsKey ?R (OrderKey q n f)" using keys assms(4-6) by blast
  moreover have "k' = p' @ fieldsKey ?R (OrderKey q n' f')" using keys' assms(8-10) by blast
  moreover have "r = r' \<Longrightarrow> k' = p @ fieldsKey ?R (OrderKey q n' f')" using keys assms(8-10) by blast
  ultimately show ?thesis using p p' by auto
qed

text \<open>
  C6: scanning is ordering. Entries found in the ranges of a plan, compared by their bytes after
  the range's own prefix, stand in the order of the query's ordering tuples, or in the reverse of
  it when the plan says to scan backwards; within one range whole keys compare the same way. As for
  exactness, this is for the definitions and queries of \<open>plan_ok\<close>; in particular no array-contains
  component stands in the ordering part, which the planner does not check.
\<close>

theorem plan_order:
  assumes "For q defs ready = Some plan" "plan_ok q (pDef plan)"
    and "r \<in> set (Ranges plan)" "k \<in> set (Keys (pDef plan) n f)" "in_range (Lo r, Hi r) k" "valid_fields f"
    and "r' \<in> set (Ranges plan)" "k' \<in> set (Keys (pDef plan) n' f')" "in_range (Lo r', Hi r') k'" "valid_fields f'"
  shows "bytes_Compare (drop (SuffixFrom r) k) (drop (SuffixFrom r') k') =
      (if Reversed plan then - 1 else 1) * CompareKeys q (OrderKey q n f) (OrderKey q n' f') \<and>
    (r = r' \<longrightarrow> bytes_Compare k k' =
      (if Reversed plan then - 1 else 1) * CompareKeys q (OrderKey q n f) (OrderKey q n' f'))"
  using assms by (rule plan_ordering)

theorem plan_order_witness:
  "\<exists>k k'. k \<in> set (Keys a_index ''d'' [(''a'', NullValue)]) \<and> k' \<in> set (Keys a_index ''d'' [(''a'', BooleanValue True)]) \<and>
     bytes_Compare k k' = - 1"
proof -
  let ?r = "rangeFor a_index 0 [] False (a_query None)"
  have b: "bounds a_index 0 [] False (a_query None) = (Some [], None)"
    unfolding bounds_def a_split by (simp add: a_effective closeBounds_def endBounds_def startBounds_def a_query_def)
  have r: "in_range (Lo ?r, Hi ?r) k" for k by (simp add: rangeFor_def b in_range_def)
  define k k' where "k = [tagNull] @ nameKey ''d''" and "k' = [tagBool, 1] @ nameKey ''d''"
  have k: "k \<in> set (Keys a_index ''d'' [(''a'', NullValue)])" "k' \<in> set (Keys a_index ''d'' [(''a'', BooleanValue True)])"
    by (simp_all add: k_def k'_def Keys_def a_index_def keysStep_def parse_a sortKey_simps appendName_def trailingDirection_def)
  have "Compare NullValue (BooleanValue True) = - 1" by (simp add: Compare_types)
  then have "CompareKeys (a_query None) (OrderKey (a_query None) ''d'' [(''a'', NullValue)])
      (OrderKey (a_query None) ''d'' [(''a'', BooleanValue True)]) = - 1"
    by (simp add: CompareKeys_def OrderKey_def orderValue_def a_query_def)
  with plan_order [OF a_For [of None], of ?r k "''d''" "[(''a'', NullValue)]" ?r k' "''d''" "[(''a'', BooleanValue True)]"]
    a_plan_ok [of None] k r
  show ?thesis by (intro exI [of _ k] exI [of _ k']) (simp add: cursor_ok_def valid_fields_def)
qed

text \<open>
  A cursor that reaches the document-name term is encoded with the reference tag, which
  index keys do not have. So an index-served query that starts after a document by its ordering
  values and its name misses the documents that tie with it on the ordering values: here
  document c matches the query and lies behind the cursor at document b, yet its entry is below
  the planned range.
\<close>

theorem name_cursor_misses_ties:
  "let q = a_query (Some \<lparr>Values = [NullValue, ReferenceValue ''b''], Before = False\<rparr>);
       f = [(''a'', NullValue)]
   in Matches q ''c'' f \<and> InCursorRange q (OrderKey q ''c'' f) \<and>
      (\<exists>plan. For q [a_index] (\<lambda>_. True) = Some plan \<and>
        \<not> (\<exists>r \<in> set (Ranges plan). \<exists>k \<in> set (Keys a_index ''c'' f). in_range (Lo r, Hi r) k))"
proof -
  let ?c = "\<lparr>Values = [NullValue, ReferenceValue ''b''], Before = False\<rparr>"
  let ?q = "a_query (Some ?c)" and ?f = "[(''a'', NullValue)]"
  have keys: "Keys a_index ''c'' ?f = [[tagNull] @ nameKey ''c'']"
    by (simp add: Keys_def a_index_def keysStep_def parse_a sortKey_simps appendName_def trailingDirection_def)
  have name: "nameKey ''b'' = [1, 0x62, 0, 1, 0]" "nameKey ''c'' = [1, 0x63, 0, 1, 0]"
    by (simp_all add: nameKey_eq byte_of_def)
  have b: "bounds a_index 0 [] False ?q = (Some [tagNull, tagReference, 1, 0x62, 0, 1, 1], None)"
    unfolding bounds_def a_split
    by (simp add: a_effective closeBounds_def endBounds_def startBounds_def cursorKey_def startBoundFor_def
        sliceEnd_def slice_def capVals_def sortKey_simps name maxBound_def a_query_def)
  have "\<not> in_range (bounds a_index 0 [] False ?q) ([tagNull] @ nameKey ''c'')"
    by (simp add: b in_range_def name)
  moreover have "Matches ?q ''c'' ?f" "InCursorRange ?q (OrderKey ?q ''c'' ?f)"
    by (simp_all add: a_query_def Matches_def InCursorRange_def OrderKey_def orderValue_def compareToCursor_def
        CompareResourceNames_def cmp3_def less_char_def)
  ultimately show ?thesis
    using a_For [of "Some ?c"] by (simp add: Let_def keys rangeFor_def b)
qed

end
