(* ===== verification/GoStd.thy ===== *)
theory GoStd
  imports Value "HOL-Library.Monad_Syntax"
begin

text \<open>
  What the program uses of Go's standard library to write values as text: decimal integers
  (\<^verbatim>\<open>strconv.FormatInt\<close>, \<^verbatim>\<open>ParseInt\<close>), base64 (\<^verbatim>\<open>base64.StdEncoding\<close>), doubles
  (\<^verbatim>\<open>strconv.FormatFloat(f, 'g', -1, 64)\<close>, \<^verbatim>\<open>ParseFloat\<close>) and UTC timestamps
  (\<^verbatim>\<open>time.Format\<close>, \<^verbatim>\<open>time.Parse\<close> with RFC 3339 layouts), each with its round trip.
\<close>

section \<open>Time\<close>

text \<open>
  An instant is the number of nanoseconds since 1970. \<^verbatim>\<open>AsTime\<close> goes through Go's internal
  64-bit seconds since year 1, which wrap.
\<close>

type_synonym time = int

abbreviation (input) "unixToInternal \<equiv> (62135596800 :: int)"

definition AsTime :: "int64 \<Rightarrow> int32 \<Rightarrow> time" where
  "AsTime s n =
     (sint (s + word_of_int (sint n div 1000000000 + unixToInternal)) - unixToInternal) * 1000000000
     + sint n mod 1000000000"

definition Truncate_us :: "time \<Rightarrow> time" where
  "Truncate_us t = t - t mod 1000"

definition zeroTime :: time where
  "zeroTime = - unixToInternal * 1000000000"

text \<open>\<^verbatim>\<open>timestamppb.New(t)\<close> as a value.\<close>

definition tsOf :: "time \<Rightarrow> Value" where
  "tsOf t = TimestampValue (word_of_int (t div 1000000000)) (word_of_int (t mod 1000000000))"

section \<open>Decimal digits\<close>

definition digit :: "nat \<Rightarrow> char" where
  "digit n = char_of (48 + n)"

definition is_digit :: "char \<Rightarrow> bool" where
  "is_digit c \<longleftrightarrow> 48 \<le> (of_char c :: nat) \<and> (of_char c :: nat) \<le> 57"

definition digit_val :: "char \<Rightarrow> nat" where
  "digit_val c = of_char c - 48"

lemma digit_simps [simp]: "n < 10 \<Longrightarrow> is_digit (digit n)" "n < 10 \<Longrightarrow> digit_val (digit n) = n"
  by (simp_all add: is_digit_def digit_val_def digit_def of_char_of)

fun dec :: "nat \<Rightarrow> string" where
  "dec n = (if n < 10 then [digit n] else dec (n div 10) @ [digit (n mod 10)])"

declare dec.simps [simp del]

definition undec :: "string \<Rightarrow> nat" where
  "undec s = foldl (\<lambda>n c. 10 * n + digit_val c) 0 s"

lemma undec_append [simp]: "undec (s @ [c]) = 10 * undec s + digit_val c"
  by (simp add: undec_def)

lemma undec_Nil [simp]: "undec [] = 0"
  by (simp add: undec_def)

lemma undec_append_general: "undec (s @ t) = undec s * 10 ^ length t + undec t"
proof (induction t rule: rev_induct)
  case (snoc c t)
  have "undec (s @ t @ [c]) = 10 * undec (s @ t) + digit_val c"
    using undec_append [of "s @ t" c] by simp
  with snoc show ?case by simp
qed simp

lemma dec_digits: "c \<in> set (dec n) \<Longrightarrow> is_digit c"
proof (induction n rule: dec.induct)
  case (1 n)
  then show ?case by (subst (asm) dec.simps) (auto split: if_splits)
qed

lemma undec_dec [simp]: "undec (dec n) = n"
proof (induction n rule: dec.induct)
  case (1 n)
  then show ?case by (subst dec.simps) (auto simp: undec_def)
qed

lemma dec_not_Nil [simp]: "dec n \<noteq> []"
  by (subst dec.simps) simp

lemma list_all_dec [simp]: "list_all is_digit (dec n)"
  using dec_digits by (simp add: list_all_iff)

lemma not_digits [simp]:
  "\<not> is_digit CHR ''-''" "\<not> is_digit CHR ''+''" "\<not> is_digit CHR ''.''" "\<not> is_digit CHR ''e''"
  "\<not> is_digit CHR ''Z''" "\<not> is_digit CHR '':''" "\<not> is_digit CHR ''T''" "\<not> is_digit CHR ''_''"
  "\<not> is_digit CHR ''E''" "\<not> is_digit CHR ''N''" "\<not> is_digit CHR ''I''" "\<not> is_digit CHR ''x''" "\<not> is_digit CHR ''X''"
  by (simp_all add: is_digit_def)

text \<open>Exactly \<open>w\<close> digits, zero padded (of a number that fits).\<close>

fun pad :: "nat \<Rightarrow> nat \<Rightarrow> string" where
  "pad 0 n = []"
| "pad (Suc w) n = pad w (n div 10) @ [digit (n mod 10)]"

lemma length_pad [simp]: "length (pad w n) = w"
  by (induction w arbitrary: n) auto

lemma list_all_pad [simp]: "list_all is_digit (pad w n)"
  by (induction w arbitrary: n) auto

lemma undec_pad [simp]: "n < 10 ^ w \<Longrightarrow> undec (pad w n) = n"
proof (induction w arbitrary: n)
  case (Suc w)
  then have "n div 10 < 10 ^ w" by (simp add: less_mult_imp_div_less mult.commute)
  with Suc.IH show ?case by simp
qed simp

section \<open>Integers\<close>

definition FormatInt :: "int64 \<Rightarrow> string" where
  "FormatInt x = (if sint x < 0 then CHR ''-'' # dec (nat (- sint x)) else dec (nat (sint x)))"

definition ParseUintDigits :: "string \<Rightarrow> nat option" where
  "ParseUintDigits s = (if s \<noteq> [] \<and> list_all is_digit s then Some (undec s) else None)"

definition ParseInt :: "string \<Rightarrow> int64 option" where
  "ParseInt s =
     (let neg = (s \<noteq> [] \<and> hd s = CHR ''-'');
          s' = (if s \<noteq> [] \<and> (hd s = CHR ''+'' \<or> hd s = CHR ''-'') then tl s else s)
      in case ParseUintDigits s' of
           None \<Rightarrow> None
         | Some un \<Rightarrow>
             if \<not> neg \<and> un \<ge> 2 ^ 63 then None
             else if neg \<and> un > 2 ^ 63 then None
             else Some (if neg then - word_of_nat un else word_of_nat un))"

lemma word_of_sint: "word_of_int (sint x) = x" for x :: int64
  by simp

lemma sint64_bounds: "- (2 ^ 63) \<le> sint (x :: int64)" "sint (x :: int64) < 2 ^ 63"
  using sint_greater_eq [of x] sint_less [of x] by simp_all

lemma dec_hd: "hd (dec n) \<noteq> CHR ''-''" "hd (dec n) \<noteq> CHR ''+''"
  using dec_digits [of "hd (dec n)" n] by (auto simp: is_digit_def)

lemma ParseInt_FormatInt: "ParseInt (FormatInt x) = Some x"
proof (cases "sint x < 0")
  case True
  have b: "nat (- sint x) \<le> 2 ^ 63" using sint64_bounds(1) [of x] by simp
  have "int (nat (- sint x)) = - sint x" using True by simp
  then have "(word_of_nat (nat (- sint x)) :: int64) = word_of_int (- sint x)" by (metis of_int_of_nat_eq)
  then have "- word_of_nat (nat (- sint x)) = x" by simp
  with True b show ?thesis
    by (simp add: FormatInt_def ParseInt_def ParseUintDigits_def)
next
  case False
  have b: "nat (sint x) < 2 ^ 63" using sint64_bounds(2) [of x] by simp
  have "int (nat (sint x)) = sint x" using False by simp
  then have "(word_of_nat (nat (sint x)) :: int64) = word_of_int (sint x)" by (metis of_int_of_nat_eq)
  then have "word_of_nat (nat (sint x)) = x" by simp
  with False b dec_hd [of "nat (sint x)"] show ?thesis
    by (simp add: FormatInt_def ParseInt_def ParseUintDigits_def)
qed

section \<open>Base64\<close>

definition b64_char :: "nat \<Rightarrow> char" where
  "b64_char n = ''ABCDEFGHIJKLMNOPQRSTUVWXYZabcdefghijklmnopqrstuvwxyz0123456789+/'' ! n"

definition b64_val :: "char \<Rightarrow> nat option" where
  "b64_val c =
     (let k = of_char c
      in if 65 \<le> k \<and> k \<le> 90 then Some (k - 65)
         else if 97 \<le> k \<and> k \<le> 122 then Some (k - 71)
         else if 48 \<le> k \<and> k \<le> 57 then Some (k + 4)
         else if k = 43 then Some 62
         else if k = 47 then Some 63
         else None)"

fun b64_encode :: "nat list \<Rightarrow> string" where
  "b64_encode (a # b # c # bs) =
     (let n = a * 65536 + b * 256 + c
      in [b64_char (n div 262144), b64_char (n div 4096 mod 64), b64_char (n div 64 mod 64), b64_char (n mod 64)]
         @ b64_encode bs)"
| "b64_encode [a, b] =
     (let n = a * 65536 + b * 256
      in [b64_char (n div 262144), b64_char (n div 4096 mod 64), b64_char (n div 64 mod 64), CHR ''=''])"
| "b64_encode [a] =
     (let n = a * 65536 in [b64_char (n div 262144), b64_char (n div 4096 mod 64), CHR ''='', CHR ''=''])"
| "b64_encode [] = []"

text \<open>Padding is required; the bits below the last byte are ignored.\<close>

fun b64_quads :: "string \<Rightarrow> nat list option" where
  "b64_quads [] = Some []"
| "b64_quads (a # b # c # d # s) =
     (case (b64_val a, b64_val b, b64_val c, b64_val d) of
        (Some u, Some v, Some w, Some x) \<Rightarrow>
          (let n = u * 262144 + v * 4096 + w * 64 + x
           in map_option (\<lambda>bs. [n div 65536, n div 256 mod 256, n mod 256] @ bs) (b64_quads s))
      | (Some u, Some v, Some w, None) \<Rightarrow>
          if d = CHR ''='' \<and> s = []
          then (let n = u * 262144 + v * 4096 + w * 64 in Some [n div 65536, n div 256 mod 256]) else None
      | (Some u, Some v, None, None) \<Rightarrow>
          if c = CHR ''='' \<and> d = CHR ''='' \<and> s = []
          then (let n = u * 262144 + v * 4096 in Some [n div 65536]) else None
      | _ \<Rightarrow> None)"
| "b64_quads _ = None"

definition b64_decode :: "string \<Rightarrow> nat list option" where
  "b64_decode s = b64_quads (filter (\<lambda>c. c \<noteq> CHR 0x0A \<and> c \<noteq> CHR 0x0D) s)"

lemma b64_table: "list_all (\<lambda>n. b64_val (b64_char n) = Some n \<and> b64_char n \<noteq> CHR 0x0A \<and> b64_char n \<noteq> CHR 0x0D) [0..<64]"
  by (simp add: upt_rec b64_val_def b64_char_def)

lemma b64_val_char [simp]: "n < 64 \<Longrightarrow> b64_val (b64_char n) = Some n"
  "n < 64 \<Longrightarrow> b64_char n \<noteq> CHR 0x0A" "n < 64 \<Longrightarrow> b64_char n \<noteq> CHR 0x0D"
  using b64_table by (auto simp: list_all_iff)

lemma b64_val_pad [simp]: "b64_val CHR ''='' = None"
  by (simp add: b64_val_def)

lemma quad_parts:
  "n div 262144 * 262144 + n div 4096 mod 64 * 4096 + n div 64 mod 64 * 64 + n mod 64 = n" for n :: nat
proof -
  have "n div 64 div 64 = n div 4096" "n div 4096 div 64 = n div 262144" by (simp_all add: div_mult2_eq [symmetric])
  then show ?thesis
    using div_mult_mod_eq [of n 64] div_mult_mod_eq [of "n div 64" 64] div_mult_mod_eq [of "n div 4096" 64]
    by linarith
qed

lemma byte_parts:
  assumes "a < 256" "b < 256" "c < 256" and n: "n = a * 65536 + b * 256 + c"
  shows "n div 262144 < 64" "n div 65536 = a" "n div 256 mod 256 = b" "n mod 256 = (c :: nat)"
proof -
  have n': "n = (a * 256 + b) * 256 + c" using n by simp
  then have 1: "n div 256 = a * 256 + b" "n mod 256 = c"
    using assms(3) mod_mult_self3 [of "a * 256 + b" 256 c] by simp_all
  then show "n div 256 mod 256 = b" "n mod 256 = c" using assms(2) by simp_all
  have "n div 65536 = n div 256 div 256" by (simp add: div_mult2_eq [symmetric])
  then show "n div 65536 = a" using 1 assms(2) by simp
  show "n div 262144 < 64" using assms n by simp
qed

lemma b64_no_newline: "\<forall>x \<in> set bs. x < 256 \<Longrightarrow> filter (\<lambda>c. c \<noteq> CHR 0x0A \<and> c \<noteq> CHR 0x0D) (b64_encode bs) = b64_encode bs"
  by (induction bs rule: b64_encode.induct) (simp_all add: Let_def less_mult_imp_div_less)

lemma b64_round_trip: "\<forall>x \<in> set bs. x < 256 \<Longrightarrow> b64_decode (b64_encode bs) = Some bs"
proof -
  assume ok: "\<forall>x \<in> set bs. x < 256"
  then have "b64_quads (b64_encode bs) = Some bs"
  proof (induction bs rule: b64_encode.induct)
    case (1 a b c bs)
    define n where "n = a * 65536 + b * 256 + c"
    have "n div 262144 < 64" "n div 65536 = a" "n div 256 mod 256 = b" "n mod 256 = c"
      using 1 byte_parts [OF _ _ _ n_def] by auto
    with 1 quad_parts [of n] show ?case by (simp add: Let_def n_def [symmetric])
  next
    case (2 a b)
    define n where "n = a * 65536 + b * 256"
    have "n div 262144 < 64" "n div 65536 = a" "n div 256 mod 256 = b" "n mod 64 = 0"
      using 2 by (auto simp: n_def)
    with 2 quad_parts [of n] show ?case by (simp add: Let_def n_def [symmetric])
  next
    case (3 a)
    define n where "n = a * 65536"
    have "n div 262144 < 64" "n div 65536 = a" "n mod 64 = 0" "n div 64 mod 64 = 0"
      using 3 by (auto simp: n_def)
    with 3 quad_parts [of n] show ?case by (simp add: Let_def n_def [symmetric])
  qed simp
  then show ?thesis by (simp add: b64_decode_def b64_no_newline [OF ok])
qed

section \<open>Calendar\<close>

definition leap :: "int \<Rightarrow> bool" where
  "leap y \<longleftrightarrow> 4 dvd y \<and> (\<not> 100 dvd y \<or> 400 dvd y)"

text \<open>Days from 0001-01-01 to the first day of a year.\<close>

definition daysBeforeYear :: "int \<Rightarrow> int" where
  "daysBeforeYear y = (let p = y - 1 in 365 * p + p div 4 - p div 100 + p div 400)"

definition yearDay :: "int \<Rightarrow> int \<times> int" where
  "yearDay n =
     (let a = n div 146097; r = n mod 146097;
          b = min 3 (r div 36524); r2 = r - 36524 * b;
          c = r2 div 1461; r3 = r2 mod 1461;
          d = min 3 (r3 div 365)
      in (400 * a + 100 * b + 4 * c + d + 1, r3 - 365 * d))"

definition monthLengths :: "bool \<Rightarrow> int list" where
  "monthLengths lp = [31, if lp then 29 else 28, 31, 30, 31, 30, 31, 31, 30, 31, 30, 31]"

fun monthDay :: "int \<Rightarrow> int list \<Rightarrow> int \<Rightarrow> int \<times> int" where
  "monthDay m [] n = (m, n + 1)"
| "monthDay m (l # ls) n = (if n < l then (m, n + 1) else monthDay (m + 1) ls (n - l))"

definition daysBeforeMonth :: "bool \<Rightarrow> int \<Rightarrow> int" where
  "daysBeforeMonth lp m = sum_list (take (nat (m - 1)) (monthLengths lp))"

lemma cap_div:
  assumes "0 \<le> (r :: int)" "0 < m"
  shows "0 \<le> r div m \<and> m * (r div m) \<le> r \<and> r < m * (r div m) + m"
proof -
  have "r = m * (r div m) + r mod m" "0 \<le> r mod m" "r mod m < m" using assms(2) by simp_all
  moreover have "0 \<le> r div m" using assms by (simp add: pos_imp_zdiv_nonneg_iff)
  ultimately show ?thesis by linarith
qed

lemma yearDay_parts:
  assumes "yearDay n = (y, k)"
  obtains a b c d where "y = 400 * a + 100 * b + 4 * c + d + 1" "n = 146097 * a + 36524 * b + 1461 * c + 365 * d + k"
    "0 \<le> b" "b \<le> 3" "0 \<le> c" "c \<le> 24" "0 \<le> d" "d \<le> 3" "0 \<le> k"
    "k < 365 \<or> k = 365 \<and> d = 3 \<and> (c < 24 \<or> b = 3)" "a = n div 146097"
proof -
  define a where "a = n div 146097"
  define r where "r = n mod 146097"
  define b where "b = min 3 (r div 36524)"
  define r2 where "r2 = r - 36524 * b"
  define c where "c = r2 div 1461"
  define r3 where "r3 = r2 mod 1461"
  define d where "d = min 3 (r3 div 365)"
  have "(400 * a + 100 * b + 4 * c + d + 1, r3 - 365 * d) = (y, k)"
    using assms by (simp only: yearDay_def Let_def a_def [symmetric] r_def [symmetric] b_def [symmetric]
        r2_def [symmetric] c_def [symmetric] r3_def [symmetric] d_def [symmetric])
  then have yk: "y = 400 * a + 100 * b + 4 * c + d + 1" "k = r3 - 365 * d" by simp_all
  have n: "n = 146097 * a + r" "0 \<le> r" "r < 146097" by (simp_all add: a_def r_def)
  have b: "0 \<le> b" "b \<le> 3" "0 \<le> r2" "b < 3 \<longrightarrow> r2 < 36524" "r2 < 36525"
    using cap_div [OF n(2), of 36524] n(3) by (auto simp: b_def r2_def min_def)
  have c: "r2 = 1461 * c + r3" "0 \<le> r3" "r3 < 1461" by (simp_all add: c_def r3_def)
  have c': "0 \<le> c" "c \<le> 24" using b(3,5) c by linarith+
  have d: "0 \<le> d" "d \<le> 3" "0 \<le> k" "d < 3 \<longrightarrow> k < 365" "k \<le> 365"
    using cap_div [OF c(2), of 365] c(3) by (auto simp: d_def yk(2) min_def)
  have "c < 24 \<or> b = 3" if "k = 365"
  proof (rule ccontr)
    assume "\<not> ?thesis"
    with c'(2) b(2) have "c = 24" "b < 3" by linarith+
    with b(4) c(1) have "r3 < 1460" by simp
    with that d(2) yk(2) d(4) show False by linarith
  qed
  moreover have "n = 146097 * a + 36524 * b + 1461 * c + 365 * d + k"
    using n(1) c(1) yk(2) r2_def by linarith
  moreover have "k < 365 \<or> k = 365" using d(5) by linarith
  moreover have "d = 3" if "k = 365" using that d(2,4) by linarith
  ultimately show thesis
    using that [OF yk(1) _ b(1,2) c' d(1-3)] a_def by blast
qed

lemma yearDay_inverse: "yearDay n = (y, k) \<Longrightarrow> daysBeforeYear y + k = n"
proof (erule yearDay_parts)
  fix a b c d
  assume y: "y = 400 * a + 100 * b + 4 * c + d + 1" and n: "n = 146097 * a + 36524 * b + 1461 * c + 365 * d + k"
    and "0 \<le> b" "b \<le> 3" "0 \<le> c" "c \<le> 24" "0 \<le> d" "d \<le> 3"
  then have "(y - 1) div 4 = 100 * a + 25 * b + c" "(y - 1) div 100 = 4 * a + b" "(y - 1) div 400 = a"
    using int_div_pos_eq [of "y - 1" 4 "100 * a + 25 * b + c" d] int_div_pos_eq [of "y - 1" 100 "4 * a + b" "4 * c + d"]
      int_div_pos_eq [of "y - 1" 400 a "100 * b + 4 * c + d"] by simp_all
  then show ?thesis by (simp add: daysBeforeYear_def Let_def y n)
qed

lemma yearDay_leap: "yearDay n = (y, k) \<Longrightarrow> 0 \<le> k \<and> k < sum_list (monthLengths (leap y))"
proof (erule yearDay_parts)
  fix a b c d
  assume y: "y = 400 * a + 100 * b + 4 * c + d + 1" and r: "0 \<le> b" "b \<le> 3" "0 \<le> c" "c \<le> 24" "0 \<le> k"
    and k: "k < 365 \<or> k = 365 \<and> d = 3 \<and> (c < 24 \<or> b = 3)"
  have "leap y" if "k = 365"
  proof -
    from k that have d: "d = 3" "c < 24 \<or> b = 3" by auto
    have "4 dvd y" using y d(1) by presburger
    moreover have "\<not> 100 dvd y \<or> 400 dvd y"
    proof (cases "c = 24")
      case True
      with d(2) have "y = 400 * (a + 1)" using y d(1) by simp
      then show ?thesis by simp
    next
      case False
      then have "y mod 100 = 4 * c + 4"
        using y d(1) r int_mod_pos_eq [of y 100 "4 * a + b" "4 * c + 4"] by simp
      with r(3) show ?thesis by (simp add: dvd_eq_mod_eq_0)
    qed
    ultimately show ?thesis by (simp add: leap_def)
  qed
  with k r(5) show ?thesis by (auto simp: monthLengths_def)
qed

lemma monthDay_parts:
  "0 \<le> n \<Longrightarrow> n < sum_list ls \<Longrightarrow>
   \<exists>i < length ls. \<exists>d. monthDay m ls n = (m + int i, d) \<and> 1 \<le> d \<and> d \<le> ls ! i \<and> sum_list (take i ls) + d - 1 = n"
proof (induction m ls n rule: monthDay.induct)
  case (2 m l ls n)
  show ?case
  proof (cases "n < l")
    case True
    with "2.prems" show ?thesis by (intro exI [of _ 0]) auto
  next
    case False
    with "2.prems" have "0 \<le> n - l" "n - l < sum_list ls" by auto
    from "2.IH" [OF False this] obtain i d where i: "i < length ls" "monthDay (m + 1) ls (n - l) = (m + 1 + int i, d)"
      "1 \<le> d" "d \<le> ls ! i" "sum_list (take i ls) + d - 1 = n - l" by blast
    then show ?thesis using False by (intro exI [of _ "Suc i"]) auto
  qed
qed simp

definition daysIn :: "bool \<Rightarrow> int \<Rightarrow> int" where
  "daysIn lp m = monthLengths lp ! nat (m - 1)"

text \<open>The date of a day, counted from 0001-01-01, and the day of a date.\<close>

definition civil :: "int \<Rightarrow> int \<times> int \<times> int" where
  "civil n = (let (y, k) = yearDay n; (m, d) = monthDay 1 (monthLengths (leap y)) k in (y, m, d))"

definition dayNumber :: "int \<Rightarrow> int \<Rightarrow> int \<Rightarrow> int" where
  "dayNumber y m d = daysBeforeYear y + daysBeforeMonth (leap y) m + d - 1"

lemma civil_inverse:
  assumes "civil n = (y, m, d)"
  shows "dayNumber y m d = n" "1 \<le> m" "m \<le> 12" "1 \<le> d" "d \<le> daysIn (leap y) m"
proof -
  obtain k where k: "yearDay n = (y, k)" "monthDay 1 (monthLengths (leap y)) k = (m, d)"
    using assms by (auto simp: civil_def split: prod.splits)
  from monthDay_parts [of k "monthLengths (leap y)" 1] yearDay_leap [OF k(1)] k(2) obtain i where
    i: "i < length (monthLengths (leap y))" "m = 1 + int i" "1 \<le> d" "d \<le> monthLengths (leap y) ! i"
      "sum_list (take i (monthLengths (leap y))) + d - 1 = k" by auto
  then show "dayNumber y m d = n" "1 \<le> m" "1 \<le> d" "d \<le> daysIn (leap y) m"
    using yearDay_inverse [OF k(1)] by (auto simp: dayNumber_def daysBeforeMonth_def daysIn_def)
  show "m \<le> 12" using i(1,2) by (simp add: monthLengths_def)
qed

lemma civil_year:
  assumes "civil n = (y, m, d)" "0 \<le> n" "n \<le> 3652058"
  shows "1 \<le> y" "y \<le> 9999"
proof -
  obtain k where "yearDay n = (y, k)" using assms(1) by (auto simp: civil_def split: prod.splits)
  then show "1 \<le> y" "y \<le> 9999"
    by (erule_tac yearDay_parts, use assms(2,3) in linarith)+
qed

section \<open>Timestamps as text\<close>

abbreviation (input) "maxTimestamp \<equiv> (253402300799999999999 :: time)"

text \<open>\<^verbatim>\<open>t.UTC().Format("2006-01-02T15:04:05.000000Z07:00")\<close>.\<close>

definition formatTime :: "time \<Rightarrow> string" where
  "formatTime t =
     (let s = t div 1000000000 + unixToInternal; us = t mod 1000000000 div 1000;
          (y, m, d) = civil (s div 86400); k = s mod 86400
      in pad 4 (nat y) @ CHR ''-'' # pad 2 (nat m) @ CHR ''-'' # pad 2 (nat d) @ CHR ''T'' #
         pad 2 (nat (k div 3600)) @ CHR '':'' # pad 2 (nat (k mod 3600 div 60)) @ CHR '':'' #
         pad 2 (nat (k mod 60)) @ CHR ''.'' # pad 6 (nat us) @ ''Z'')"

definition take_digits :: "nat \<Rightarrow> string \<Rightarrow> (int \<times> string) option" where
  "take_digits w s =
     (if w \<le> length s \<and> list_all is_digit (take w s) then Some (int (undec (take w s)), drop w s) else None)"

definition expect :: "char \<Rightarrow> string \<Rightarrow> string option" where
  "expect c s = (case s of [] \<Rightarrow> None | d # s' \<Rightarrow> if d = c then Some s' else None)"

text \<open>An hour may have one digit; a fraction starts with a period or a comma and is cut after nine digits.\<close>

definition take_hour :: "string \<Rightarrow> (int \<times> string) option" where
  "take_hour s = (case take_digits 2 s of None \<Rightarrow> take_digits 1 s | Some r \<Rightarrow> Some r)"

definition take_fraction :: "string \<Rightarrow> int \<times> string" where
  "take_fraction s =
     (case s of
        c # e # s' \<Rightarrow>
          if (c = CHR ''.'' \<or> c = CHR '','') \<and> is_digit e
          then (let ds = takeWhile is_digit (e # s')
                in (int (undec (take 9 ds)) * 10 ^ (9 - length (take 9 ds)), dropWhile is_digit (e # s')))
          else (0, s)
      | _ \<Rightarrow> (0, s))"

definition take_zone :: "string \<Rightarrow> (int \<times> string) option" where
  "take_zone s =
     (case s of
        [] \<Rightarrow> None
      | c # s1 \<Rightarrow>
          if c = CHR ''Z'' then Some (0, s1)
          else if c = CHR ''+'' \<or> c = CHR ''-'' then do {
            (h, s2) \<leftarrow> take_digits 2 s1;
            s3 \<leftarrow> expect CHR '':'' s2;
            (m, s4) \<leftarrow> take_digits 2 s3;
            if h \<le> 24 \<and> m \<le> 60
            then Some ((if c = CHR ''-'' then - 1 else 1) * (h * 3600 + m * 60), s4) else None
          }
          else None)"

text \<open>\<^verbatim>\<open>time.Parse(time.RFC3339Nano, s)\<close>.\<close>

definition parseTime :: "string \<Rightarrow> time option" where
  "parseTime s0 = do {
     (y, s1) \<leftarrow> take_digits 4 s0; s2 \<leftarrow> expect CHR ''-'' s1;
     (m, s3) \<leftarrow> take_digits 2 s2; s4 \<leftarrow> expect CHR ''-'' s3;
     (d, s5) \<leftarrow> take_digits 2 s4; s6 \<leftarrow> expect CHR ''T'' s5;
     (h, s7) \<leftarrow> take_hour s6; s8 \<leftarrow> expect CHR '':'' s7;
     (mi, s9) \<leftarrow> take_digits 2 s8; s10 \<leftarrow> expect CHR '':'' s9;
     (sec, s11) \<leftarrow> take_digits 2 s10;
     let (ns, s12) = take_fraction s11;
     (off, s13) \<leftarrow> take_zone s12;
     if s13 = [] \<and> 1 \<le> m \<and> m \<le> 12 \<and> 1 \<le> d \<and> d \<le> daysIn (leap y) m \<and> h < 24 \<and> mi < 60 \<and> sec < 60
     then Some ((dayNumber y m d * 86400 + h * 3600 + mi * 60 + sec - off - unixToInternal) * 1000000000 + ns)
     else None
   }"

lemma take_digits_pad [simp]:
  "n < 10 ^ w \<Longrightarrow> take_digits w (pad w n @ s) = Some (int n, s)"
  by (simp add: take_digits_def)

lemma expect_Cons [simp]: "expect c (c # s) = Some s"
  by (simp add: expect_def)

lemma take_hour_pad [simp]: "n < 100 \<Longrightarrow> take_hour (pad 2 n @ s) = Some (int n, s)"
  using take_digits_pad [of n 2 s] by (simp add: take_hour_def)

lemma take_fraction_micros:
  assumes "n < 1000000"
  shows "take_fraction (CHR ''.'' # pad 6 n @ ''Z'') = (int n * 1000, ''Z'')"
proof -
  have "list_all is_digit (pad 6 n)" "length (pad 6 n) = 6" by simp_all
  then have d: "takeWhile is_digit (pad 6 n @ ''Z'') = pad 6 n" "dropWhile is_digit (pad 6 n @ ''Z'') = ''Z''"
    by (simp_all add: list_all_iff takeWhile_append2 dropWhile_append2)
  obtain e ds where e: "pad 6 n = e # ds" using length_pad [of 6 n] by (cases "pad 6 n") simp_all
  with list_all_pad [of 6 n] have "is_digit e" by simp
  moreover have "take 9 (pad 6 n) = pad 6 n" by simp
  ultimately show ?thesis
    using d e undec_pad [of n 6] length_pad [of 6 n] assms by (simp add: take_fraction_def Let_def)
qed

lemma div_mod_nested: "n div a * a + n mod a div b * b + n mod a mod b = n" for n a b :: int
  by (simp add: add.assoc)

lemma recombine_seconds:
  "h + m + r = (k :: int) \<Longrightarrow> q * 1000000000 + u + z = t \<Longrightarrow> D + k = q + e \<Longrightarrow>
   (D + h + m + r - e) * 1000000000 + u = t - z"
  by (simp add: algebra_simps)

lemma parse_formatTime:
  assumes "zeroTime \<le> t" "t \<le> maxTimestamp"
  shows "parseTime (formatTime t) = Some (Truncate_us t)"
proof -
  define s where "s = t div 1000000000 + unixToInternal"
  define us where "us = t mod 1000000000 div 1000"
  define k where "k = s mod 86400"
  obtain y m d where ymd: "civil (s div 86400) = (y, m, d)" by (metis prod_cases3)
  have s: "0 \<le> s" "s div 86400 \<le> 3652058"
    using assms by (simp_all add: s_def zeroTime_def)
  then have y: "1 \<le> y" "y \<le> 9999" using civil_year [OF ymd] by auto
  note md = civil_inverse [OF ymd]
  have "d \<le> 31" using md(2,3,5) by (auto simp: daysIn_def monthLengths_def nth_Cons' split: if_splits)
  have us: "0 \<le> us" "us < 1000000" and k: "0 \<le> k" "k < 86400" by (simp_all add: us_def k_def)
  have "0 \<le> k mod 3600" "k mod 3600 < 3600" by simp_all
  then have hm: "0 \<le> k div 3600" "k div 3600 < 24" "0 \<le> k mod 3600 div 60" "k mod 3600 div 60 < 60"
    using cap_div [OF k(1), of 3600, simplified] k(2) cap_div [of "k mod 3600" 60, simplified] by linarith+
  have "parseTime (formatTime t) =
    Some ((s div 86400 * 86400 + k div 3600 * 3600 + k mod 3600 div 60 * 60 + k mod 60 - unixToInternal) * 1000000000 + us * 1000)"
    using y md \<open>d \<le> 31\<close> us k hm take_fraction_micros [of "nat us"]
    by (simp add: formatTime_def parseTime_def s_def [symmetric] us_def [symmetric] k_def [symmetric] ymd Let_def
        nat_less_iff take_zone_def)
  also have "\<dots> = Some (Truncate_us t)"
  proof -
    have "k mod 3600 mod 60 = k mod 60" "t mod 1000000000 mod 1000 = t mod 1000"
      by (simp_all add: mod_mod_cancel)
    then have "k div 3600 * 3600 + k mod 3600 div 60 * 60 + k mod 60 = k"
      "t div 1000000000 * 1000000000 + us * 1000 + t mod 1000 = t"
      using div_mod_nested [of k 3600 60] div_mod_nested [of t 1000000000 1000] by (simp_all only: us_def)
    moreover have "s div 86400 * 86400 + k = s" by (simp add: k_def)
    ultimately show ?thesis
      unfolding Truncate_us_def option.inject s_def by (rule recombine_seconds)
  qed
  finally show ?thesis .
qed

end
