(* ===== verification/Writes.thy ===== *)
theory Writes
  imports Query GoStd
begin

text \<open>
  Package \<^verbatim>\<open>writes\<close>: set, masked update, delete, field transforms and preconditions, as
  operations on the in-memory state of one document. The source mutates the state in place and
  its caller drops the whole commit on an error, so a failing operation here returns the error
  alone. A Go map that may be nil is an option; writing to a nil map is \<open>Panic\<close>.
\<close>

section \<open>Requests and state\<close>

datatype TransformType =
    TransformUnset
  | SetToServerValue int32
  | Increment Value
  | Maximum Value
  | Minimum Value
  | AppendMissingElements "Value list"
  | RemoveAllFromArray "Value list"

type_synonym FieldTransform = "string \<times> TransformType"

datatype Operation =
    OperationUnset
  | Write_Update string Fields
  | Write_Delete string
  | Write_Transform string "FieldTransform list"

datatype Precondition =
    PreconditionUnset
  | Precondition_Exists bool
  | Precondition_UpdateTime int64 int32

record Write =
  w_Operation :: Operation
  w_UpdateMask :: "string list option"
  w_UpdateTransforms :: "FieldTransform list"
  w_CurrentDocument :: "Precondition option"

record DocState =
  ds_Name :: string
  ds_Exists :: bool
  ds_Fields :: "Fields option"
  ds_CreateTime :: time
  ds_UpdateTime :: time
  ds_Dirty :: bool

record WriteResult =
  wr_UpdateTime :: time
  wr_TransformResults :: "Value list"

datatype fault = Status grpc_code | Panic

section \<open>Operations\<close>

definition TargetName :: "Write \<Rightarrow> fault + string" where
  "TargetName w =
     (case w_Operation w of
        Write_Update name _ \<Rightarrow> if name = [] then Inl (Status InvalidArgument) else Inr name
      | Write_Delete name \<Rightarrow> if name = [] then Inl (Status InvalidArgument) else Inr name
      | Write_Transform name _ \<Rightarrow> if name = [] then Inl (Status InvalidArgument) else Inr name
      | OperationUnset \<Rightarrow> Inl (Status InvalidArgument))"

definition checkPrecondition :: "DocState \<Rightarrow> Precondition option \<Rightarrow> grpc_code option" where
  "checkPrecondition state pre =
     (case pre of
        None \<Rightarrow> None
      | Some PreconditionUnset \<Rightarrow> None
      | Some (Precondition_Exists ex) \<Rightarrow>
          if ex \<and> \<not> ds_Exists state then Some NotFound
          else if \<not> ex \<and> ds_Exists state then Some AlreadyExists
          else None
      | Some (Precondition_UpdateTime s n) \<Rightarrow>
          if \<not> ds_Exists state then Some FailedPrecondition
          else let want = Truncate_us (AsTime s n)
               in if Truncate_us (ds_UpdateTime state) \<noteq> want then Some FailedPrecondition else None)"

fun cloneLoop :: "Fields \<Rightarrow> Fields \<Rightarrow> Fields" where
  "cloneLoop out [] = out"
| "cloneLoop out ((k, v) # m) = cloneLoop (AList.update k v out) m"

definition cloneFields :: "Fields \<Rightarrow> Fields" where
  "cloneFields m = cloneLoop [] m"

definition tsValue :: "time \<Rightarrow> Value" where
  "tsValue t = tsOf t"

definition addInt64 :: "int64 \<Rightarrow> int64 \<Rightarrow> int64 \<times> bool" where
  "addInt64 a b =
     (let s = a + b
      in if (sint a > 0 \<and> sint b > 0 \<and> sint s < 0) \<or> (sint a < 0 \<and> sint b < 0 \<and> sint s \<ge> 0)
         then (0, False) else (s, True))"

definition MaxInt64 :: int64 where "MaxInt64 = 0x7FFFFFFFFFFFFFFF"
definition MinInt64 :: int64 where "MinInt64 = 0x8000000000000000"

definition saturatingAdd :: "int64 \<Rightarrow> int64 \<Rightarrow> int64" where
  "saturatingAdd a b =
     (let (s, ok) = addInt64 a b
      in if \<not> ok
         then if (sint a > 0) = (sint b > 0) \<and> sint a > 0 then MaxInt64 else MinInt64
         else s)"

fun numericTransform ::
  "Value \<Rightarrow> Value \<Rightarrow> (int64 \<Rightarrow> int64 \<Rightarrow> int64) \<Rightarrow> (float64 \<Rightarrow> float64 \<Rightarrow> float64) \<Rightarrow> Value" where
  "numericTransform (IntegerValue ci) (IntegerValue oi) intOp floatOp = IntegerValue (intOp ci oi)"
| "numericTransform (IntegerValue ci) (DoubleValue od) intOp floatOp = DoubleValue (floatOp (float_of_int64 ci) od)"
| "numericTransform (DoubleValue cd) (IntegerValue oi) intOp floatOp = DoubleValue (floatOp cd (float_of_int64 oi))"
| "numericTransform (DoubleValue cd) (DoubleValue od) intOp floatOp = DoubleValue (floatOp cd od)"
| "numericTransform cur operand intOp floatOp = operand"

fun isNaNValue :: "Value \<Rightarrow> bool" where
  "isNaNValue (DoubleValue d) = float_IsNaN d"
| "isNaNValue _ = False"

definition extremumTransform :: "Value \<Rightarrow> Value \<Rightarrow> int \<Rightarrow> Value" where
  "extremumTransform cur operand dir =
     (if \<not> IsNumeric cur then operand
      else if isNaNValue cur \<or> isNaNValue operand
           then if isNaNValue cur then cur else DoubleValue float_NaN
      else if Compare operand cur * dir > 0 then operand else cur)"

fun arrayElements :: "Value \<Rightarrow> Value list" where
  "arrayElements (ArrayValue vs) = vs"
| "arrayElements _ = []"

fun containsValue :: "Value list \<Rightarrow> Value \<Rightarrow> bool" where
  "containsValue [] v \<longleftrightarrow> False"
| "containsValue (el # els) v \<longleftrightarrow> (if Equal el v then True else containsValue els v)"

fun appendMissing :: "Value list \<Rightarrow> Value list \<Rightarrow> Value list" where
  "appendMissing existing [] = existing"
| "appendMissing existing (el # els) =
     appendMissing (if \<not> containsValue existing el then existing @ [el] else existing) els"

fun removeAll_values :: "Value list \<Rightarrow> Value list \<Rightarrow> Value list" where
  "removeAll_values vs [] = []"
| "removeAll_values vs (el # existing) =
     (if \<not> containsValue vs el then el # removeAll_values vs existing else removeAll_values vs existing)"

text \<open>
  One case of the loop of \<^verbatim>\<open>applyTransforms\<close>: the value the transform stores and the value it
  reports.
\<close>

fun transformStep :: "Value \<Rightarrow> TransformType \<Rightarrow> time \<Rightarrow> fault + (Value \<times> Value)" where
  "transformStep cur (SetToServerValue e) commitTime =
     (if e \<noteq> 1 then Inl (Status InvalidArgument) else let v = tsValue commitTime in Inr (v, v))"
| "transformStep cur (Increment op) commitTime =
     (let v = numericTransform cur op saturatingAdd float_add in Inr (v, v))"
| "transformStep cur (Maximum op) commitTime = (let v = extremumTransform cur op 1 in Inr (v, v))"
| "transformStep cur (Minimum op) commitTime = (let v = extremumTransform cur op (- 1) in Inr (v, v))"
| "transformStep cur (AppendMissingElements vs) commitTime =
     Inr (ArrayValue (appendMissing (arrayElements cur) vs), NullValue)"
| "transformStep cur (RemoveAllFromArray vs) commitTime =
     Inr (ArrayValue (removeAll_values vs (arrayElements cur)), NullValue)"
| "transformStep cur TransformUnset commitTime = Inl (Status InvalidArgument)"

definition GetField_nil :: "Fields option \<Rightarrow> FieldPath \<Rightarrow> Value" where
  "GetField_nil flds path =
     (case flds of None \<Rightarrow> NullValue
      | Some f \<Rightarrow> (case GetField f path of None \<Rightarrow> NullValue | Some v \<Rightarrow> v))"

definition SetField_nil :: "Fields option \<Rightarrow> FieldPath \<Rightarrow> Value \<Rightarrow> fault + Fields option" where
  "SetField_nil flds path v = (case flds of None \<Rightarrow> Inl Panic | Some f \<Rightarrow> Inr (Some (SetField f path v)))"

fun applyTransforms ::
  "Fields option \<Rightarrow> Value list \<Rightarrow> FieldTransform list \<Rightarrow> time \<Rightarrow> fault + (Fields option \<times> Value list)" where
  "applyTransforms flds results [] commitTime = Inr (flds, results)"
| "applyTransforms flds results ((fp, tt) # fts) commitTime =
     (case ParseFieldPath fp of
        Inl _ \<Rightarrow> Inl (Status InvalidArgument)
      | Inr path \<Rightarrow>
          bind_result (transformStep (GetField_nil flds path) tt commitTime) (\<lambda>(v, res).
          bind_result (SetField_nil flds path v) (\<lambda>flds'.
          applyTransforms flds' (results @ [res]) fts commitTime)))"

fun applyMask :: "Fields \<Rightarrow> Fields \<Rightarrow> string list \<Rightarrow> fault + Fields" where
  "applyMask upd flds [] = Inr flds"
| "applyMask upd flds (p # ps) =
     (case ParseFieldPath p of
        Inl _ \<Rightarrow> Inl (Status InvalidArgument)
      | Inr path \<Rightarrow>
          applyMask upd
            (case GetField upd path of Some v \<Rightarrow> SetField flds path v | None \<Rightarrow> DeleteField flds path) ps)"

definition baseFields :: "DocState \<Rightarrow> Fields" where
  "baseFields state =
     (if \<not> ds_Exists state then [] else case ds_Fields state of None \<Rightarrow> [] | Some f \<Rightarrow> f)"

definition updatedFields :: "DocState \<Rightarrow> Fields \<Rightarrow> string list option \<Rightarrow> fault + Fields" where
  "updatedFields state upd msk =
     (case msk of
        None \<Rightarrow> Inr (cloneFields upd)
      | Some ps \<Rightarrow> applyMask upd (baseFields state) ps)"

definition applyUpdate :: "DocState \<Rightarrow> Fields \<Rightarrow> string list option \<Rightarrow> time \<Rightarrow> fault + DocState" where
  "applyUpdate state upd msk commitTime =
     bind_result (updatedFields state upd msk) (\<lambda>flds.
       let created = (if \<not> ds_Exists state
                      then state\<lparr>ds_Exists := True, ds_CreateTime := commitTime\<rparr> else state)
       in Inr (created\<lparr>ds_Fields := Some flds, ds_UpdateTime := commitTime, ds_Dirty := True\<rparr>))"

definition applyTransformWrite :: "DocState \<Rightarrow> FieldTransform list \<Rightarrow> time \<Rightarrow> fault + (DocState \<times> Value list)" where
  "applyTransformWrite state fts commitTime =
     (let created = (if \<not> ds_Exists state
                     then state\<lparr>ds_Exists := True, ds_Fields := Some [], ds_CreateTime := commitTime\<rparr>
                     else state)
      in bind_result (applyTransforms (ds_Fields created) [] fts commitTime) (\<lambda>(flds, results).
         Inr (created\<lparr>ds_Fields := flds, ds_UpdateTime := commitTime, ds_Dirty := True\<rparr>, results)))"

definition applyOperation :: "DocState \<Rightarrow> Write \<Rightarrow> time \<Rightarrow> fault + (DocState \<times> Value list)" where
  "applyOperation state w commitTime =
     (case w_Operation w of
        Write_Update _ upd \<Rightarrow>
          bind_result (applyUpdate state upd (w_UpdateMask w) commitTime) (\<lambda>st. Inr (st, []))
      | Write_Delete _ \<Rightarrow> Inr (state\<lparr>ds_Exists := False, ds_Fields := None, ds_Dirty := True\<rparr>, [])
      | Write_Transform _ fts \<Rightarrow> applyTransformWrite state fts commitTime
      | OperationUnset \<Rightarrow> Inl (Status InvalidArgument))"

definition isDelete :: "Operation \<Rightarrow> bool" where
  "isDelete op = (case op of Write_Delete _ \<Rightarrow> True | _ \<Rightarrow> False)"

definition applyUpdateTransforms ::
  "Write \<Rightarrow> time \<Rightarrow> DocState \<times> Value list \<Rightarrow> fault + (DocState \<times> Value list)" where
  "applyUpdateTransforms w commitTime = (\<lambda>(state, transformResults).
     if w_UpdateTransforms w = [] then Inr (state, transformResults)
     else if isDelete (w_Operation w) then Inl (Status InvalidArgument)
     else bind_result (applyTransforms (ds_Fields state) [] (w_UpdateTransforms w) commitTime)
            (\<lambda>(flds, results).
               Inr (state\<lparr>ds_Fields := flds, ds_UpdateTime := commitTime\<rparr>, transformResults @ results)))"

definition Apply :: "DocState \<Rightarrow> Write \<Rightarrow> time \<Rightarrow> fault + (DocState \<times> WriteResult)" where
  "Apply state w commitTime =
     (case checkPrecondition state (w_CurrentDocument w) of
        Some code \<Rightarrow> Inl (Status code)
      | None \<Rightarrow>
          bind_result (applyOperation state w commitTime) (\<lambda>st.
          bind_result (applyUpdateTransforms w commitTime st) (\<lambda>(state', transformResults).
            Inr (state', \<lparr>wr_UpdateTime = commitTime, wr_TransformResults = transformResults\<rparr>))))"

section \<open>The shape of stored values\<close>

text \<open>
  The shape of stored values: as \<open>valid_value\<close>, without its bound on the length of arrays,
  which nothing in a commit enforces.
\<close>

fun shape_value :: "Value \<Rightarrow> bool" where
  "shape_value (TimestampValue s n) \<longleftrightarrow> 0 \<le> sint n \<and> sint n < 1000000000"
| "shape_value (GeoPointValue lat lng) \<longleftrightarrow> \<not> float_IsNaN lat \<and> \<not> float_IsNaN lng"
| "shape_value (ArrayValue vs) \<longleftrightarrow> (\<forall>v \<in> set vs. shape_value v)"
| "shape_value (MapValue m) \<longleftrightarrow> distinct (map fst m) \<and> (\<forall>kv \<in> set m. shape_value (snd kv))"
| "shape_value _ \<longleftrightarrow> True"

fun short_arrays :: "Value \<Rightarrow> bool" where
  "short_arrays (ArrayValue vs) \<longleftrightarrow> length vs < 2 ^ 32 \<and> (\<forall>v \<in> set vs. short_arrays v)"
| "short_arrays (MapValue m) \<longleftrightarrow> (\<forall>kv \<in> set m. short_arrays (snd kv))"
| "short_arrays _ \<longleftrightarrow> True"

interpretation shape: hereditary shape_value
  by unfold_locales simp

lemma valid_value_iff: "valid_value v \<longleftrightarrow> shape_value v \<and> short_arrays v"
  by (induction v rule: valid_value.induct) auto

section \<open>Transforms\<close>

lemma sint_add64: "sint (a + b :: int64) = (sint a + sint b + 2 ^ 63) mod 2 ^ 64 - 2 ^ 63"
proof -
  have "sint (a + b) = signed_take_bit 63 (sint a + sint b)"
    by (simp add: signed_take_bit_add sint_word_ariths)
  then show ?thesis by (simp add: signed_take_bit_eq_take_bit_shift take_bit_eq_mod)
qed

lemma mod_unique: "0 \<le> x + k * m \<Longrightarrow> x + k * m < m \<Longrightarrow> x mod m = x + k * m" for x k m :: int
  using mod_pos_pos_trivial [of "x + k * m" m] by simp

lemma sint64_range: "- (2 ^ 63) \<le> sint (a :: int64)" "sint (a :: int64) < 2 ^ 63"
  using sint_greater_eq [of a] sint_less [of a] by simp_all

lemma saturatingAdd_sint:
  "sint (saturatingAdd a b) = max (- (2 ^ 63)) (min (2 ^ 63 - 1) (sint a + sint b))"
proof -
  have M: "sint MaxInt64 = 2 ^ 63 - 1" "sint MinInt64 = - (2 ^ 63)"
    by (simp_all add: MaxInt64_def MinInt64_def)
  consider "sint a + sint b < - (2 ^ 63)" | "sint a + sint b \<ge> 2 ^ 63"
    | "- (2 ^ 63) \<le> sint a + sint b" "sint a + sint b < 2 ^ 63" by linarith
  then show ?thesis
  proof cases
    case 1
    then have "sint (a + b) = sint a + sint b + 2 ^ 64" unfolding sint_add64
      using sint64_range [of a] sint64_range [of b] mod_unique [of "sint a + sint b + 2 ^ 63" "1" "2 ^ 64"]
      by simp
    with 1 sint64_range [of a] sint64_range [of b] show ?thesis
      by (simp add: saturatingAdd_def addInt64_def M Let_def)
  next
    case 2
    then have "sint (a + b) = sint a + sint b - 2 ^ 64" unfolding sint_add64
      using sint64_range [of a] sint64_range [of b] mod_unique [of "sint a + sint b + 2 ^ 63" "- 1" "2 ^ 64"]
      by simp
    with 2 sint64_range [of a] sint64_range [of b] show ?thesis
      by (simp add: saturatingAdd_def addInt64_def M Let_def)
  next
    case 3
    then have "sint (a + b) = sint a + sint b" unfolding sint_add64 by simp
    with 3 show ?thesis by (simp add: saturatingAdd_def addInt64_def M Let_def)
  qed
qed

lemma containsValue_iff: "containsValue els v \<longleftrightarrow> (\<exists>el \<in> set els. Equal el v)"
  by (induction els) auto

lemma removeAll_values_filter: "removeAll_values vs els = filter (\<lambda>el. \<not> containsValue vs el) els"
  by (induction els) auto

lemma appendMissing_split:
  "\<exists>zs. appendMissing xs ys = xs @ zs \<and> subseq zs ys \<and> (\<forall>z \<in> set zs. \<not> containsValue xs z) \<and>
     sorted_wrt (\<lambda>a b. \<not> Equal a b) zs"
proof (induction xs ys rule: appendMissing.induct)
  case (2 xs y ys)
  show ?case
  proof (cases "containsValue xs y")
    case True
    with 2 show ?thesis by (auto intro: list_emb_Cons)
  next
    case False
    with 2 obtain zs where zs: "appendMissing (xs @ [y]) ys = (xs @ [y]) @ zs" "subseq zs ys"
      "\<forall>z \<in> set zs. \<not> containsValue (xs @ [y]) z" "sorted_wrt (\<lambda>a b. \<not> Equal a b) zs" by auto
    show ?thesis
      by (rule exI [of _ "y # zs"]) (use zs False in \<open>auto simp: containsValue_iff\<close>)
  qed
qed simp

lemma appendMissing_absorb: "\<forall>y \<in> set ys. containsValue xs y \<Longrightarrow> appendMissing xs ys = xs"
  by (induction ys) auto

lemma Equal_refl: "valid_value v \<Longrightarrow> Equal v v"
  by (simp add: Equal_def value_key.cmp_refl)

lemma appendMissing_contains:
  "y \<in> set ys \<Longrightarrow> valid_value y \<Longrightarrow> containsValue (appendMissing xs ys) y"
proof (induction xs ys rule: appendMissing.induct)
  case (2 xs z ys)
  show ?case
  proof (cases "y = z")
    case True
    define xs' where "xs' = (if \<not> containsValue xs z then xs @ [z] else xs)"
    have "containsValue xs' z" using 2 True by (auto simp: xs'_def containsValue_iff Equal_refl)
    moreover obtain zs where "appendMissing xs' ys = xs' @ zs" using appendMissing_split by blast
    moreover have "appendMissing xs (z # ys) = appendMissing xs' ys" by (simp add: xs'_def)
    ultimately show ?thesis using True by (auto simp: containsValue_iff simp del: appendMissing.simps)
  next
    case False
    with 2 show ?thesis by auto
  qed
qed simp

lemma numeric_valid: "IsNumeric v \<Longrightarrow> valid_value v"
  by (cases v) (auto simp: IsNumeric_def split: if_splits)

section \<open>Masked updates\<close>

lemma applyMask_fold:
  "map ParseFieldPath ms = map Inr ps \<Longrightarrow>
   applyMask upd f ms =
     Inr (fold (\<lambda>x f. apply_edit SetField DeleteField f x) (map (\<lambda>p. (p, GetField upd p)) ps) f)"
proof (induction upd f ms arbitrary: ps rule: applyMask.induct)
  case (2 upd f m ms)
  from "2.prems" obtain p ps' where p: "ps = p # ps'" "ParseFieldPath m = Inr p"
    "map ParseFieldPath ms = map Inr ps'" by (cases ps) auto
  show ?case
    using "2.IH" [OF p(2) p(3)] p by (cases "GetField upd p") simp_all
qed simp

lemma applyMask_no_panic: "applyMask upd f ms \<noteq> Inl Panic"
  by (induction upd f ms rule: applyMask.induct) (auto split: sum.split)

lemma AList_update_new: "k \<notin> fst ` set out \<Longrightarrow> AList.update k v out = out @ [(k, v)]"
  by (induction out) auto

lemma cloneFields_id: "distinct (map fst m) \<Longrightarrow> cloneFields m = m"
proof -
  have "distinct (map fst (out @ m)) \<Longrightarrow> cloneLoop out m = out @ m" for out
  proof (induction out m rule: cloneLoop.induct)
    case (2 out k v m)
    then show ?case using AList_update_new [of k out v] by simp
  qed simp
  from this [of "[]"] show "distinct (map fst m) \<Longrightarrow> cloneFields m = m"
    by (simp add: cloneFields_def)
qed

section \<open>The invariant of a document state\<close>

definition state_ok :: "(Value \<Rightarrow> bool) \<Rightarrow> DocState \<Rightarrow> bool" where
  "state_ok P st \<longleftrightarrow>
     (ds_Exists st \<longleftrightarrow> ds_Fields st \<noteq> None) \<and>
     (\<forall>f. ds_Fields st = Some f \<longrightarrow> P (MapValue f)) \<and>
     (ds_Exists st \<longrightarrow> ds_CreateTime st \<le> ds_UpdateTime st)"

fun transform_ok :: "(Value \<Rightarrow> bool) \<Rightarrow> TransformType \<Rightarrow> bool" where
  "transform_ok P (Increment v) = P v"
| "transform_ok P (Maximum v) = P v"
| "transform_ok P (Minimum v) = P v"
| "transform_ok P (AppendMissingElements vs) = (\<forall>v \<in> set vs. P v)"
| "transform_ok P _ = True"

fun operation_ok :: "(Value \<Rightarrow> bool) \<Rightarrow> Operation \<Rightarrow> bool" where
  "operation_ok P (Write_Update _ f) = P (MapValue f)"
| "operation_ok P (Write_Transform _ fts) = list_all (transform_ok P \<circ> snd) fts"
| "operation_ok P _ = True"

definition write_ok :: "(Value \<Rightarrow> bool) \<Rightarrow> Write \<Rightarrow> bool" where
  "write_ok P w \<longleftrightarrow> operation_ok P (w_Operation w) \<and> list_all (transform_ok P \<circ> snd) (w_UpdateTransforms w)"

text \<open>What an operation at time \<open>t\<close> that leaves the document present or not makes of a state.\<close>

definition written :: "(Value \<Rightarrow> bool) \<Rightarrow> DocState \<Rightarrow> time \<Rightarrow> bool \<Rightarrow> DocState \<Rightarrow> bool" where
  "written P st t ex st' \<longleftrightarrow>
     state_ok P st' \<and> ds_Exists st' = ex \<and> ds_Dirty st' \<and> ds_Name st' = ds_Name st \<and>
     (ex \<longrightarrow> ds_UpdateTime st' = t \<and> ds_CreateTime st' \<le> t)"

definition ready :: "(Value \<Rightarrow> bool) \<Rightarrow> DocState \<Rightarrow> time \<Rightarrow> bool" where
  "ready P st t \<longleftrightarrow> state_ok P st \<and> (ds_Exists st \<longrightarrow> ds_CreateTime st \<le> t)"

lemma set_subseq_subset: "subseq zs ys \<Longrightarrow> set zs \<subseteq> set ys"
  by (induction rule: list_emb.induct) auto

lemma set_appendMissing: "set (appendMissing xs ys) \<subseteq> set xs \<union> set ys"
  using appendMissing_split [of xs ys] set_subseq_subset by fastforce

lemma transformStep_no_panic: "transformStep cur tt t \<noteq> Inl Panic"
  by (cases tt) (auto simp: Let_def)

text \<open>
  Weakest preconditions over fallible results: the operation does not panic, and what it
  returns satisfies the postcondition.
\<close>

definition ensures :: "fault + 'a \<Rightarrow> ('a \<Rightarrow> bool) \<Rightarrow> bool" where
  "ensures r Q \<longleftrightarrow> r \<noteq> Inl Panic \<and> (\<forall>x. r = Inr x \<longrightarrow> Q x)"

lemma ensures_simps [simp]: "ensures (Inl e) Q \<longleftrightarrow> e \<noteq> Panic" "ensures (Inr x) Q \<longleftrightarrow> Q x"
  by (auto simp: ensures_def)

lemma ensures_bind: "ensures r P \<Longrightarrow> (\<And>x. P x \<Longrightarrow> ensures (f x) Q) \<Longrightarrow> ensures (bind_result r f) Q"
  by (cases r) auto

lemma ensures_mono: "ensures r P \<Longrightarrow> (\<And>x. P x \<Longrightarrow> Q x) \<Longrightarrow> ensures r Q"
  by (cases r) auto

lemma ensures_Inr: "ensures r Q \<Longrightarrow> r = Inr x \<Longrightarrow> Q x"
  by simp

lemma ensures_no_panic: "ensures r Q \<Longrightarrow> r \<noteq> Inl Panic"
  by (simp add: ensures_def)

text \<open>
  A property of values kept by every way a write computes a value. Everything about \<^verbatim>\<open>Apply\<close> is
  proved once for such a property.
\<close>

locale write_closed = hereditary P for P :: "Value \<Rightarrow> bool" +
  fixes t :: time
  assumes P_array: "P (ArrayValue vs) \<longleftrightarrow> (\<forall>v \<in> set vs. P v)"
    and P_null: "P NullValue"
    and P_NaN: "P (DoubleValue float_NaN)"
    and P_time: "P (tsValue t)"
    and P_increment: "P cur \<Longrightarrow> P op \<Longrightarrow> P (numericTransform cur op saturatingAdd float_add)"
begin

lemma P_extremum: "P cur \<Longrightarrow> P op \<Longrightarrow> P (extremumTransform cur op d)"
  by (simp add: extremumTransform_def P_NaN)

lemma P_arrayElements: "P cur \<Longrightarrow> v \<in> set (arrayElements cur) \<Longrightarrow> P v"
  by (cases cur) (auto simp: P_array)

lemma transformStep_shape:
  "transformStep cur tt t = Inr (v, r) \<Longrightarrow> P cur \<Longrightarrow> transform_ok P tt \<Longrightarrow> P v"
  by (cases tt)
     (auto simp: P_increment P_extremum P_array P_time Let_def removeAll_values_filter split: if_splits
       dest: P_arrayElements dest!: set_appendMissing [THEN subsetD])

abbreviation (input) P_opt :: "Fields option \<Rightarrow> bool" where
  "P_opt fo \<equiv> (case fo of None \<Rightarrow> False | Some f \<Rightarrow> P (MapValue f))"

lemma applyMask_shape:
  "applyMask upd f ms = Inr f' \<Longrightarrow> P (MapValue upd) \<Longrightarrow> P (MapValue f) \<Longrightarrow>
   P (MapValue f')"
proof (induction upd f ms rule: applyMask.induct)
  case (2 upd f m ms)
  then obtain p where p: "ParseFieldPath m = Inr p"
    by (cases "ParseFieldPath m") auto
  show ?case
  proof (cases "GetField upd p")
    case None
    with 2 p show ?thesis by (simp add: P_DeleteField)
  next
    case (Some v)
    have "P v" using "2.prems"(2) Some by (rule P_GetField)
    with 2 p Some show ?thesis by (simp add: P_SetField)
  qed
qed simp

lemma transformStep_ensures:
  "P cur \<Longrightarrow> transform_ok P tt \<Longrightarrow> ensures (transformStep cur tt t) (\<lambda>(v, r). P v)"
  using transformStep_no_panic [of cur tt t] transformStep_shape [of cur tt]
  by (auto simp: ensures_def)

lemma applyTransforms_shape:
  assumes "P_opt fo" "list_all (transform_ok P \<circ> snd) fts"
  shows "ensures (applyTransforms fo rs fts t) (\<lambda>(fo', rs'). P_opt fo' \<and> length rs' = length rs + length fts)"
  using assms
proof (induction fts arbitrary: fo rs)
  case (Cons ft fts)
  obtain fp tt where ft: "ft = (fp, tt)" by force
  from Cons.prems(1) obtain f where f: "fo = Some f" "P (MapValue f)" by (cases fo) auto
  show ?case
  proof (cases "ParseFieldPath fp")
    case (Inr p)
    have cur: "P (GetField_nil fo p)"
      using f P_GetField [of f p] by (auto simp: GetField_nil_def P_null split: option.split)
    have "transform_ok P tt" using Cons.prems(2) ft by simp
    from transformStep_ensures [OF cur this]
    have "ensures (bind_result (transformStep (GetField_nil fo p) tt t) (\<lambda>(v, res).
        bind_result (SetField_nil fo p v) (\<lambda>flds'. applyTransforms flds' (rs @ [res]) fts t)))
      (\<lambda>(fo', rs'). P_opt fo' \<and> length rs' = length rs + length (ft # fts))"
    proof (rule ensures_bind, clarify)
      fix v res assume "P v"
      then have "P_opt (Some (SetField f p v))" using P_SetField [OF f(2)] by simp
      from Cons.IH [OF this, of "rs @ [res]"] Cons.prems(2)
      show "ensures (bind_result (SetField_nil fo p v) (\<lambda>flds'. applyTransforms flds' (rs @ [res]) fts t))
        (\<lambda>(fo', rs'). P_opt fo' \<and> length rs' = length rs + length (ft # fts))"
        by (simp add: SetField_nil_def f(1))
    qed
    then show ?thesis using Inr ft by simp
  qed (use ft in simp)
qed simp

lemma shape_baseFields: "state_ok P st \<Longrightarrow> P (MapValue (baseFields st))"
  by (auto simp: baseFields_def state_ok_def P_Nil split: option.split)

lemma updatedFields_shape:
  assumes "state_ok P st" "P (MapValue upd)"
  shows "ensures (updatedFields st upd msk) (\<lambda>f. P (MapValue f))"
  using applyMask_no_panic [of upd "baseFields st"] assms cloneFields_id [of upd] P_map [of upd]
    applyMask_shape [OF _ assms(2) shape_baseFields [OF assms(1)]]
  by (auto simp: updatedFields_def ensures_def split: option.splits)

lemma applyUpdate_wf:
  assumes "ready P st t" "P (MapValue upd)"
  shows "ensures (applyUpdate st upd msk t) (written P st t True)"
  unfolding applyUpdate_def
proof (rule ensures_bind)
  show "ensures (updatedFields st upd msk) (\<lambda>f. P (MapValue f))"
    using assms by (simp add: updatedFields_shape ready_def)
qed (use assms(1) in \<open>simp add: written_def ready_def state_ok_def Let_def\<close>)

lemma applyTransformWrite_wf:
  assumes "ready P st t" "list_all (transform_ok P \<circ> snd) fts"
  shows "ensures (applyTransformWrite st fts t) (\<lambda>(st', rs). written P st t True st')"
proof -
  define st1 where "st1 = (if \<not> ds_Exists st
    then st\<lparr>ds_Exists := True, ds_Fields := Some [], ds_CreateTime := t\<rparr> else st)"
  have "P_opt (ds_Fields st1)" and st1: "ds_Exists st1" "ds_Name st1 = ds_Name st" "ds_CreateTime st1 \<le> t"
    using assms(1) by (auto simp: st1_def ready_def state_ok_def split: option.split)
  from applyTransforms_shape [OF this(1) assms(2), of "[]"] show ?thesis
    unfolding applyTransformWrite_def Let_def st1_def [symmetric]
    by (rule ensures_bind) (use st1 in \<open>auto simp: written_def state_ok_def split: option.splits\<close>)
qed

lemma applyOperation_wf:
  assumes "ready P st t" "write_ok P w"
  shows "ensures (applyOperation st w t) (\<lambda>(st', rs). written P st t (\<not> isDelete (w_Operation w)) st')"
proof (cases "w_Operation w")
  case (Write_Update n upd)
  then have "P (MapValue upd)" using assms(2) by (simp add: write_ok_def)
  from applyUpdate_wf [OF assms(1) this, of "w_UpdateMask w"] show ?thesis
    unfolding applyOperation_def Write_Update isDelete_def by (auto intro: ensures_bind)
next
  case (Write_Transform n fts)
  then have "list_all (transform_ok P \<circ> snd) fts" using assms(2) by (simp add: write_ok_def)
  from applyTransformWrite_wf [OF assms(1) this] show ?thesis
    unfolding applyOperation_def Write_Transform isDelete_def by simp
qed (simp_all add: applyOperation_def isDelete_def written_def state_ok_def)

lemma applyUpdateTransforms_wf:
  assumes "written P st t (\<not> isDelete (w_Operation w)) st1" "write_ok P w"
  shows "ensures (applyUpdateTransforms w t (st1, rs)) (\<lambda>(st', rs'). written P st t (\<not> isDelete (w_Operation w)) st')"
proof (cases "w_UpdateTransforms w = [] \<or> isDelete (w_Operation w)")
  case False
  with assms have "P_opt (ds_Fields st1)" "list_all (transform_ok P \<circ> snd) (w_UpdateTransforms w)"
    by (auto simp: written_def state_ok_def write_ok_def split: option.split)
  from applyTransforms_shape [OF this, of "[]"]
  have "ensures (bind_result (applyTransforms (ds_Fields st1) [] (w_UpdateTransforms w) t)
      (\<lambda>(flds, results). Inr (st1\<lparr>ds_Fields := flds, ds_UpdateTime := t\<rparr>, rs @ results)))
    (\<lambda>(st', rs'). written P st t (\<not> isDelete (w_Operation w)) st')"
    by (rule ensures_bind) (use assms(1) False in \<open>auto simp: written_def state_ok_def split: option.splits\<close>)
  with False show ?thesis by (simp add: applyUpdateTransforms_def)
qed (use assms in \<open>auto simp: applyUpdateTransforms_def\<close>)

lemma Apply_wf:
  assumes "ready P st t" "write_ok P w"
  shows "ensures (Apply st w t)
    (\<lambda>(st', wr). written P st t (\<not> isDelete (w_Operation w)) st' \<and> wr_UpdateTime wr = t)"
proof (cases "checkPrecondition st (w_CurrentDocument w)")
  case None
  have "ensures (bind_result (applyOperation st w t) (\<lambda>st.
      bind_result (applyUpdateTransforms w t st) (\<lambda>(state', transformResults).
        Inr (state', \<lparr>wr_UpdateTime = t, wr_TransformResults = transformResults\<rparr>))))
    (\<lambda>(st', wr). written P st t (\<not> isDelete (w_Operation w)) st' \<and> wr_UpdateTime wr = t)"
    using applyOperation_wf [OF assms]
  proof (rule ensures_bind, clarify)
    fix st1 rs assume "written P st t (\<not> isDelete (w_Operation w)) st1"
    from applyUpdateTransforms_wf [OF this assms(2), of rs]
    show "ensures (bind_result (applyUpdateTransforms w t (st1, rs)) (\<lambda>(state', transformResults).
        Inr (state', \<lparr>wr_UpdateTime = t, wr_TransformResults = transformResults\<rparr>)))
      (\<lambda>(st', wr). written P st t (\<not> isDelete (w_Operation w)) st' \<and> wr_UpdateTime wr = t)"
      by (rule ensures_bind) auto
  qed
  with None show ?thesis by (simp add: Apply_def)
qed (simp add: Apply_def)

end

lemma shape_numericTransform: "shape_value op \<Longrightarrow> shape_value (numericTransform cur op f g)"
  by (induction cur op f g rule: numericTransform.induct) auto

lemma shape_tsValue [simp]: "shape_value (tsValue t)"
proof -
  have "sint (word_of_int (t mod 1000000000) :: int32) = t mod 1000000000"
    using pos_mod_bound [of 1000000000 t] pos_mod_sign [of 1000000000 t]
    by (simp add: sint_sbintrunc' signed_take_bit_int_eq_self)
  then show ?thesis by (simp add: tsValue_def tsOf_def)
qed

interpretation shape_writes: write_closed shape_value t for t
  by unfold_locales (simp_all add: shape_numericTransform)

section \<open>Properties of writes\<close>

text \<open>
  C20: applying a write to a well-formed document state never panics, and when it succeeds the
  new state is again well-formed (present exactly when it has a field map, nested maps with one
  entry per key, timestamps and geopoints in range, created no later than updated), is marked
  dirty, keeps its name, and exists exactly when the write was not a deletion.
\<close>

theorem Apply_invariant:
  assumes "state_ok shape_value st" "ds_Exists st \<Longrightarrow> ds_CreateTime st \<le> t" "write_ok shape_value w"
  shows "Apply st w t \<noteq> Inl Panic \<and>
    (\<forall>st' wr. Apply st w t = Inr (st', wr) \<longrightarrow>
       state_ok shape_value st' \<and> ds_Dirty st' \<and> ds_Name st' = ds_Name st \<and>
       (ds_Exists st' \<longleftrightarrow> \<not> isDelete (w_Operation w)) \<and>
       (ds_Exists st' \<longrightarrow> ds_UpdateTime st' = t) \<and> wr_UpdateTime wr = t)"
proof -
  have "ready shape_value st t" using assms by (simp add: ready_def)
  from shape_writes.Apply_wf [OF this assms(3)] show ?thesis
    by (auto simp: written_def dest: ensures_Inr ensures_no_panic)
qed

definition missing_doc :: DocState where
  "missing_doc = \<lparr>ds_Name = ''d'', ds_Exists = False, ds_Fields = None,
     ds_CreateTime = zeroTime, ds_UpdateTime = zeroTime, ds_Dirty = False\<rparr>"

definition counter_write :: Write where
  "counter_write = \<lparr>w_Operation = Write_Update ''d'' [(''n'', IntegerValue 41)], w_UpdateMask = None,
     w_UpdateTransforms = [(''n'', Increment (IntegerValue 1))],
     w_CurrentDocument = Some (Precondition_Exists False)\<rparr>"

lemma parse_n: "ParseFieldPath ''n'' = Inr [''n'']"
  by (simp add: ParseFieldPath_def parseSegments.simps [of _ "''n''"] parseSegment_def)

lemma counter_write_step:
  "\<exists>wr. Apply missing_doc counter_write 7 = Inr (missing_doc\<lparr>ds_Exists := True,
     ds_Fields := Some [(''n'', IntegerValue 42)], ds_CreateTime := 7, ds_UpdateTime := 7, ds_Dirty := True\<rparr>, wr)"
  by (simp add: Apply_def checkPrecondition_def counter_write_def missing_doc_def applyOperation_def
      applyUpdate_def updatedFields_def cloneFields_def applyUpdateTransforms_def isDelete_def parse_n
      GetField_nil_def SetField_nil_def saturatingAdd_def addInt64_def Let_def)

theorem Apply_invariant_witness:
  "state_ok shape_value (missing_doc\<lparr>ds_Exists := True, ds_Fields := Some [(''n'', IntegerValue 42)],
     ds_CreateTime := 7, ds_UpdateTime := 7, ds_Dirty := True\<rparr>)"
proof -
  have "state_ok shape_value missing_doc" "\<not> ds_Exists missing_doc" "write_ok shape_value counter_write"
    by (simp_all add: state_ok_def missing_doc_def write_ok_def counter_write_def)
  with Apply_invariant [of missing_doc 7 counter_write] counter_write_step show ?thesis by blast
qed

text \<open>
  C26: a masked update whose paths are unrelated succeeds when its precondition holds; every path
  of the mask then reads as in the request (and is gone where the request has nothing there),
  and every path that is neither above nor below one of them reads as before.
\<close>

theorem masked_update_exact:
  assumes "w_Operation w = Write_Update n upd" "w_UpdateMask w = Some ms" "w_UpdateTransforms w = []"
    and "map ParseFieldPath ms = map Inr ps" "sorted_wrt (\<parallel>) ps"
    and "checkPrecondition st (w_CurrentDocument w) = None"
  shows "\<exists>st' wr f. Apply st w t = Inr (st', wr) \<and> ds_Fields st' = Some f \<and>
    (\<forall>p \<in> set ps. GetField f p = GetField upd p) \<and>
    (\<forall>q. (\<forall>p \<in> set ps. p \<parallel> q) \<longrightarrow> GetField f q = GetField (baseFields st) q)"
proof -
  define es where "es = map (\<lambda>p. (p, GetField upd p)) ps"
  define f where "f = fold (\<lambda>x f. apply_edit SetField DeleteField f x) es (baseFields st)"
  have mask: "applyMask upd (baseFields st) ms = Inr f"
    using applyMask_fold [OF assms(4)] by (simp add: f_def es_def)
  have "sorted_wrt (\<lambda>x y. fst x \<parallel> fst y) es"
    using assms(5) by (simp add: es_def sorted_wrt_map)
  moreover have "p \<noteq> []" if "p \<in> set ps" for p
  proof -
    from that assms(4) have "Inr p \<in> ParseFieldPath ` set ms" by (metis image_eqI list.set_map)
    then show ?thesis by (auto simp: ParseFieldPath_def dest: parseSegments_not_Nil [OF sym] split: if_splits)
  qed
  ultimately have "\<forall>p \<in> set ps. GetField f p = GetField upd p"
    by (auto simp: f_def es_def intro!: doc_fields.get_edits)
  moreover have "GetField f q = GetField (baseFields st) q" if "\<forall>p \<in> set ps. p \<parallel> q" for q
    unfolding f_def by (rule doc_fields.get_edits_other) (use that in \<open>auto simp: es_def\<close>)
  moreover have "\<exists>st' wr. Apply st w t = Inr (st', wr) \<and> ds_Fields st' = Some f"
    using assms mask by (simp add: Apply_def applyOperation_def applyUpdate_def updatedFields_def
        applyUpdateTransforms_def Let_def)
  ultimately show ?thesis by blast
qed

theorem masked_update_exact_witness:
  "\<exists>st' wr f. Apply (missing_doc\<lparr>ds_Exists := True, ds_Fields := Some [(''n'', NullValue), (''m'', StringValue ''x'')]\<rparr>)
      (counter_write\<lparr>w_UpdateMask := Some [''n''], w_UpdateTransforms := [], w_CurrentDocument := None\<rparr>) 9 =
      Inr (st', wr) \<and> ds_Fields st' = Some f \<and>
    GetField f [''n''] = Some (IntegerValue 41) \<and> GetField f [''m''] = Some (StringValue ''x'')"
proof -
  let ?w = "counter_write\<lparr>w_UpdateMask := Some [''n''], w_UpdateTransforms := [], w_CurrentDocument := None\<rparr>"
  let ?st = "missing_doc\<lparr>ds_Exists := True, ds_Fields := Some [(''n'', NullValue), (''m'', StringValue ''x'')]\<rparr>"
  have "w_Operation ?w = Write_Update ''d'' [(''n'', IntegerValue 41)]" by (simp add: counter_write_def)
  from masked_update_exact [OF this, of "[''n'']" "[[''n'']]" ?st 9] obtain st' wr f where
    1: "Apply ?st ?w 9 = Inr (st', wr)" "ds_Fields st' = Some f" "GetField f [''n''] = Some (IntegerValue 41)"
    and 2: "\<And>q. [''n''] \<parallel> q \<Longrightarrow> GetField f q = GetField (baseFields ?st) q"
    by (auto simp: parse_n checkPrecondition_def)
  have "GetField f [''m''] = Some (StringValue ''x'')"
    using 2 [of "[''m'']"] by (simp add: parallel_Cons_iff baseFields_def)
  with 1 show ?thesis by blast
qed

text \<open>How a precondition can fail, and with which code.\<close>

definition pre_failure :: "DocState \<Rightarrow> Precondition option \<Rightarrow> grpc_code \<Rightarrow> bool" where
  "pre_failure st pre code \<longleftrightarrow>
     (pre = Some (Precondition_Exists True) \<and> \<not> ds_Exists st \<and> code = NotFound) \<or>
     (pre = Some (Precondition_Exists False) \<and> ds_Exists st \<and> code = AlreadyExists) \<or>
     (\<exists>s n. pre = Some (Precondition_UpdateTime s n) \<and> code = FailedPrecondition \<and>
        (ds_Exists st \<longrightarrow> ds_UpdateTime st div 1000 \<noteq> AsTime s n div 1000))"

lemma Truncate_us_eq: "Truncate_us a = Truncate_us b \<longleftrightarrow> a div 1000 = b div 1000"
  by (simp add: Truncate_us_def minus_mod_eq_mult_div)

lemma checkPrecondition_iff: "checkPrecondition st pre = Some code \<longleftrightarrow> pre_failure st pre code"
  by (auto simp: checkPrecondition_def pre_failure_def Truncate_us_eq Let_def
      split: option.splits Precondition.splits if_splits)

text \<open>
  C27: a write with a precondition takes effect only when the document's existence, or its update
  time up to microseconds, is what the precondition names; otherwise it fails with the code
  that says which requirement was missed.
\<close>

theorem preconditions_enforced:
  "(\<forall>code. pre_failure st (w_CurrentDocument w) code \<longrightarrow> Apply st w t = Inl (Status code)) \<and>
   (\<forall>r. Apply st w t = Inr r \<longrightarrow> (\<forall>code. \<not> pre_failure st (w_CurrentDocument w) code))"
  unfolding checkPrecondition_iff [symmetric] by (auto simp: Apply_def split: option.splits)

theorem preconditions_enforced_witness:
  "Apply (missing_doc\<lparr>ds_Exists := True, ds_Fields := Some []\<rparr>) counter_write 9 = Inl (Status AlreadyExists)"
  using preconditions_enforced [of "missing_doc\<lparr>ds_Exists := True, ds_Fields := Some []\<rparr>" counter_write 9]
  by (simp add: pre_failure_def counter_write_def missing_doc_def)

text \<open>The sum of two doubles, as IEEE-754 defines it up to the choice between two equally near doubles.\<close>

definition double_sum :: "float64 \<Rightarrow> float64 \<Rightarrow> float64 \<Rightarrow> bool" where
  "double_sum x y z \<longleftrightarrow>
     (if float_IsNaN x \<or> float_IsNaN y \<or> float_IsInf x \<and> float_IsInf y \<and> float_sign x \<noteq> float_sign y then float_IsNaN z
      else if float_IsInf x then z = x
      else if float_IsInf y then z = y
      else nearest z (float_scaled x + float_scaled y))"

lemma float_add_sum: "double_sum x y (float_add x y)"
  using float_add_special [where a = x and b = y] float_add_nearest [of x y] by (auto simp: double_sum_def)

lemma increment_other: "IsNumeric cur \<or> transformStep cur (Increment op) t = Inr (op, op)"
  by (cases cur; cases op) (simp_all add: IsNumeric_def Let_def)

text \<open>
  C28: an increment of an integer by an integer gives their mathematical sum clamped to the 64-bit
  range, with no wrap-around. With a double on either side or on both, an integer becomes the double
  nearest to it and the result is the double nearest to the exact sum of both, NaN when one of them
  is or when opposite infinities meet, and an infinity when one of them is. A field that holds no
  number takes the operand. The value sent back is the value stored.
\<close>

theorem increment_saturates:
  "(\<exists>s. transformStep (IntegerValue a) (Increment (IntegerValue b)) t = Inr (IntegerValue s, IntegerValue s) \<and>
      sint s = max (- (2 ^ 63)) (min (2 ^ 63 - 1) (sint a + sint b))) \<and>
   (\<exists>x z. transformStep (IntegerValue a) (Increment (DoubleValue d)) t = Inr (DoubleValue z, DoubleValue z) \<and>
      nearest x (int_scaled a) \<and> double_sum x d z) \<and>
   (\<exists>y z. transformStep (DoubleValue c) (Increment (IntegerValue b)) t = Inr (DoubleValue z, DoubleValue z) \<and>
      nearest y (int_scaled b) \<and> double_sum c y z) \<and>
   (\<exists>z. transformStep (DoubleValue c) (Increment (DoubleValue d)) t = Inr (DoubleValue z, DoubleValue z) \<and> double_sum c d z) \<and>
   (IsNumeric cur \<or> transformStep cur (Increment op) t = Inr (op, op))"
  by (intro conjI increment_other)
    (auto simp: saturatingAdd_sint Let_def float_add_sum intro: float_of_int64_nearest float_add_sum)

text \<open>
  Maximum and minimum keep a bound of the stored number and the operand in the value order:
  the result is one of the two, no smaller (no larger) than either, and the stored one on ties.
\<close>

theorem extremum_transform:
  assumes "IsNumeric cur" "IsNumeric op" "\<not> isNaNValue cur" "\<not> isNaNValue op" "dir = 1 \<or> dir = -1"
  shows "extremumTransform cur op dir \<in> {cur, op} \<and>
    Compare (extremumTransform cur op dir) cur * dir \<ge> 0 \<and>
    Compare (extremumTransform cur op dir) op * dir \<ge> 0 \<and>
    (Compare op cur = 0 \<longrightarrow> extremumTransform cur op dir = cur)"
proof -
  have v: "valid_value cur" "valid_value op"
    using assms(1,2) by (simp_all add: numeric_valid)
  have "Compare cur cur = 0" "Compare op op = 0" "Compare cur op = - Compare op cur"
    using v by (simp_all add: value_key.cmp_refl value_key.cmp_swap [of op cur])
  then show ?thesis using assms by (auto simp: extremumTransform_def)
qed

theorem extremum_transform_witness:
  "extremumTransform (IntegerValue 3) (IntegerValue 5) 1 \<in> {IntegerValue 3, IntegerValue 5} \<and>
   Compare (extremumTransform (IntegerValue 3) (IntegerValue 5) 1) (IntegerValue 5) \<ge> 0"
  using extremum_transform [of "IntegerValue 3" "IntegerValue 5" 1] by (simp add: IsNumeric_def)

text \<open>
  Array union keeps the stored elements in front and appends, in request order, each operand
  that equals none before it; afterwards every operand is present, so repeating the transform
  changes nothing. Array removal keeps exactly the elements equal to no operand, in order.
\<close>

theorem array_transforms:
  assumes "\<forall>y \<in> set ys. valid_value y"
  shows "\<exists>zs. transformStep cur (AppendMissingElements ys) t = Inr (ArrayValue (arrayElements cur @ zs), NullValue) \<and>
    subseq zs ys \<and> sorted_wrt (\<lambda>a b. \<not> Equal a b) zs \<and>
    (\<forall>z \<in> set zs. \<forall>x \<in> set (arrayElements cur). \<not> Equal x z) \<and>
    (\<forall>y \<in> set ys. \<exists>x \<in> set (arrayElements cur @ zs). Equal x y) \<and>
    transformStep (ArrayValue (arrayElements cur @ zs)) (AppendMissingElements ys) t' =
      Inr (ArrayValue (arrayElements cur @ zs), NullValue) \<and>
    transformStep cur (RemoveAllFromArray ys) t =
      Inr (ArrayValue (filter (\<lambda>x. \<forall>y \<in> set ys. \<not> Equal y x) (arrayElements cur)), NullValue)"
proof -
  from appendMissing_split [of "arrayElements cur" ys] obtain zs where
    zs: "appendMissing (arrayElements cur) ys = arrayElements cur @ zs" "subseq zs ys"
      "\<forall>z \<in> set zs. \<not> containsValue (arrayElements cur) z" "sorted_wrt (\<lambda>a b. \<not> Equal a b) zs" by blast
  have all: "\<forall>y \<in> set ys. containsValue (arrayElements cur @ zs) y"
    using appendMissing_contains [of _ ys "arrayElements cur"] assms zs(1) by auto
  have "removeAll_values ys (arrayElements cur) = filter (\<lambda>x. \<forall>y \<in> set ys. \<not> Equal y x) (arrayElements cur)"
    by (simp add: removeAll_values_filter containsValue_iff)
  with zs all appendMissing_absorb [OF all] show ?thesis
    by (intro exI [of _ zs]) (auto simp: containsValue_iff)
qed

theorem array_transforms_witness:
  "\<exists>zs. transformStep NullValue (AppendMissingElements [NullValue]) 0 = Inr (ArrayValue (arrayElements NullValue @ zs), NullValue)"
  using array_transforms [of "[NullValue]" NullValue 0 0] by auto

end
