(* ===== verification/Decimal64.thy ===== *)
theory Decimal64
  imports GoStd
begin

text \<open>
  \<^verbatim>\<open>strconv.FormatFloat(f, 'g', -1, 64)\<close> and \<^verbatim>\<open>strconv.ParseFloat(s, 64)\<close>: the shortest
  decimal that reads back as the double, and correctly rounded reading of decimal and
  hexadecimal literals. Magnitudes are exact: a finite double with low bits \<open>L\<close> is
  \<open>low_mag L / 2 ^ 1074\<close>.
\<close>

section \<open>Rounding a rational to a double\<close>

text \<open>Units per one, kept folded in proofs.\<close>

definition ulps :: nat where "ulps = 2 ^ 1074"
definition fives :: nat where "fives = 5 ^ 1074"

lemma ulps_pos [simp]: "0 < ulps"
  by (simp only: ulps_def zero_less_power zero_less_numeral)

lemma ulps_fives: "ulps * fives = 10 ^ 1074"
  by (simp only: ulps_def fives_def power_mult_distrib [symmetric], rule arg_cong [of _ _ "\<lambda>b. b ^ 1074"]) simp

abbreviation (input) "inf_low \<equiv> (2047 * 2 ^ 52 :: nat)"

text \<open>The pattern nearest to \<open>p / q\<close>, ties to even, overflow to infinity.\<close>

definition round_rat :: "nat \<Rightarrow> nat \<Rightarrow> nat" where
  "round_rat p q =
     (let N = p * ulps; sh = bit_len (N div q) - 53; m = q * 2 ^ sh;
          u = N div m; r = 2 * (N mod m);
          u' = (if m < r \<or> (r = m \<and> odd u) then u + 1 else u)
      in min inf_low (sh * 2 ^ 52 + u'))"

definition round_dec :: "nat \<Rightarrow> int \<Rightarrow> nat" where
  "round_dec c e = (if 0 \<le> e then round_rat (c * 10 ^ nat e) 1 else round_rat c (10 ^ nat (- e)))"

section \<open>The shortest decimal\<close>

definition pointPos :: "nat \<Rightarrow> int" where
  "pointPos L = int (length (dec (low_mag L * 10 ^ 400 div ulps))) - 400"

text \<open>
  The two decimals with last digit at \<open>10 ^ e\<close> around the value, the nearer one first (the even
  one in the middle).
\<close>

definition neighbours :: "nat \<Rightarrow> int \<Rightarrow> nat \<times> nat" where
  "neighbours L e =
     (let num = low_mag L * 10 ^ nat (- e); den = ulps * 10 ^ nat e;
          lo = num div den; r = 2 * (num mod den)
      in if den < r \<or> (r = den \<and> odd lo) then (lo + 1, lo) else (lo, lo + 1))"

text \<open>
  Try one digit, two digits, and so on; the exact expansion is the last resort (seventeen digits
  are enough, so it is not reached).
\<close>

function shortest :: "nat \<Rightarrow> nat \<Rightarrow> nat \<times> int" where
  "shortest L n =
     (if 1000 \<le> n then (low_mag L * fives, - 1074)
      else let e = pointPos L - int n; (a, b) = neighbours L e
           in if round_dec a e = L then (a, e)
              else if round_dec b e = L then (b, e)
              else shortest L (n + 1))"
  by pat_completeness auto
termination by (relation "measure (\<lambda>(L, n). 1000 - n)") auto

declare shortest.simps [simp del]

function stripZeros :: "nat \<Rightarrow> int \<Rightarrow> nat \<times> int" where
  "stripZeros c e = (if c \<noteq> 0 \<and> c mod 10 = 0 then stripZeros (c div 10) (e + 1) else (c, e))"
  by pat_completeness auto
termination by (relation "measure fst") auto

declare stripZeros.simps [simp del]

section \<open>Printing\<close>

definition fmtExp :: "int \<Rightarrow> string" where
  "fmtExp x =
     (let s = dec (nat \<bar>x\<bar>)
      in CHR ''e'' # (if x < 0 then CHR ''-'' else CHR ''+'') # (if \<bar>x\<bar> < 10 then CHR ''0'' # s else s))"

definition fmtE :: "string \<Rightarrow> int \<Rightarrow> string" where
  "fmtE ds dp = hd ds # (if length ds > 1 then CHR ''.'' # tl ds else []) @ fmtExp (dp - 1)"

definition fmtF :: "string \<Rightarrow> int \<Rightarrow> string" where
  "fmtF ds dp =
     (let frac = int (length ds) - dp
      in (if 0 < dp then take (nat dp) ds @ replicate (nat dp - length ds) CHR ''0'' else ''0'') @
         (if 0 < frac then CHR ''.'' # replicate (nat (- dp)) CHR ''0'' @ drop (nat dp) ds else []))"

definition fmtG :: "nat \<Rightarrow> int \<Rightarrow> string" where
  "fmtG c e =
     (let ds = dec c; dp = int (length ds) + e; x = dp - 1
      in if x < - 4 \<or> 6 \<le> x then fmtE ds dp else fmtF ds dp)"

definition FormatFloat :: "float64 \<Rightarrow> string" where
  "FormatFloat d =
     (if float_IsNaN d then ''NaN''
      else if float_IsInf d then (if float_sign d then ''-Inf'' else ''+Inf'')
      else (if float_sign d then ''-'' else []) @
        (if float_low d = 0 then ''0''
         else let (c, e) = shortest (float_low d) 1; (c', e') = stripZeros c e in fmtG c' e'))"

section \<open>Reading\<close>

definition toLower :: "char \<Rightarrow> char" where
  "toLower c = (let k = of_char c :: nat in if 65 \<le> k \<and> k \<le> 90 then char_of (k + 32) else c)"

definition signBit :: "bool \<Rightarrow> nat \<Rightarrow> float64" where
  "signBit neg low = word_of_nat ((if neg then 2 ^ 63 else 0) + low)"

definition parseSpecial :: "string \<Rightarrow> float64 option" where
  "parseSpecial s =
     (let l = map toLower s
      in if l = ''nan'' then Some float_NaN
         else if l \<in> {''inf'', ''+inf'', ''infinity'', ''+infinity''} then Some (signBit False inf_low)
         else if l \<in> {''-inf'', ''-infinity''} then Some (signBit True inf_low)
         else None)"

definition is_hex :: "char \<Rightarrow> bool" where
  "is_hex c \<longleftrightarrow> is_digit c \<or> (97 \<le> (of_char (toLower c) :: nat) \<and> (of_char (toLower c) :: nat) \<le> 102)"

definition hex_val :: "char \<Rightarrow> nat" where
  "hex_val c = (if is_digit c then digit_val c else of_char (toLower c) - 87)"

definition unhex :: "string \<Rightarrow> nat" where
  "unhex s = foldl (\<lambda>n c. 16 * n + hex_val c) 0 s"

text \<open>Underscores must separate digits (a base prefix counts as one).\<close>

datatype seen = SawStart | SawDigit | SawUnderscore | SawOther

fun underscoreLoop :: "bool \<Rightarrow> seen \<Rightarrow> string \<Rightarrow> bool" where
  "underscoreLoop hex sn [] \<longleftrightarrow> sn \<noteq> SawUnderscore"
| "underscoreLoop hex sn (c # s) \<longleftrightarrow>
     (if is_digit c \<or> hex \<and> is_hex c then underscoreLoop hex SawDigit s
      else if c = CHR ''_'' then sn = SawDigit \<and> underscoreLoop hex SawUnderscore s
      else sn \<noteq> SawUnderscore \<and> underscoreLoop hex SawOther s)"

definition dropSign :: "string \<Rightarrow> bool \<times> string" where
  "dropSign s =
     (case s of
        [] \<Rightarrow> (False, s)
      | c # s' \<Rightarrow> if c = CHR ''-'' then (True, s') else if c = CHR ''+'' then (False, s') else (False, s))"

definition underscoreOK :: "string \<Rightarrow> bool" where
  "underscoreOK s =
     (case snd (dropSign s) of
        a # b # s' \<Rightarrow>
          if a = CHR ''0'' \<and> toLower b \<in> {CHR ''b'', CHR ''o'', CHR ''x''}
          then underscoreLoop (toLower b = CHR ''x'') SawDigit s'
          else underscoreLoop False SawStart (snd (dropSign s))
      | s' \<Rightarrow> underscoreLoop False SawStart s')"

text \<open>Digits before and after the point, underscores removed, and the rest.\<close>

definition readMantissa :: "(char \<Rightarrow> bool) \<Rightarrow> string \<Rightarrow> string \<times> string \<times> string" where
  "readMantissa isd s =
     (let run = (\<lambda>c. isd c \<or> c = CHR ''_''); ip = filter isd (takeWhile run s); r = dropWhile run s
      in case r of
           c # r' \<Rightarrow> if c = CHR ''.'' then (ip, filter isd (takeWhile run r'), dropWhile run r') else (ip, [], r)
         | [] \<Rightarrow> (ip, [], r))"

definition expDigits :: "string \<Rightarrow> int" where
  "expDigits s = foldl (\<lambda>e c. if e < 10000 then e * 10 + int (digit_val c) else e) 0 s"

definition readExponent :: "string \<Rightarrow> int option" where
  "readExponent s =
     (let (neg, ds) = dropSign s
      in case ds of
           [] \<Rightarrow> None
         | c # _ \<Rightarrow>
             if is_digit c \<and> list_all (\<lambda>c. is_digit c \<or> c = CHR ''_'') ds
             then Some ((if neg then - 1 else 1) * expDigits (filter is_digit ds)) else None)"

definition finish :: "bool \<Rightarrow> nat \<Rightarrow> float64 option" where
  "finish neg low = (if low = inf_low then None else Some (signBit neg low))"

definition readDecimal :: "bool \<Rightarrow> string \<Rightarrow> float64 option" where
  "readDecimal neg s =
     (let (ip, fp, r) = readMantissa is_digit s; c = undec (ip @ fp)
      in if ip @ fp = [] then None
         else case r of
           [] \<Rightarrow> finish neg (round_dec c (- int (length fp)))
         | x # r' \<Rightarrow>
             if toLower x = CHR ''e''
             then map_option (\<lambda>e. round_dec c (e - int (length fp))) (readExponent r') \<bind> finish neg
             else None)"

definition readHex :: "bool \<Rightarrow> string \<Rightarrow> float64 option" where
  "readHex neg s =
     (let (ip, fp, r) = readMantissa is_hex s; c = unhex (ip @ fp)
      in if ip @ fp = [] then None
         else case r of
           [] \<Rightarrow> None
         | x # r' \<Rightarrow>
             if toLower x = CHR ''p''
             then map_option (\<lambda>p. let e = p - 4 * int (length fp)
                                 in round_rat (c * 2 ^ nat e) (2 ^ nat (- e))) (readExponent r') \<bind> finish neg
             else None)"

definition ParseFloat :: "string \<Rightarrow> float64 option" where
  "ParseFloat s =
     (case parseSpecial s of
        Some f \<Rightarrow> Some f
      | None \<Rightarrow>
          if CHR ''_'' \<in> set s \<and> \<not> underscoreOK s then None
          else let (neg, t) = dropSign s
               in case t of
                    a # b # c # t' \<Rightarrow>
                      if a = CHR ''0'' \<and> toLower b = CHR ''x'' then readHex neg (c # t') else readDecimal neg t
                  | _ \<Rightarrow> readDecimal neg t)"

section \<open>Rounding facts\<close>

lemma round_rat_scale: "0 < k \<Longrightarrow> round_rat (p * k) (q * k) = round_rat p q"
proof -
  assume k: "0 < k"
  have N: "p * k * ulps = p * ulps * k" by simp
  have q: "q * k * 2 ^ s = q * 2 ^ s * k" for s :: nat by simp
  show ?thesis
    using k unfolding round_rat_def N q Let_def by (simp add: mod_mult_mult2)
qed

lemma round_dec_common:
  assumes "0 \<le> e + int K"
  shows "round_dec c e = round_rat (c * 10 ^ nat (e + int K)) (10 ^ K)"
proof (cases "0 \<le> e")
  case True
  then have "nat (e + int K) = nat e + K" by simp
  with True round_rat_scale [of "10 ^ K" "c * 10 ^ nat e" 1] show ?thesis
    by (simp add: round_dec_def power_add mult.assoc)
next
  case False
  then have K: "K = nat (- e) + nat (e + int K)" using assms by simp
  have "round_rat (c * 10 ^ nat (e + int K)) (10 ^ nat (- e) * 10 ^ nat (e + int K)) = round_rat c (10 ^ nat (- e))"
    by (rule round_rat_scale) simp
  then show ?thesis using False by (subst (2) K) (simp add: round_dec_def power_add)
qed

lemma round_dec_shift: "round_dec (c * 10 ^ j) e = round_dec c (e + int j)"
proof -
  define K where "K = nat (- e)"
  have "nat (e + int j + int K) = j + nat (e + int K)" by (auto simp: K_def nat_add_distrib)
  then show ?thesis
    using round_dec_common [of e K "c * 10 ^ j"] round_dec_common [of "e + int j" K c]
    by (simp add: K_def power_add mult.assoc)
qed

lemma bit_len_eq: "2 ^ k \<le> n \<Longrightarrow> n < 2 ^ Suc k \<Longrightarrow> bit_len n = Suc k"
proof -
  assume b: "2 ^ k \<le> n" "n < 2 ^ Suc k"
  have "0 < n" using b(1) by (cases n) simp_all
  with bit_len_bounds [of n] have "2 ^ (bit_len n - 1) \<le> n" "n < 2 ^ bit_len n" by auto
  with b have "2 ^ (bit_len n - 1) < (2 :: nat) ^ Suc k" "2 ^ k < (2 :: nat) ^ bit_len n" by linarith+
  then have "bit_len n - 1 < Suc k" "k < bit_len n"
    by (auto intro: power_less_imp_less_exp [of "2 :: nat", rotated])
  then show ?thesis by linarith
qed

lemma round_rat_dvd:
  assumes "sh = bit_len (p * ulps div q) - 53" "p * ulps = u * (q * 2 ^ sh)" "0 < q"
  shows "round_rat p q = min inf_low (sh * 2 ^ 52 + u)"
proof -
  have "p * ulps mod (q * 2 ^ sh) = 0" "p * ulps div (q * 2 ^ sh) = u"
    unfolding assms(2) using assms(3) by simp_all
  then show ?thesis
    using assms(3) unfolding round_rat_def Let_def assms(1) [symmetric] by simp
qed

lemma round_rat_exact:
  assumes "p * ulps = low_mag L * q" "0 < q" "L < inf_low"
  shows "round_rat p q = L"
proof -
  define x f where "x = L div 2 ^ 52" and "f = L mod 2 ^ 52"
  have L: "L = x * 2 ^ 52 + f" "f < 2 ^ 52" by (simp_all add: x_def f_def)
  have N: "p * ulps div q = low_mag L" using assms(1,2) by simp
  define sh where "sh = bit_len (low_mag L) - 53"
  have sh: "low_mag L = (if x = 0 then f else 2 ^ 52 + f) * 2 ^ sh \<and> sh = x - 1"
  proof (cases "x = 0")
    case True
    then have "low_mag L = f" by (simp add: low_mag_def x_def f_def Let_def)
    with True L(2) bit_len_le [of f 52] show ?thesis by (simp add: sh_def)
  next
    case False
    then have l: "low_mag L = (2 ^ 52 + f) * 2 ^ (x - 1)" by (simp add: low_mag_def x_def f_def Let_def)
    have "bit_len (low_mag L) = Suc (52 + (x - 1))"
      by (rule bit_len_eq) (use L(2) in \<open>simp_all add: l power_add\<close>)
    with False l show ?thesis by (simp add: sh_def)
  qed
  let ?u = "if x = 0 then f else 2 ^ 52 + f"
  have "round_rat p q = min inf_low (sh * 2 ^ 52 + ?u)"
  proof (rule round_rat_dvd)
    show "sh = bit_len (p * ulps div q) - 53" using N by (simp only: sh_def)
    have "low_mag L = ?u * 2 ^ sh" using sh by simp
    then show "p * ulps = ?u * (q * 2 ^ sh)" unfolding assms(1) by (simp only: ac_simps)
  qed (fact assms(2))
  moreover have "sh * 2 ^ 52 + ?u = L"
    using L sh by (cases x) simp_all
  ultimately show ?thesis using assms(3) by simp
qed

lemma round_dec_neg: "0 < k \<Longrightarrow> round_dec c (- int k) = round_rat c (10 ^ k)"
  by (simp add: round_dec_def)

lemma exact_decimal:
  assumes "L < inf_low"
  shows "round_dec (low_mag L * fives) (- 1074) = L"
proof -
  have "round_dec (low_mag L * fives) (- 1074) = round_rat (low_mag L * fives) (ulps * fives)"
    using round_dec_neg [of 1074 "low_mag L * fives"] by (simp only: of_nat_numeral ulps_fives zero_less_numeral)
  also have "\<dots> = L"
  proof (rule round_rat_exact)
    show "low_mag L * fives * ulps = low_mag L * (ulps * fives)" by (simp only: ac_simps)
    show "0 < ulps * fives" by (simp only: ulps_fives zero_less_power zero_less_numeral)
  qed (fact assms)
  finally show ?thesis .
qed

lemma shortest_round_trip: "L < inf_low \<Longrightarrow> round_dec (fst (shortest L n)) (snd (shortest L n)) = L"
proof (induction L n rule: shortest.induct)
  case (1 L n)
  show ?case
    by (subst (1 2) shortest.simps) (use 1 exact_decimal [of L] in \<open>auto simp: Let_def split: prod.split\<close>)
qed

lemma stripZeros_round: "round_dec (fst (stripZeros c e)) (snd (stripZeros c e)) = round_dec c e"
proof (induction c e rule: stripZeros.induct)
  case (1 c e)
  show ?case
  proof (cases "c \<noteq> 0 \<and> c mod 10 = 0")
    case True
    then have "c = c div 10 * 10 ^ 1" by auto
    then have "round_dec c e = round_dec (c div 10) (e + 1)" using round_dec_shift [of "c div 10" 1 e] by simp
    with 1 True show ?thesis by (subst (1 2) stripZeros.simps) simp
  next
    case False
    then show ?thesis by (subst (1 2) stripZeros.simps) auto
  qed
qed

section \<open>Magnitude of a decimal that reads back\<close>

lemma round_rat_small:
  assumes "2 * (p * ulps) < q"
  shows "round_rat p q = 0"
proof -
  have "p * ulps div q = 0" "p * ulps mod q = p * ulps" using assms by simp_all
  then show ?thesis using assms unfolding round_rat_def Let_def by simp
qed

lemma bit_len_ge: "2 ^ k \<le> n \<Longrightarrow> k < bit_len n"
proof -
  assume b: "2 ^ k \<le> n"
  have "0 < n" using b by (cases n) simp_all
  with bit_len_bounds [of n] b have "2 ^ k < (2 :: nat) ^ bit_len n" by linarith
  then show ?thesis by (auto intro: power_less_imp_less_exp [of "2 :: nat", rotated])
qed

lemma round_rat_above:
  assumes "2 ^ (k + 52) \<le> p * ulps div q"
  shows "round_rat p q \<ge> min inf_low ((k + 1) * 2 ^ 52)"
proof -
  define i where "i = p * ulps div q"
  define sh where "sh = bit_len i - 53"
  have "k + 52 < bit_len i" using assms by (simp only: i_def [symmetric] bit_len_ge)
  then have sh: "k \<le> sh" "bit_len i = Suc (sh + 52)" by (simp_all add: sh_def)
  then have "0 < i" by (cases i) simp_all
  then have "2 ^ (sh + 52) \<le> i" using bit_len_bounds [of i] sh(2) by (simp add: add.commute)
  then have "2 ^ 52 \<le> i div 2 ^ sh"
    by (simp add: less_eq_div_iff_mult_less_eq power_add mult.commute)
  moreover have "p * ulps div (q * 2 ^ sh) = i div 2 ^ sh" by (simp add: i_def div_mult2_eq)
  ultimately have u: "2 ^ 52 \<le> p * ulps div (q * 2 ^ sh)" by simp
  have "k * 2 ^ 52 \<le> sh * 2 ^ 52" using sh(1) by simp
  with u show ?thesis
    unfolding round_rat_def Let_def i_def [symmetric] sh_def [symmetric] by (simp add: min_def)
qed

lemma dec_length: "0 < c \<Longrightarrow> 10 ^ (length (dec c) - 1) \<le> c \<and> c < 10 ^ length (dec c)"
proof (induction c rule: dec.induct)
  case (1 c)
  show ?case
  proof (cases "c < 10")
    case True
    with 1 show ?thesis by (subst (1 2) dec.simps) simp
  next
    case False
    then have "0 < c div 10" by simp
    from "1.IH" [OF False this] have ih: "10 ^ (length (dec (c div 10)) - 1) \<le> c div 10"
      "c div 10 < 10 ^ length (dec (c div 10))" by auto
    obtain l where l: "length (dec (c div 10)) = Suc l" by (cases "dec (c div 10)") simp_all
    have "10 ^ Suc l \<le> c" "c < 10 ^ Suc (Suc l)" using ih l by simp_all
    then show ?thesis using False l by (subst (1 2) dec.simps) simp
  qed
qed

lemma pow2_pow10: "j \<le> 3 * k \<Longrightarrow> (2 :: nat) ^ j \<le> 10 ^ k"
proof -
  assume "j \<le> 3 * k"
  then have "(2 :: nat) ^ j \<le> 2 ^ (3 * k)" by (rule power_increasing) simp
  also have "\<dots> = 8 ^ k" by (simp add: power_mult)
  also have "\<dots> \<le> 10 ^ k" by (rule power_mono) simp_all
  finally show ?thesis .
qed

lemma dec_size:
  assumes "round_dec c e = L" "0 < L" "L < inf_low"
  shows "0 < c \<and> \<bar>int (length (dec c)) + e - 1\<bar> \<le> 400"
proof -
  define n where "n = length (dec c)"
  define K where "K = nat (- e) + 401"
  define p where "p = c * 10 ^ nat (e + int K)"
  have K: "0 \<le> e + int K" by (simp add: K_def)
  have r: "round_rat p (10 ^ K) = L" using round_dec_common [OF K, of c] assms(1) by (simp add: p_def)
  have c: "0 < c"
  proof (rule ccontr)
    assume "\<not> 0 < c"
    then have "2 * (p * ulps) < 10 ^ K" by (simp add: p_def)
    with round_rat_small r assms(2) show False by simp
  qed
  obtain n' where n: "n = Suc n'" unfolding n_def by (cases "dec c") simp_all
  have b: "10 ^ n' \<le> c" "c < 10 ^ n" using dec_length [OF c] n by (simp_all add: n_def [symmetric])
  have up: "int n + e - 1 \<le> 400"
  proof (rule ccontr)
    assume "\<not> ?thesis"
    then have k: "K + 400 \<le> n' + nat (e + int K)" using K n by linarith
    have "2 ^ (2046 + 52) \<le> 10 ^ 400 * ulps"
    proof -
      have "(2 :: nat) ^ (1024 + 1074) = 2 ^ 1024 * ulps" unfolding ulps_def by (rule power_add)
      moreover have "(2 :: nat) ^ 1024 * ulps \<le> 10 ^ 400 * ulps" by (intro mult_right_mono pow2_pow10) simp_all
      ultimately show ?thesis by (simp only: numeral_plus_numeral semiring_norm)
    qed
    also have "10 ^ 400 * ulps \<le> p * ulps div 10 ^ K"
    proof -
      have "(10 :: nat) ^ (K + 400) \<le> 10 ^ (n' + nat (e + int K))" by (rule power_increasing [OF k]) simp
      also have "\<dots> \<le> p" unfolding p_def power_add by (intro mult_right_mono b(1)) simp
      finally have "10 ^ 400 * ulps * 10 ^ K \<le> p * ulps"
        unfolding power_add by (metis mult.assoc mult.commute mult_le_mono1)
      then show ?thesis by (simp only: less_eq_div_iff_mult_less_eq zero_less_power zero_less_numeral)
    qed
    finally have "inf_low \<le> round_rat p (10 ^ K)" using round_rat_above [of 2046 p "10 ^ K"] by simp
    with r assms(3) show False by simp
  qed
  have low: "- 400 \<le> int n + e - 1"
  proof (rule ccontr)
    assume "\<not> ?thesis"
    then have k: "n + nat (e + int K) + 360 \<le> K" using K by linarith
    have "2 * ulps \<le> 10 ^ 360"
    proof -
      have "2 * ulps = 2 ^ Suc 1074" by (simp only: ulps_def power_Suc)
      also have "\<dots> \<le> 10 ^ 360" by (rule pow2_pow10) simp
      finally show ?thesis .
    qed
    moreover have "p < 10 ^ (n + nat (e + int K))"
      unfolding p_def power_add using b(2) by (rule mult_strict_right_mono) simp
    ultimately have "p * (2 * ulps) < 10 ^ (n + nat (e + int K)) * 10 ^ 360"
      by (intro mult_less_le_imp_less) (simp_all only: le0 mult_pos_pos zero_less_numeral ulps_pos)
    also have "\<dots> = (10 :: nat) ^ (n + nat (e + int K) + 360)" by (simp only: power_add)
    also have "\<dots> \<le> 10 ^ K" by (rule power_increasing [OF k]) simp
    finally have "2 * (p * ulps) < 10 ^ K" by (simp only: ac_simps)
    with round_rat_small r assms(2) show False by simp
  qed
  show ?thesis using c up low by (simp add: n_def)
qed

section \<open>Reading what was printed\<close>

abbreviation (input) stops :: "string \<Rightarrow> bool" where
  "stops r \<equiv> (case r of [] \<Rightarrow> True | c # _ \<Rightarrow> \<not> is_digit c \<and> c \<noteq> CHR ''_'')"

lemma run_digits:
  assumes "list_all is_digit ds" "stops r"
  shows "filter is_digit (takeWhile (\<lambda>c. is_digit c \<or> c = CHR ''_'') (ds @ r)) = ds"
    "dropWhile (\<lambda>c. is_digit c \<or> c = CHR ''_'') (ds @ r) = r"
  using assms by (induction ds) (auto split: list.splits)

lemma readMantissa_point:
  "list_all is_digit ip \<Longrightarrow> list_all is_digit fp \<Longrightarrow> stops r \<Longrightarrow>
   readMantissa is_digit (ip @ CHR ''.'' # fp @ r) = (ip, fp, r)"
  using run_digits [of ip "CHR ''.'' # fp @ r"] run_digits [of fp r] by (simp add: readMantissa_def)

lemma readMantissa_whole:
  "list_all is_digit ip \<Longrightarrow> stops r \<Longrightarrow> (\<forall>r'. r \<noteq> CHR ''.'' # r') \<Longrightarrow> readMantissa is_digit (ip @ r) = (ip, [], r)"
  unfolding readMantissa_def Let_def run_digits by (cases r) auto

lemma expDigits_undec: "undec s < 10000 \<Longrightarrow> expDigits s = int (undec s)"
proof (induction s rule: rev_induct)
  case (snoc c s)
  then have "undec s < 10000" by simp
  with snoc.IH have "expDigits s = int (undec s)" "undec s < 10000" by simp_all
  then show ?case by (simp add: expDigits_def undec_def)
qed (simp add: expDigits_def)

lemma expDigits_dec: "\<bar>x\<bar> \<le> 400 \<Longrightarrow> expDigits (dec (nat \<bar>x\<bar>)) = \<bar>x\<bar>" "\<bar>x\<bar> \<le> 400 \<Longrightarrow> expDigits (CHR ''0'' # dec (nat \<bar>x\<bar>)) = \<bar>x\<bar>"
proof -
  have "undec (CHR ''0'' # s) = undec s" for s by (simp add: undec_def digit_val_def)
  then show "\<bar>x\<bar> \<le> 400 \<Longrightarrow> expDigits (dec (nat \<bar>x\<bar>)) = \<bar>x\<bar>" "\<bar>x\<bar> \<le> 400 \<Longrightarrow> expDigits (CHR ''0'' # dec (nat \<bar>x\<bar>)) = \<bar>x\<bar>"
    by (simp_all add: expDigits_undec)
qed

lemma digit_0 [simp]: "is_digit CHR ''0''" "digit_val CHR ''0'' = 0"
  by (simp_all add: is_digit_def digit_val_def)

lemma filter_dec [simp]: "filter is_digit (dec n) = dec n"
  using dec_digits [of _ n] by (simp add: filter_id_conv)

lemma list_all_or: "list_all is_digit s \<Longrightarrow> list_all (\<lambda>c. is_digit c \<or> c = CHR ''_'') s"
  by (auto simp: list_all_iff)

lemma dec_Cons: "\<exists>a s. dec n = a # s \<and> is_digit a"
  using dec_digits [of _ n] by (cases "dec n") auto

lemma readExponent_fmtExp:
  assumes "\<bar>x\<bar> \<le> 400"
  shows "readExponent (tl (fmtExp x)) = Some x"
proof -
  obtain a s where a: "dec (nat \<bar>x\<bar>) = a # s" "is_digit a" using dec_Cons by blast
  have d: "list_all (\<lambda>c. is_digit c \<or> c = CHR ''_'') (dec (nat \<bar>x\<bar>))" by (rule list_all_or) simp
  show ?thesis
    using a d expDigits_dec [OF assms] filter_dec [of "nat \<bar>x\<bar>"]
    by (cases "x < 0"; cases "\<bar>x\<bar> < 10") (simp_all add: fmtExp_def readExponent_def dropSign_def Let_def)
qed

lemma fmtExp_head: "fmtExp x = CHR ''e'' # tl (fmtExp x)"
  by (simp add: fmtExp_def Let_def)

lemma toLower_e [simp]: "toLower CHR ''e'' = CHR ''e''"
  by (simp add: toLower_def)

lemma readDecimal_fmtE:
  assumes "0 < c" "\<bar>int (length (dec c)) + e - 1\<bar> \<le> 400"
  shows "readDecimal neg (fmtE (dec c) (int (length (dec c)) + e)) = finish neg (round_dec c e)"
proof -
  let ?x = "int (length (dec c)) + e - 1"
  obtain a s where a: "dec c = a # s" "is_digit a" using dec_Cons by blast
  have s: "list_all is_digit s" "undec (a # s) = c" using list_all_dec [of c] undec_dec [of c] a by simp_all
  have r: "stops (fmtExp ?x)" "\<forall>r'. fmtExp ?x \<noteq> CHR ''.'' # r'" by (simp_all add: fmtExp_def Let_def)
  have "readMantissa is_digit (fmtE (dec c) (int (length (dec c)) + e)) = ([a], s, fmtExp ?x)"
  proof (cases "s = []")
    case True
    then show ?thesis using readMantissa_whole [of "[a]" "fmtExp ?x"] a r by (simp add: fmtE_def)
  next
    case False
    then show ?thesis using readMantissa_point [of "[a]" s "fmtExp ?x"] a s r by (simp add: fmtE_def)
  qed
  moreover have "?x - int (length s) = e" using a by simp
  moreover obtain r' where "fmtExp ?x = CHR ''e'' # r'" "readExponent r' = Some ?x"
    using readExponent_fmtExp [OF assms(2)] fmtExp_head [of ?x] by metis
  ultimately show ?thesis
    using s(2) a(1) by (simp add: readDecimal_def)
qed

lemma undec_zeros [simp]: "undec (replicate k CHR ''0'' @ s) = undec s" "undec (replicate k CHR ''0'') = 0"
proof -
  show *: "undec (replicate k CHR ''0'' @ s) = undec s" for s
    by (induction k) (simp_all add: undec_def)
  from * [of "[]"] show "undec (replicate k CHR ''0'') = 0" by simp
qed

lemma readDecimal_fmtF:
  assumes "0 < c"
  shows "readDecimal neg (fmtF (dec c) (int (length (dec c)) + e)) = finish neg (round_dec c e)"
proof -
  define n where "n = length (dec c)"
  have n: "0 < n" by (simp add: n_def)
  have dd: "list_all is_digit (take k (dec c))" "list_all is_digit (drop k (dec c))" for k
    using list_all_dec [of c] by (auto simp: list_all_iff dest: in_set_takeD in_set_dropD)
  consider "0 \<le> e" | "e < 0" "0 < int n + e" | "int n + e \<le> 0" using n by linarith
  then show ?thesis
  proof cases
    case 1
    then have "fmtF (dec c) (int n + e) = (dec c @ replicate (nat e) CHR ''0'') @ []"
      using n unfolding n_def by (simp add: fmtF_def nat_add_distrib add_pos_nonneg)
    moreover have "readMantissa is_digit ((dec c @ replicate (nat e) CHR ''0'') @ []) = (dec c @ replicate (nat e) CHR ''0'', [], [])"
      by (rule readMantissa_whole) (auto simp: list_all_iff dest: dec_digits)
    moreover have "round_dec (c * 10 ^ nat e) 0 = round_dec c e" using 1 round_dec_shift [of c "nat e" 0] by simp
    ultimately show ?thesis
      by (simp add: readDecimal_def n_def undec_append_general)
  next
    case 2
    then have "nat (int n + e) < n" by simp
    with 2 have "fmtF (dec c) (int n + e) = take (nat (int n + e)) (dec c) @ CHR ''.'' # drop (nat (int n + e)) (dec c) @ []"
      by (simp add: fmtF_def n_def)
    moreover have "int (n - nat (int n + e)) = - e" using 2 by simp
    ultimately show ?thesis
      using readMantissa_point [of "take (nat (int n + e)) (dec c)" "drop (nat (int n + e)) (dec c)" "[]"] dd 2(2)
      by (simp add: readDecimal_def n_def)
  next
    case 3
    then have "e < 0" using n by linarith
    with 3 have "fmtF (dec c) (int n + e) = ''0'' @ CHR ''.'' # (replicate (nat (- (int n + e))) CHR ''0'' @ dec c) @ []"
      using n by (simp add: fmtF_def n_def)
    moreover have "readMantissa is_digit \<dots> = (''0'', replicate (nat (- (int n + e))) CHR ''0'' @ dec c, [])"
      by (rule readMantissa_point) (auto simp: list_all_iff dest: dec_digits)
    moreover have "int (nat (- (int n + e)) + n) = - e" using 3 by simp
    moreover have "undec (CHR ''0'' # s) = undec s" for s by (simp add: undec_def)
    ultimately show ?thesis
      by (simp add: readDecimal_def n_def)
  qed
qed

definition number_char :: "char \<Rightarrow> bool" where
  "number_char x \<longleftrightarrow> is_digit x \<or> x \<in> {CHR ''.'', CHR ''e'', CHR ''+'', CHR ''-''}"

lemma number_char_simps [simp]: "is_digit x \<Longrightarrow> number_char x"
  "number_char CHR ''.''" "number_char CHR ''e''" "number_char CHR ''+''" "number_char CHR ''-''"
  by (simp_all add: number_char_def)

lemma number_chars_dec [simp]: "list_all number_char (dec n)" "list_all number_char (take k (dec n))"
  "list_all number_char (drop k (dec n))" "list_all number_char (tl (dec n))" "number_char (hd (dec n))"
proof -
  have "\<forall>x \<in> set (dec n). number_char x" using dec_digits by simp
  then show "list_all number_char (dec n)" "list_all number_char (take k (dec n))"
    "list_all number_char (drop k (dec n))" "list_all number_char (tl (dec n))" "number_char (hd (dec n))"
    by (auto simp: list_all_iff dest: in_set_takeD in_set_dropD list.set_sel(2) [OF dec_not_Nil])
qed

lemma number_chars_replicate [simp]: "list_all number_char (replicate k CHR ''0'')"
  by (simp add: list_all_iff)

lemma fmtG_chars: "list_all number_char (fmtG c e)"
  by (simp add: fmtG_def fmtE_def fmtF_def fmtExp_def Let_def)

lemma fmtG_head: "\<exists>a s. fmtG c e = a # s \<and> is_digit a"
proof -
  obtain a s where "dec c = a # s" "is_digit a" using dec_Cons by blast
  then show ?thesis
    by (cases "nat (int (length (dec c)) + e)") (auto simp: fmtG_def fmtE_def fmtF_def Let_def)
qed

lemma toLower_digit: "is_digit c \<Longrightarrow> toLower c = c"
  by (simp add: is_digit_def toLower_def Let_def)

lemma ParseFloat_readDecimal:
  assumes nc: "list_all number_char s"
    and s: "s = a # s'" "is_digit a"
  shows "ParseFloat ((if neg then ''-'' else []) @ s) = readDecimal neg s"
proof -
  have u: "CHR ''_'' \<notin> set s" using nc by (auto simp: list_all_iff number_char_def)
  have x: "toLower b \<noteq> CHR ''x''" if "b \<in> set s" for b
    using nc that by (auto simp: list_all_iff number_char_def toLower_def is_digit_def Let_def)
  have "a \<noteq> CHR ''-''" "a \<noteq> CHR ''+''" using s(2) by auto
  then have sg: "dropSign ((if neg then ''-'' else []) @ s) = (neg, s)" by (simp add: dropSign_def s(1))
  have sp: "parseSpecial ((if neg then ''-'' else []) @ s) = None"
  proof -
    have "toLower a = a" "a \<noteq> CHR ''n''" "a \<noteq> CHR ''i''" using toLower_digit [OF s(2)] s(2) by (auto simp: is_digit_def)
    moreover have "toLower CHR ''-'' = CHR ''-''" by (simp add: toLower_def)
    ultimately show ?thesis
      using \<open>a \<noteq> CHR ''+''\<close> \<open>a \<noteq> CHR ''-''\<close> by (simp add: parseSpecial_def s(1) Let_def)
  qed
  show ?thesis
  proof (cases s')
    case Nil
    with sg sp u s show ?thesis by (simp add: ParseFloat_def)
  next
    case (Cons b t)
    with x [of b] s have "toLower b \<noteq> CHR ''x''" by simp
    with Cons sg sp u s show ?thesis by (cases t) (auto simp: ParseFloat_def)
  qed
qed

definition canonNaN :: "float64 \<Rightarrow> float64" where
  "canonNaN d = (if float_IsNaN d then float_NaN else d)"

lemma signBit_low: "signBit (float_sign d) (float_low d) = d"
proof -
  have "signBit (float_sign d) (float_low d) = word_of_nat (unat d)" by (simp only: signBit_def unat_float [of d])
  then show ?thesis by simp
qed

lemma finite_low:
  assumes "\<not> float_IsNaN d" "\<not> float_IsInf d"
  shows "float_low d < inf_low"
proof -
  have "float_exp d \<noteq> 2047" using assms by (auto simp: float_IsNaN_def float_IsInf_def)
  then have "float_low d div 2 ^ 52 < 2047" using float_exp_le [of d] by (simp add: float_exp_def)
  then show ?thesis by (simp add: div_less_iff_less_mult)
qed

lemma ParseFloat_FormatFloat: "ParseFloat (FormatFloat d) = Some (canonNaN d)"
proof (cases "float_IsNaN d \<or> float_IsInf d")
  case True
  have inf: "float_low d = inf_low" if "float_IsInf d"
    using that div_mult_mod_eq [of "float_low d" "2 ^ 52"] by (simp add: float_IsInf_def float_exp_def float_frac_def)
  have "parseSpecial ''NaN'' = Some float_NaN" "parseSpecial ''+Inf'' = Some (signBit False inf_low)"
    "parseSpecial ''-Inf'' = Some (signBit True inf_low)"
    by (simp_all add: parseSpecial_def toLower_def Let_def char_of_eq_iff)
  then show ?thesis
    using True inf signBit_low [of d] by (auto simp: ParseFloat_def FormatFloat_def canonNaN_def)
next
  case False
  define L where "L = float_low d"
  have L: "L < inf_low" using finite_low False by (simp add: L_def)
  have fin: "finish (float_sign d) L = Some (canonNaN d)"
    using L False signBit_low [of d] by (simp add: finish_def canonNaN_def L_def)
  show ?thesis
  proof (cases "L = 0")
    case True
    have "readDecimal (float_sign d) ''0'' = finish (float_sign d) (round_dec 0 0)"
      by (simp add: readDecimal_def readMantissa_def undec_def)
    moreover have "round_dec 0 0 = 0" by (simp add: round_dec_def round_rat_small)
    ultimately show ?thesis
      using ParseFloat_readDecimal [of "''0''" "CHR ''0''" "[]" "float_sign d"] True False fin
      by (simp add: FormatFloat_def L_def)
  next
    case nz: False
    obtain c0 e0 where s: "shortest L 1 = (c0, e0)" by force
    obtain c e where z: "stripZeros c0 e0 = (c, e)" by force
    have r: "round_dec c e = L"
      using shortest_round_trip [OF L, of 1] stripZeros_round [of c0 e0] s z by simp
    have size: "0 < c" "\<bar>int (length (dec c)) + e - 1\<bar> \<le> 400" using dec_size [OF r _ L] nz by auto
    have "readDecimal (float_sign d) (fmtG c e) = finish (float_sign d) L"
      using readDecimal_fmtE [OF size] readDecimal_fmtF [OF size(1)] r by (simp add: fmtG_def Let_def)
    moreover obtain a t where "fmtG c e = a # t" "is_digit a" using fmtG_head by blast
    ultimately show ?thesis
      using ParseFloat_readDecimal [of "fmtG c e" a t "float_sign d"] fmtG_chars [of c e] False nz s z fin
      by (simp add: FormatFloat_def L_def)
  qed
qed

end
