(* ===== verification/TaggedJSON.thy ===== *)
theory TaggedJSON
  imports Decimal64 FieldPath
begin

text \<open>
  Package \<^verbatim>\<open>value\<close>, files \<^verbatim>\<open>value.go\<close> and \<^verbatim>\<open>containment.go\<close>: the tagged JSON encoding of
  values in the data column, its decoder, and the probes for jsonb containment. JSON is a tree;
  the text of \<^verbatim>\<open>encoding/json\<close> and Postgres' jsonb carry trees whose strings are valid UTF-8
  without NUL, which is what the encoder produces from protobuf strings.
\<close>

section \<open>JSON trees\<close>

datatype JSON =
    JNull
  | JBool bool
  | JNum string
  | JStr string
  | JArr "JSON list"
  | JObj "(string \<times> JSON) list"

datatype codec_error =
    TimestampRange | NULInReference | NULInFieldName | UnsupportedType
  | BadTagged | BadPayload | UnknownTag

text \<open>
  \<^verbatim>\<open>json.Unmarshal\<close> into a string, bool, slice or map: null leaves the zero value; of a key
  given twice the later value stays.
\<close>

fun asString :: "JSON \<Rightarrow> string option" where
  "asString JNull = Some []" | "asString (JStr s) = Some s" | "asString _ = None"

fun asBool :: "JSON \<Rightarrow> bool option" where
  "asBool JNull = Some False" | "asBool (JBool b) = Some b" | "asBool _ = None"

fun asArr :: "JSON \<Rightarrow> JSON list option" where
  "asArr JNull = Some []" | "asArr (JArr js) = Some js" | "asArr _ = None"

fun mergeKeys :: "(string \<times> JSON) list \<Rightarrow> (string \<times> JSON) list \<Rightarrow> (string \<times> JSON) list" where
  "mergeKeys m [] = m"
| "mergeKeys m ((k, j) # kvs) = mergeKeys (AList.update k j m) kvs"

fun asObj :: "JSON \<Rightarrow> (string \<times> JSON) list option" where
  "asObj JNull = Some []" | "asObj (JObj kvs) = Some (mergeKeys [] kvs)" | "asObj _ = None"

section \<open>Encoding\<close>

fun mapResult :: "('a \<Rightarrow> 'e + 'b) \<Rightarrow> 'a list \<Rightarrow> 'e + 'b list" where
  "mapResult f [] = Inr []"
| "mapResult f (x # xs) = bind_result (f x) (\<lambda>y. bind_result (mapResult f xs) (\<lambda>ys. Inr (y # ys)))"

lemma mapResult_cong [fundef_cong]:
  "xs = ys \<Longrightarrow> (\<And>x. x \<in> set ys \<Longrightarrow> f x = g x) \<Longrightarrow> mapResult f xs = mapResult g ys"
  by (induction ys arbitrary: xs) auto

definition hasNUL :: "string \<Rightarrow> bool" where
  "hasNUL s \<longleftrightarrow> CHR 0x00 \<in> set s"

definition formatDouble :: "float64 \<Rightarrow> string" where
  "formatDouble f = FormatFloat f"

definition parseDouble :: "string \<Rightarrow> codec_error + float64" where
  "parseDouble s = (case ParseFloat s of None \<Rightarrow> Inl BadPayload | Some f \<Rightarrow> Inr f)"

definition formatTimestamp :: "int64 \<Rightarrow> int32 \<Rightarrow> codec_error + string" where
  "formatTimestamp s n =
     (let t = AsTime s n
      in if t < zeroTime \<or> t > maxTimestamp then Inl TimestampRange
         else Inr (formatTime (Truncate_us t)))"

definition b64String :: "string \<Rightarrow> string" where
  "b64String s = b64_encode (map of_char s)"

definition b64Bytes :: "bytes \<Rightarrow> string" where
  "b64Bytes b = b64_encode (map unat b)"

lemma size_list_elem: "x \<in> set xs \<Longrightarrow> f x < size_list f xs"
  by (induction xs) auto

function (sequential) encode :: "Value \<Rightarrow> codec_error + JSON"
  and encodeMapPayload :: "Fields \<Rightarrow> codec_error + (string \<times> JSON) list" where
  "encode NullValue = Inr (JObj [(''z'', JNull)])"
| "encode (BooleanValue b) = Inr (JObj [(''b'', JBool b)])"
| "encode (IntegerValue i) = Inr (JObj [(''i'', JStr (FormatInt i))])"
| "encode (DoubleValue d) = Inr (JObj [(''d'', JStr (formatDouble d))])"
| "encode (TimestampValue s n) =
     bind_result (formatTimestamp s n) (\<lambda>t. Inr (JObj [(''t'', JStr t)]))"
| "encode (StringValue s) =
     (if hasNUL s then Inr (JObj [(''s0'', JStr (b64String s))]) else Inr (JObj [(''s'', JStr s)]))"
| "encode (BytesValue b) = Inr (JObj [(''y'', JStr (b64Bytes b))])"
| "encode (ReferenceValue r) = (if hasNUL r then Inl NULInReference else Inr (JObj [(''r'', JStr r)]))"
| "encode (GeoPointValue lat lng) =
     Inr (JObj [(''g'', JArr [JStr (formatDouble lat), JStr (formatDouble lng)])])"
| "encode (ArrayValue vs) = bind_result (mapResult encode vs) (\<lambda>arr. Inr (JObj [(''a'', JArr arr)]))"
| "encode (MapValue m) = bind_result (encodeMapPayload m) (\<lambda>obj. Inr (JObj [(''m'', JObj obj)]))"
| "encode UnknownValue = Inl UnsupportedType"
| "encodeMapPayload m =
     mapResult (\<lambda>kv. if hasNUL (fst kv) then Inl NULInFieldName
                      else bind_result (encode (snd kv)) (\<lambda>enc. Inr (fst kv, enc))) m"
  by pat_completeness auto

termination
  by (relation "measure (case_sum size (\<lambda>m. size_list (size_prod (\<lambda>_. 0) size) m))")
     (auto dest: size_list_elem [of _ _ size] size_list_elem [of _ _ "size_prod (\<lambda>_. 0) size"])

definition MarshalFields :: "Fields \<Rightarrow> codec_error + JSON" where
  "MarshalFields f = bind_result (encodeMapPayload f) (\<lambda>obj. Inr (JObj obj))"

definition Marshal :: "Value \<Rightarrow> codec_error + JSON" where
  "Marshal v = encode v"

section \<open>Decoding\<close>

definition withString :: "JSON \<Rightarrow> (string \<Rightarrow> codec_error + Value) \<Rightarrow> codec_error + Value" where
  "withString payload f = (case asString payload of None \<Rightarrow> Inl BadPayload | Some s \<Rightarrow> f s)"

definition decodeGeo :: "JSON \<Rightarrow> codec_error + Value" where
  "decodeGeo payload =
     (case asArr payload of
        None \<Rightarrow> Inl BadPayload
      | Some js \<Rightarrow>
          bind_result (mapResult (\<lambda>j. case asString j of None \<Rightarrow> Inl BadPayload | Some s \<Rightarrow> Inr s) js) (\<lambda>pair.
            case pair of
              [a, b] \<Rightarrow> bind_result (parseDouble a) (\<lambda>lat. bind_result (parseDouble b) (\<lambda>lng. Inr (GeoPointValue lat lng)))
            | _ \<Rightarrow> Inl BadPayload))"

text \<open>The cases of the switch whose payload holds no values.\<close>

definition decodeScalar :: "string \<Rightarrow> JSON \<Rightarrow> codec_error + Value" where
  "decodeScalar tag payload =
     (if tag = ''z'' then Inr NullValue
      else if tag = ''b'' then (case asBool payload of None \<Rightarrow> Inl BadPayload | Some b \<Rightarrow> Inr (BooleanValue b))
      else if tag = ''i'' then withString payload (\<lambda>s.
        case ParseInt s of None \<Rightarrow> Inl BadPayload | Some n \<Rightarrow> Inr (IntegerValue n))
      else if tag = ''d'' then withString payload (\<lambda>s. bind_result (parseDouble s) (\<lambda>f. Inr (DoubleValue f)))
      else if tag = ''t'' then withString payload (\<lambda>s.
        case parseTime s of None \<Rightarrow> Inl BadPayload | Some ts \<Rightarrow> Inr (tsOf ts))
      else if tag = ''s'' then withString payload (\<lambda>s. Inr (StringValue s))
      else if tag = ''s0'' then withString payload (\<lambda>s.
        case b64_decode s of None \<Rightarrow> Inl BadPayload | Some b \<Rightarrow> Inr (StringValue (map char_of b)))
      else if tag = ''y'' then withString payload (\<lambda>s.
        case b64_decode s of None \<Rightarrow> Inl BadPayload | Some b \<Rightarrow> Inr (BytesValue (map word_of_nat b)))
      else if tag = ''r'' then withString payload (\<lambda>s. Inr (ReferenceValue s))
      else if tag = ''g'' then decodeGeo payload
      else Inl UnknownTag)"

lemma size_list_update: "size_list f (AList.update k j m) \<le> size_list f m + f (k, j) + 1"
  by (induction m) auto

lemma size_mergeKeys: "size_list f (mergeKeys m kvs) \<le> size_list f m + size_list f kvs"
proof (induction m kvs rule: mergeKeys.induct)
  case (2 m k j kvs)
  then show ?case using size_list_update [of f k j m] by simp
qed simp

lemma size_asObj: "asObj raw = Some kvs \<Longrightarrow> size_list (size_prod (\<lambda>_. 0) size) kvs \<le> size raw"
  using size_mergeKeys [of "size_prod (\<lambda>_. 0) size" "[]"] by (cases raw) (auto simp: le_SucI)

lemma size_asArr: "asArr payload = Some js \<Longrightarrow> j \<in> set js \<Longrightarrow> size j < size payload"
  by (cases payload) (auto dest: size_list_elem [of _ _ size])

lemma size_payload: "asObj raw = Some [(tag, p)] \<Longrightarrow> size p < size raw"
  using size_asObj [of raw] by fastforce

function decode :: "JSON \<Rightarrow> codec_error + Value"
  and decodeMapPayload :: "(string \<times> JSON) list \<Rightarrow> codec_error + Fields" where
  "decode raw =
     (case asObj raw of
        None \<Rightarrow> Inl BadTagged
      | Some obj \<Rightarrow>
          (case obj of
             [(tag, payload)] \<Rightarrow>
               if tag = ''a'' then
                 (case asArr payload of
                    None \<Rightarrow> Inl BadPayload
                  | Some elems \<Rightarrow> bind_result (mapResult decode elems) (\<lambda>vs. Inr (ArrayValue vs)))
               else if tag = ''m'' then
                 (case asObj payload of
                    None \<Rightarrow> Inl BadPayload
                  | Some kvs \<Rightarrow> bind_result (decodeMapPayload kvs) (\<lambda>m. Inr (MapValue m)))
               else decodeScalar tag payload
           | _ \<Rightarrow> Inl BadTagged))"
| "decodeMapPayload kvs =
     mapResult (\<lambda>kv. bind_result (decode (snd kv)) (\<lambda>v. Inr (fst kv, v))) kvs"
  by pat_completeness auto

termination
  by (relation "measure (case_sum size (\<lambda>m. size_list (size_prod (\<lambda>_. 0) size) m))")
     (auto dest: size_asArr size_list_elem [of _ _ "size_prod (\<lambda>_. 0) size"]
       intro: less_trans [OF size_asArr size_payload] le_less_trans [OF size_asObj size_payload])

declare decode.simps [simp del] encode.simps [simp] encodeMapPayload.simps [simp del] decodeMapPayload.simps [simp del]

definition UnmarshalFields :: "JSON \<Rightarrow> codec_error + Fields" where
  "UnmarshalFields data = (case asObj data of None \<Rightarrow> Inl BadTagged | Some raw \<Rightarrow> decodeMapPayload raw)"

definition Unmarshal :: "JSON \<Rightarrow> codec_error + Value" where
  "Unmarshal data = decode data"

section \<open>Containment probes\<close>

fun nestPath :: "FieldPath \<Rightarrow> JSON \<Rightarrow> JSON" where
  "nestPath [] leaf = leaf"
| "nestPath [seg] leaf = JObj [(seg, leaf)]"
| "nestPath (seg # rest) leaf = JObj [(seg, JObj [(''m'', nestPath rest leaf)])]"

definition ContainmentJSON :: "FieldPath \<Rightarrow> Value \<Rightarrow> codec_error + JSON" where
  "ContainmentJSON path v = bind_result (encode v) (\<lambda>tagged. Inr (nestPath path tagged))"

definition ArrayContainmentJSON :: "FieldPath \<Rightarrow> Value \<Rightarrow> codec_error + JSON" where
  "ArrayContainmentJSON path el =
     bind_result (encode el) (\<lambda>tagged. Inr (nestPath path (JObj [(''a'', JArr [tagged])])))"

section \<open>Round trip\<close>

text \<open>
  What a stored value reads back as: timestamps cut to microseconds and one NaN, otherwise the
  value itself.
\<close>

fun canonValue :: "Value \<Rightarrow> Value" where
  "canonValue (DoubleValue d) = DoubleValue (canonNaN d)"
| "canonValue (TimestampValue s n) = tsOf (Truncate_us (AsTime s n))"
| "canonValue (GeoPointValue lat lng) = GeoPointValue (canonNaN lat) (canonNaN lng)"
| "canonValue (ArrayValue vs) = ArrayValue (map canonValue vs)"
| "canonValue (MapValue m) = MapValue (map (\<lambda>kv. (fst kv, canonValue (snd kv))) m)"
| "canonValue v = v"

definition canonFields :: "Fields \<Rightarrow> Fields" where
  "canonFields m = map (\<lambda>kv. (fst kv, canonValue (snd kv))) m"

fun encodable :: "Value \<Rightarrow> bool" where
  "encodable (TimestampValue s n) \<longleftrightarrow> zeroTime \<le> AsTime s n \<and> AsTime s n \<le> maxTimestamp"
| "encodable (ReferenceValue r) \<longleftrightarrow> \<not> hasNUL r"
| "encodable (ArrayValue vs) \<longleftrightarrow> (\<forall>v \<in> set vs. encodable v)"
| "encodable (MapValue m) \<longleftrightarrow> distinct (map fst m) \<and> (\<forall>kv \<in> set m. \<not> hasNUL (fst kv) \<and> encodable (snd kv))"
| "encodable UnknownValue \<longleftrightarrow> False"
| "encodable _ \<longleftrightarrow> True"

lemma AList_update_fresh: "k \<notin> fst ` set m \<Longrightarrow> AList.update k j m = m @ [(k, j)]"
  by (induction m) auto

lemma mergeKeys_distinct: "distinct (map fst (m @ kvs)) \<Longrightarrow> mergeKeys m kvs = m @ kvs"
proof (induction m kvs rule: mergeKeys.induct)
  case (2 m k j kvs)
  then show ?case using AList_update_fresh [of k m j] by simp
qed simp

lemma decode_tagged:
  "decode (JObj [(''a'', JArr js)]) = bind_result (mapResult decode js) (\<lambda>vs. Inr (ArrayValue vs))"
  "distinct (map fst kvs) \<Longrightarrow>
     decode (JObj [(''m'', JObj kvs)]) = bind_result (decodeMapPayload kvs) (\<lambda>m. Inr (MapValue m))"
  "tag \<noteq> ''a'' \<Longrightarrow> tag \<noteq> ''m'' \<Longrightarrow> decode (JObj [(tag, p)]) = decodeScalar tag p"
  using mergeKeys_distinct [of "[]" kvs] by (simp_all add: decode.simps)

lemma Truncate_us_idem [simp]: "Truncate_us (Truncate_us t) = Truncate_us t"
  by (simp add: Truncate_us_def mod_diff_eq)

lemma Truncate_us_range:
  "zeroTime \<le> t \<Longrightarrow> zeroTime \<le> Truncate_us t" "t \<le> maxTimestamp \<Longrightarrow> Truncate_us t \<le> maxTimestamp"
proof -
  have "0 \<le> t mod 1000" "t mod 1000 < 1000" by simp_all
  then show "t \<le> maxTimestamp \<Longrightarrow> Truncate_us t \<le> maxTimestamp" by (simp add: Truncate_us_def)
  have "zeroTime = 1000 * (zeroTime div 1000)" by (simp add: zeroTime_def)
  moreover have "Truncate_us t = 1000 * (t div 1000)" by (simp add: Truncate_us_def minus_mod_eq_mult_div)
  ultimately show "zeroTime \<le> t \<Longrightarrow> zeroTime \<le> Truncate_us t"
    using zdiv_mono1 [of zeroTime t 1000] by linarith
qed

lemma mapResult_all:
  "(\<And>x. x \<in> set xs \<Longrightarrow> \<exists>y. f x = Inr y \<and> g y = Inr (h x)) \<Longrightarrow>
   \<exists>ys. mapResult f xs = Inr ys \<and> mapResult g ys = Inr (map h xs)"
  by (induction xs) fastforce+

lemma mapResult_keys:
  "mapResult (\<lambda>kv. if P kv then Inl e else bind_result (f (snd kv)) (\<lambda>y. Inr (fst kv, y))) kvs = Inr r \<Longrightarrow>
   map fst r = map fst kvs"
  by (induction kvs arbitrary: r) (auto simp: bind_result_Inr split: if_splits)

lemma map_codes [simp]: "map (char_of \<circ> (of_char :: char \<Rightarrow> nat)) s = s" "map (word_of_nat \<circ> unat) (b :: bytes) = b"
  by (simp_all add: map_idI)

lemma b64_bytes: "\<forall>x \<in> set (map of_char s :: nat list). x < 256" "\<forall>x \<in> set (map unat (b :: bytes)). x < 256"
proof -
  have "unat (x :: 8 word) < 256" for x using unsigned_less [of x] by simp
  then show "\<forall>x \<in> set (map of_char s :: nat list). x < 256" "\<forall>x \<in> set (map unat (b :: bytes)). x < 256" by auto
qed

lemma decode_encode:
  "encodable v \<Longrightarrow> \<exists>j. encode v = Inr j \<and> decode j = Inr (canonValue v)"
proof (induction v rule: encodable.induct)
  case (1 s n)
  then show ?case
    using parse_formatTime [of "Truncate_us (AsTime s n)"] Truncate_us_range [of "AsTime s n"]
    by (simp add: formatTimestamp_def decode_tagged decodeScalar_def withString_def)
next
  case (3 vs)
  then have "\<exists>js. mapResult encode vs = Inr js \<and> mapResult decode js = Inr (map canonValue vs)"
    by (intro mapResult_all) auto
  then show ?case by (auto simp: decode_tagged)
next
  case (4 m)
  then have "\<exists>js. encodeMapPayload m = Inr js \<and> decodeMapPayload js = Inr (canonFields m)"
    unfolding encodeMapPayload.simps decodeMapPayload.simps canonFields_def
    by (intro mapResult_all) force
  then obtain js where js: "encodeMapPayload m = Inr js" "decodeMapPayload js = Inr (canonFields m)" by blast
  with 4 have "distinct (map fst js)" by (simp add: encodeMapPayload.simps mapResult_keys)
  with js show ?case by (simp add: decode_tagged canonFields_def)
qed (auto simp: decode_tagged decodeScalar_def withString_def ParseInt_FormatInt formatDouble_def parseDouble_def
    ParseFloat_FormatFloat decodeGeo_def b64String_def b64Bytes_def b64_round_trip [OF b64_bytes(1)]
    b64_round_trip [OF b64_bytes(2)])

lemma AsTime_tsOf:
  assumes "zeroTime \<le> t" "t \<le> maxTimestamp"
  shows "AsTime (word_of_int (t div 1000000000)) (word_of_int (t mod 1000000000)) = t"
proof -
  have q: "- unixToInternal \<le> t div 1000000000" "t div 1000000000 \<le> 253402300799"
    using zdiv_mono1 [OF assms(1), of 1000000000] zdiv_mono1 [OF assms(2), of 1000000000]
    by (simp_all add: zeroTime_def)
  have n: "sint (word_of_int (t mod 1000000000) :: int32) = t mod 1000000000"
    using pos_mod_bound [of 1000000000 t] pos_mod_sign [of 1000000000 t]
    by (simp add: sint_sbintrunc' signed_take_bit_int_eq_self)
  have "sint (word_of_int (t div 1000000000 + unixToInternal) :: int64) = t div 1000000000 + unixToInternal"
    using q by (simp only: sint_sbintrunc') (simp add: signed_take_bit_int_eq_self)
  then show ?thesis by (simp add: AsTime_def n div_mult_mod_eq)
qed

lemma canonNaN_idem [simp]: "canonNaN (canonNaN d) = canonNaN d"
  by (simp add: canonNaN_def)

lemma canonValue_stable: "encodable v \<Longrightarrow> encodable (canonValue v) \<and> canonValue (canonValue v) = canonValue v"
proof (induction v rule: encodable.induct)
  case (1 s n)
  then show ?case using Truncate_us_range [of "AsTime s n"] by (simp add: tsOf_def AsTime_tsOf)
next
  case (4 m)
  then show ?case by (auto simp: comp_def)
qed (auto simp: comp_def)

text \<open>Values that read back unchanged: timestamps in whole microseconds, one NaN.\<close>

fun exactValue :: "Value \<Rightarrow> bool" where
  "exactValue (DoubleValue d) \<longleftrightarrow> canonNaN d = d"
| "exactValue (TimestampValue s n) \<longleftrightarrow> 0 \<le> sint n \<and> sint n < 1000000000 \<and> sint n mod 1000 = 0"
| "exactValue (GeoPointValue lat lng) \<longleftrightarrow> canonNaN lat = lat \<and> canonNaN lng = lng"
| "exactValue (ArrayValue vs) \<longleftrightarrow> (\<forall>v \<in> set vs. exactValue v)"
| "exactValue (MapValue m) \<longleftrightarrow> (\<forall>kv \<in> set m. exactValue (snd kv))"
| "exactValue _ \<longleftrightarrow> True"

lemma AsTime_small:
  assumes "0 \<le> sint n" "sint n < 1000000000" "zeroTime \<le> AsTime s n" "AsTime s n \<le> maxTimestamp"
  shows "AsTime s n div 1000000000 = sint s \<and> AsTime s n mod 1000000000 = sint n"
proof -
  define x where "x = sint (s + word_of_int unixToInternal)"
  have n: "sint n div 1000000000 = 0" "sint n mod 1000000000 = sint n" using assms by simp_all
  then have t: "AsTime s n = (x - unixToInternal) * 1000000000 + sint n" by (simp add: AsTime_def x_def)
  have d: "AsTime s n div 1000000000 = x - unixToInternal" "AsTime s n mod 1000000000 = sint n"
    using assms(1,2) int_div_pos_eq [of "AsTime s n" 1000000000 "x - unixToInternal" "sint n"]
      int_mod_pos_eq [of "AsTime s n" 1000000000 "x - unixToInternal" "sint n"] t by simp_all
  then have r: "- unixToInternal \<le> x - unixToInternal" "x - unixToInternal \<le> 253402300799"
    using zdiv_mono1 [OF assms(3), of 1000000000] zdiv_mono1 [OF assms(4), of 1000000000] by (simp_all add: zeroTime_def)
  have "s + word_of_int unixToInternal = word_of_int x" by (simp add: x_def)
  then have "s = word_of_int (x - unixToInternal)" by (simp add: eq_diff_eq)
  then have "sint s = x - unixToInternal"
    using r by (simp only: sint_sbintrunc') (simp add: signed_take_bit_int_eq_self)
  with d show ?thesis by simp
qed

lemma canonValue_exact: "encodable v \<Longrightarrow> exactValue v \<Longrightarrow> canonValue v = v"
proof (induction v rule: encodable.induct)
  case (1 s n)
  then have a: "AsTime s n div 1000000000 = sint s" "AsTime s n mod 1000000000 = sint n"
    using AsTime_small [of n s] by auto
  have "AsTime s n mod 1000 = AsTime s n mod 1000000000 mod 1000" by (simp add: mod_mod_cancel)
  with a 1 have "Truncate_us (AsTime s n) = AsTime s n" by (simp add: Truncate_us_def)
  with a show ?case by (simp add: tsOf_def)
next
  case (4 m)
  then show ?case by (auto intro!: map_idI)
qed (auto intro!: map_idI)

fun unique_keys :: "Value \<Rightarrow> bool" where
  "unique_keys (ArrayValue vs) \<longleftrightarrow> (\<forall>v \<in> set vs. unique_keys v)"
| "unique_keys (MapValue m) \<longleftrightarrow> distinct (map fst m) \<and> (\<forall>kv \<in> set m. unique_keys (snd kv))"
| "unique_keys _ \<longleftrightarrow> True"

lemma mapResult_each: "mapResult f xs = Inr ys \<Longrightarrow> x \<in> set xs \<Longrightarrow> \<exists>y. f x = Inr y"
  by (induction xs arbitrary: ys) (auto simp: bind_result_Inr)

lemma encode_encodable: "encode v = Inr j \<Longrightarrow> unique_keys v \<Longrightarrow> encodable v"
proof (induction v arbitrary: j rule: encodable.induct)
  case (3 vs)
  then show ?case by (fastforce simp: bind_result_Inr dest: mapResult_each)
next
  case (4 m)
  from 4(2) obtain js where "encodeMapPayload m = Inr js" by (auto simp: bind_result_Inr)
  then have "\<exists>y. (if hasNUL (fst kv) then Inl NULInFieldName
      else bind_result (encode (snd kv)) (\<lambda>enc. Inr (fst kv, enc))) = Inr y" if "kv \<in> set m" for kv
    using that mapResult_each unfolding encodeMapPayload.simps by fastforce
  with 4 show ?case by (force simp: bind_result_Inr split: if_splits)
qed (auto simp: formatTimestamp_def Let_def bind_result_Inr split: if_splits)

lemma Unmarshal_Marshal:
  assumes "encodable (MapValue f)"
  shows "\<exists>data. MarshalFields f = Inr data \<and> UnmarshalFields data = Inr (canonFields f)"
proof -
  from decode_encode [OF assms] obtain obj where obj: "encodeMapPayload f = Inr obj"
    "decode (JObj [(''m'', JObj obj)]) = Inr (MapValue (canonFields f))"
    by (auto simp: bind_result_Inr canonFields_def)
  have "distinct (map fst obj)"
    using mapResult_keys obj(1) assms unfolding encodeMapPayload.simps by fastforce
  with obj(2) have "UnmarshalFields (JObj obj) = Inr (canonFields f)"
    using mergeKeys_distinct [of "[]" obj] by (simp add: decode_tagged UnmarshalFields_def bind_result_Inr)
  then show ?thesis using obj(1) by (simp add: MarshalFields_def)
qed

lemma Marshal_encodable: "MarshalFields f = Inr data \<Longrightarrow> unique_keys (MapValue f) \<Longrightarrow> encodable (MapValue f)"
  using encode_encodable [of "MapValue f"]
  by (auto simp: MarshalFields_def bind_result_Inr simp del: encodeMapPayload.simps)

section \<open>Properties of the encoding\<close>

text \<open>
  C18: a document whose values can be encoded is read back from its data column: with timestamps
  cut to microseconds and NaN payloads dropped, otherwise unchanged, and exactly as written when
  its timestamps are whole microseconds.
\<close>

theorem document_round_trip:
  assumes "encodable (MapValue f)"
  shows "\<exists>data. MarshalFields f = Inr data \<and> UnmarshalFields data = Inr (canonFields f) \<and>
    (exactValue (MapValue f) \<longrightarrow> UnmarshalFields data = Inr f)"
  using Unmarshal_Marshal [OF assms] canonValue_exact [OF assms] by (auto simp: canonFields_def)

theorem document_round_trip_witness:
  "\<exists>data. MarshalFields [(''t'', TimestampValue 1 5000), (''n'', IntegerValue 3)] = Inr data \<and>
    UnmarshalFields data = Inr [(''t'', TimestampValue 1 5000), (''n'', IntegerValue 3)]"
  using document_round_trip [of "[(''t'', TimestampValue 1 5000), (''n'', IntegerValue 3)]"]
  by (auto simp: hasNUL_def AsTime_def zeroTime_def)

text \<open>
  What was read back can be stored again and reads back the same, so rewriting a document
  never drifts.
\<close>

theorem stored_documents_stable:
  assumes "encodable (MapValue f)"
  shows "encodable (MapValue (canonFields f)) \<and> canonFields (canonFields f) = canonFields f"
  using canonValue_stable [OF assms] by (simp add: canonFields_def)

theorem stored_documents_stable_witness:
  "canonFields (canonFields [(''t'', TimestampValue 1 5999)]) = canonFields [(''t'', TimestampValue 1 5999)]"
  using stored_documents_stable [of "[(''t'', TimestampValue 1 5999)]"]
  by (simp add: hasNUL_def AsTime_def zeroTime_def)

text \<open>
  Encoding fails exactly for a timestamp outside years 1 to 9999, a NUL byte in a reference
  or a field name, or a value of a kind the encoding has no tag for; so every document the
  encoder accepts can be decoded.
\<close>

theorem encode_total:
  assumes "unique_keys v"
  shows "(\<exists>j. encode v = Inr j) \<longleftrightarrow> encodable v"
  using decode_encode [of v] encode_encodable [of v] assms by blast

theorem encode_total_witness: "\<not> (\<exists>j. encode (ReferenceValue [CHR 0x00]) = Inr j)"
  using encode_total [of "ReferenceValue [CHR 0x00]"] by (simp add: hasNUL_def)

end
