(* ===== verification/Tables.thy ===== *)
theory Tables
  imports Plan Writes TaggedJSON
begin

text \<open>
  Package \<^verbatim>\<open>store\<close>: the tables of \<^verbatim>\<open>migrations/*.sql\<close>, the statements that change one row,
  document names and reading documents (\<^verbatim>\<open>store.go\<close>). A table is the list of its rows, an SQL statement a function on it; a
  Postgres transaction either yields the new tables or, on an error, leaves the old ones.
  Failures of the database connection are not modelled: each of them aborts the operation.
\<close>

section \<open>Tables\<close>

record DocRow =
  r_name :: string
  r_parent_path :: string
  r_collection_id :: string
  r_doc_id :: string
  r_data :: JSON
  r_create_time :: time
  r_update_time :: time

record IndexEntry =
  e_index_id :: int64
  e_key :: bytes
  e_doc_name :: string

record IndexDefRow =
  i_index_id :: int64
  i_collection_id :: string
  i_spec :: string
  i_is_group :: bool
  i_ready :: bool

record Change =
  c_seq :: nat
  c_xid :: nat
  c_doc_name :: string
  c_collection_id :: string
  c_kind :: string
  c_at :: time

record DB =
  documents :: "DocRow list"
  collections :: "(string \<times> string) list"
  index_entries :: "IndexEntry list"
  index_defs :: "IndexDefRow list"
  changelog :: "Change list"
  next_seq :: nat

definition upsertDocument :: "DocRow \<Rightarrow> DB \<Rightarrow> DB" where
  "upsertDocument row db =
     db\<lparr>documents :=
       (if \<exists>r \<in> set (documents db). r_name r = r_name row
        then map (\<lambda>r. if r_name r = r_name row
                       then r\<lparr>r_data := r_data row, r_update_time := r_update_time row\<rparr> else r) (documents db)
        else documents db @ [row])\<rparr>"

definition deleteDocument :: "string \<Rightarrow> DB \<Rightarrow> DB" where
  "deleteDocument name db = db\<lparr>documents := filter (\<lambda>r. r_name r \<noteq> name) (documents db)\<rparr>"

definition registerCollection :: "string \<Rightarrow> string \<Rightarrow> DB \<Rightarrow> DB" where
  "registerCollection parent coll db =
     db\<lparr>collections := (if (parent, coll) \<in> set (collections db) then collections db
                         else collections db @ [(parent, coll)])\<rparr>"

definition insertEntry :: "IndexEntry \<Rightarrow> DB \<Rightarrow> DB" where
  "insertEntry e db =
     db\<lparr>index_entries := (if e \<in> set (index_entries db) then index_entries db else index_entries db @ [e])\<rparr>"

definition appendChange :: "nat \<Rightarrow> time \<Rightarrow> string \<Rightarrow> string \<Rightarrow> string \<Rightarrow> DB \<Rightarrow> DB" where
  "appendChange xid at name coll kind db =
     db\<lparr>changelog := changelog db @ [\<lparr>c_seq = next_seq db, c_xid = xid, c_doc_name = name,
           c_collection_id = coll, c_kind = kind, c_at = at\<rparr>],
        next_seq := Suc (next_seq db)\<rparr>"

section \<open>Documents\<close>

record Doc =
  d_Name :: string
  d_Fields :: Fields
  d_CreateTime :: time
  d_UpdateTime :: time

record DocPath =
  dp_Name :: string
  dp_ParentPath :: string
  dp_CollectionID :: string
  dp_DocID :: string

definition ParseDocumentName :: "string \<Rightarrow> fault + DocPath" where
  "ParseDocumentName name =
     (let segs = splitOn CHR ''/'' name
      in if length segs < 7 \<or> segs ! 0 \<noteq> ''projects'' \<or> segs ! 2 \<noteq> ''databases'' \<or> segs ! 4 \<noteq> ''documents''
         then Inl (Status InvalidArgument)
         else let rel = drop 5 segs
              in if length rel mod 2 \<noteq> 0 then Inl (Status InvalidArgument)
                 else if list_ex (\<lambda>s. s = []) rel then Inl (Status InvalidArgument)
                 else Inr \<lparr>dp_Name = name,
                           dp_ParentPath = joinWith CHR ''/'' (take (length segs - 2) segs),
                           dp_CollectionID = segs ! (length segs - 2),
                           dp_DocID = segs ! (length segs - 1)\<rparr>)"

definition scanDoc :: "DocRow \<Rightarrow> fault + Doc" where
  "scanDoc r =
     (case UnmarshalFields (r_data r) of
        Inl _ \<Rightarrow> Inl (Status UnknownError)
      | Inr flds \<Rightarrow> Inr \<lparr>d_Name = r_name r, d_Fields = flds,
                        d_CreateTime = r_create_time r, d_UpdateTime = r_update_time r\<rparr>)"

fun scanDocsLoop :: "(string \<times> Doc) list \<Rightarrow> DocRow list \<Rightarrow> fault + (string \<times> Doc) list" where
  "scanDocsLoop out [] = Inr out"
| "scanDocsLoop out (r # rs) =
     bind_result (scanDoc r) (\<lambda>d. scanDocsLoop (AList.update (r_name r) d out) rs)"

definition scanDocs :: "DocRow list \<Rightarrow> fault + (string \<times> Doc) list" where
  "scanDocs rows = scanDocsLoop [] rows"

definition GetDocuments :: "string list \<Rightarrow> DB \<Rightarrow> fault + (string \<times> Doc) list" where
  "GetDocuments names db =
     (if names = [] then Inr []
      else scanDocs (filter (\<lambda>r. r_name r \<in> set names) (documents db)))"

section \<open>The documents of a database\<close>

definition rowOf :: "DB \<Rightarrow> string \<Rightarrow> DocRow option" where
  "rowOf db name = find (\<lambda>r. r_name r = name) (documents db)"

lemma rowOf_Some: "rowOf db n = Some r \<Longrightarrow> r \<in> set (documents db) \<and> r_name r = n"
  by (auto simp: rowOf_def find_Some_iff)

lemma rowOf_None: "rowOf db n = None \<longleftrightarrow> (\<forall>r \<in> set (documents db). r_name r \<noteq> n)"
  by (auto simp: rowOf_def find_None_iff)

lemma find_map_other: "(\<And>r. P (f r) = P r) \<Longrightarrow> find P (map f rs) = map_option f (find P rs)"
  by (induction rs) auto

lemma find_filter_imp: "(\<And>r. r \<in> set rs \<Longrightarrow> P r \<Longrightarrow> Q r) \<Longrightarrow> find P (filter Q rs) = find P rs"
  by (induction rs) auto

lemma find_append: "find P (xs @ ys) = (case find P xs of None \<Rightarrow> find P ys | Some x \<Rightarrow> Some x)"
  by (induction xs) auto

lemma rowOf_upsert:
  "rowOf (upsertDocument row db) n =
     (if n = r_name row
      then Some (case rowOf db n of None \<Rightarrow> row
                 | Some r \<Rightarrow> r\<lparr>r_data := r_data row, r_update_time := r_update_time row\<rparr>)
      else rowOf db n)"
proof (cases "rowOf db (r_name row)")
  case None
  then have "documents (upsertDocument row db) = documents db @ [row]"
    unfolding rowOf_None by (auto simp: upsertDocument_def)
  then have "rowOf (upsertDocument row db) n =
    (case rowOf db n of None \<Rightarrow> if r_name row = n then Some row else None | Some r \<Rightarrow> Some r)"
    by (simp add: rowOf_def find_append split: option.split)
  with None show ?thesis by (auto split: option.split)
next
  case (Some r)
  let ?f = "\<lambda>r. if r_name r = r_name row then r\<lparr>r_data := r_data row, r_update_time := r_update_time row\<rparr> else r"
  from rowOf_Some [OF Some] have "documents (upsertDocument row db) = map ?f (documents db)"
    unfolding upsertDocument_def by auto
  then have upd: "rowOf (upsertDocument row db) n = map_option ?f (rowOf db n)"
    unfolding rowOf_def by (simp add: find_map_other)
  show ?thesis
  proof (cases "rowOf db n")
    case None
    with Some upd show ?thesis by auto
  next
    case (Some r')
    with upd rowOf_Some [OF Some] show ?thesis by (cases "n = r_name row") simp_all
  qed
qed

lemma rowOf_delete: "rowOf (deleteDocument name db) n = (if n = name then None else rowOf db n)"
  by (auto simp: deleteDocument_def rowOf_def find_filter_imp find_None_iff)

lemma names_upsert:
  "distinct (map r_name (documents db)) \<Longrightarrow> distinct (map r_name (documents (upsertDocument row db)))"
proof -
  assume d: "distinct (map r_name (documents db))"
  have "map r_name (map (\<lambda>r. if r_name r = r_name row then r\<lparr>r_data := r_data row, r_update_time := r_update_time row\<rparr> else r)
      (documents db)) = map r_name (documents db)" by simp
  with d show ?thesis by (auto simp: upsertDocument_def simp del: map_map)
qed

lemma names_delete: "distinct (map r_name (documents db)) \<Longrightarrow> distinct (map r_name (documents (deleteDocument name db)))"
  by (simp add: deleteDocument_def distinct_map_filter)

lemma row_iff:
  "distinct (map r_name (documents db)) \<Longrightarrow> r \<in> set (documents db) \<longleftrightarrow> rowOf db (r_name r) = Some r"
proof -
  assume d: "distinct (map r_name (documents db))"
  have "r \<in> set rs \<Longrightarrow> find (\<lambda>x. r_name x = r_name r) rs = Some r" if "distinct (map r_name rs)" for rs
    using that by (induction rs) force+
  with d rowOf_Some [of db "r_name r" r] show ?thesis unfolding rowOf_def by blast
qed

text \<open>What a document holds, and its version: its update time, or the zero time when it is missing.\<close>

definition view :: "DB \<Rightarrow> string \<Rightarrow> Fields option" where
  "view db name =
     (case rowOf db name of
        None \<Rightarrow> None
      | Some r \<Rightarrow> (case UnmarshalFields (r_data r) of Inl _ \<Rightarrow> None | Inr f \<Rightarrow> Some f))"

definition version :: "DB \<Rightarrow> string \<Rightarrow> time" where
  "version db name = (case rowOf db name of None \<Rightarrow> zeroTime | Some r \<Rightarrow> r_update_time r)"

lemma documents_simps [simp]:
  "documents (registerCollection p c db) = documents db" "documents (insertEntry e db) = documents db"
  "documents (appendChange x t n c k db) = documents db" "documents (index_entries_update f db) = documents db"
  "index_entries (upsertDocument row db) = index_entries db" "index_entries (deleteDocument n db) = index_entries db"
  "index_entries (registerCollection p c db) = index_entries db" "index_entries (appendChange x t n c k db) = index_entries db"
  "changelog (upsertDocument row db) = changelog db" "changelog (deleteDocument n db) = changelog db"
  "changelog (registerCollection p c db) = changelog db" "changelog (insertEntry e db) = changelog db"
  "next_seq (upsertDocument row db) = next_seq db" "next_seq (deleteDocument n db) = next_seq db"
  "next_seq (registerCollection p c db) = next_seq db" "next_seq (insertEntry e db) = next_seq db"
  by (simp_all add: registerCollection_def insertEntry_def appendChange_def upsertDocument_def deleteDocument_def)

lemma rowOf_cong: "documents db = documents db' \<Longrightarrow> rowOf db = rowOf db'"
  by (simp add: rowOf_def fun_eq_iff)

lemma scanDocsLoop_map_of:
  "scanDocsLoop out rs = Inr docs \<Longrightarrow>
   map_of docs n = (case find (\<lambda>r. r_name r = n) (rev rs) of
      Some r \<Rightarrow> (case scanDoc r of Inr d \<Rightarrow> Some d | Inl _ \<Rightarrow> None) | None \<Rightarrow> map_of out n)"
  by (induction out rs rule: scanDocsLoop.induct)
     (auto simp: bind_result_Inr find_append update_conv' split: option.split)

end
