(* ===== verification/IndexStore.thy ===== *)
theory IndexStore
  imports Tables
begin

text \<open>
  File \<^verbatim>\<open>store/index.go\<close>: the in-memory registry of index definitions, the entries each
  document write leaves in \<^verbatim>\<open>index_entries\<close>, backfill, loading, listing and dropping. The
  central invariant is that an index holds exactly the entries of the stored documents of its
  collection.
\<close>

section \<open>The index registry and index entries\<close>

record indexRegistry =
  byColl :: "(string \<times> Def list) list"
  reg_ready :: "int64 list"

definition forCollection :: "indexRegistry \<Rightarrow> string \<Rightarrow> Def list" where
  "forCollection reg coll = (case map_of (byColl reg) coll of None \<Rightarrow> [] | Some ds \<Rightarrow> ds)"

definition markReady :: "int64 \<Rightarrow> indexRegistry \<Rightarrow> indexRegistry" where
  "markReady i reg = reg\<lparr>reg_ready := List.insert i (reg_ready reg)\<rparr>"

definition addDef :: "Def \<Rightarrow> (string \<times> Def list) list \<Rightarrow> (string \<times> Def list) list" where
  "addDef d m =
     AList.update (dCollectionID d)
       ((case map_of m (dCollectionID d) of None \<Rightarrow> [] | Some ds \<Rightarrow> ds) @ [d]) m"

definition registerDef :: "Def \<Rightarrow> DB \<Rightarrow> DB" where
  "registerDef d db =
     db\<lparr>index_defs :=
       (if ID d \<in> i_index_id ` set (index_defs db) then index_defs db
        else index_defs db @ [\<lparr>i_index_id = ID d, i_collection_id = dCollectionID d, i_spec = Spec d,
                               i_is_group = dGroup d, i_ready = False\<rparr>])\<rparr>"

definition ReadyIndexes :: "DB \<Rightarrow> int64 list" where
  "ReadyIndexes db = map i_index_id (filter i_ready (index_defs db))"

definition SetIndexes :: "Def list \<Rightarrow> DB \<Rightarrow> fault + (DB \<times> indexRegistry)" where
  "SetIndexes defs db =
     (if list_ex (\<lambda>d. dFields d = []) defs then Inl (Status UnknownError)
      else let db' = fold registerDef defs db
           in Inr (db', \<lparr>byColl = fold addDef defs [], reg_ready = ReadyIndexes db'\<rparr>))"

definition entriesOf :: "Def \<Rightarrow> string \<Rightarrow> Fields \<Rightarrow> IndexEntry list" where
  "entriesOf d name flds =
     map (\<lambda>key. \<lparr>e_index_id = ID d, e_key = key, e_doc_name = name\<rparr>) (Keys d name flds)"

definition refreshIndexEntries :: "indexRegistry \<Rightarrow> string \<Rightarrow> string \<Rightarrow> Fields \<Rightarrow> bool \<Rightarrow> DB \<Rightarrow> DB" where
  "refreshIndexEntries reg name coll flds deleted db =
     (let defs = forCollection reg coll
      in if defs = [] then db
         else let db1 = db\<lparr>index_entries := filter (\<lambda>e. e_doc_name e \<noteq> name) (index_entries db)\<rparr>
              in if deleted then db1
                 else fold (\<lambda>d. fold insertEntry (entriesOf d name flds)) defs db1)"

definition MarkIndexReady :: "Def \<Rightarrow> DB \<times> indexRegistry \<Rightarrow> DB \<times> indexRegistry" where
  "MarkIndexReady d = (\<lambda>(db, reg).
     (db\<lparr>index_defs := map (\<lambda>r. if i_index_id r = ID d then r\<lparr>i_ready := True\<rparr> else r) (index_defs db)\<rparr>,
      markReady (ID d) reg))"

fun backfillBatch :: "Def \<Rightarrow> DocRow list \<Rightarrow> fault + IndexEntry list" where
  "backfillBatch d [] = Inr []"
| "backfillBatch d (r # rs) =
     bind_result (scanDoc r) (\<lambda>doc.
     bind_result (backfillBatch d rs) (\<lambda>batch.
       Inr (entriesOf d (r_name r) (d_Fields doc) @ batch)))"

text \<open>
  The scan runs outside the transaction that replaces the entries: another commit may come
  between the two.
\<close>

definition backfillScan :: "Def \<Rightarrow> DB \<Rightarrow> fault + IndexEntry list" where
  "backfillScan d db =
     backfillBatch d (sort_key r_name (filter (\<lambda>r. r_collection_id r = dCollectionID d) (documents db)))"

definition backfillLoad :: "Def \<Rightarrow> IndexEntry list \<Rightarrow> DB \<times> indexRegistry \<Rightarrow> (DB \<times> indexRegistry) \<times> nat" where
  "backfillLoad d batch = (\<lambda>(db, reg).
     let cleared = db\<lparr>index_entries := filter (\<lambda>e. e_index_id e \<noteq> ID d) (index_entries db)\<rparr>
     in (MarkIndexReady d (fold insertEntry batch cleared, reg), length batch))"

definition BackfillIndex :: "Def \<Rightarrow> DB \<times> indexRegistry \<Rightarrow> fault + ((DB \<times> indexRegistry) \<times> nat)" where
  "BackfillIndex d s = bind_result (backfillScan d (fst s)) (\<lambda>batch. Inr (backfillLoad d batch s))"

definition CountIndexEntries :: "Def \<Rightarrow> DB \<Rightarrow> nat" where
  "CountIndexEntries d db = length (filter (\<lambda>e. e_index_id e = ID d) (index_entries db))"

fun loadLoop :: "(string \<times> Def list) list \<Rightarrow> int64 list \<Rightarrow> nat \<Rightarrow> IndexDefRow list \<Rightarrow>
    (string \<times> Def list) list \<times> int64 list \<times> nat" where
  "loadLoop m rdy bad [] = (m, rdy, bad)"
| "loadLoop m rdy bad (r # rs) =
     (case ParseSpec (i_spec r) of
        None \<Rightarrow> loadLoop m rdy (Suc bad) rs
      | Some d \<Rightarrow> loadLoop (addDef d m) (if i_ready r then List.insert (ID d) rdy else rdy) bad rs)"

text \<open>The new registry, how many indexes are ready, and whether definitions were ignored (the error).\<close>

definition LoadIndexes :: "DB \<Rightarrow> indexRegistry \<times> nat \<times> bool" where
  "LoadIndexes db =
     (let (m, rdy, bad) = loadLoop [] [] 0 (index_defs db)
      in (\<lparr>byColl = m, reg_ready = rdy\<rparr>, length rdy, bad > 0))"

definition DropIndex :: "Def \<Rightarrow> DB \<Rightarrow> DB \<times> nat" where
  "DropIndex d db =
     (db\<lparr>index_entries := filter (\<lambda>e. e_index_id e \<noteq> ID d) (index_entries db),
         index_defs := filter (\<lambda>r. i_index_id r \<noteq> ID d) (index_defs db)\<rparr>,
      CountIndexEntries d db)"

text \<open>Specifications sort by the database's collation, collection ids by their bytes.\<close>

definition ListIndexes :: "(string \<Rightarrow> nat) \<Rightarrow> DB \<Rightarrow> (string \<times> bool \<times> nat) list" where
  "ListIndexes collate db =
     map (\<lambda>r. (i_spec r, i_ready r, length (filter (\<lambda>e. e_index_id e = i_index_id r) (index_entries db))))
       (sort_key i_collection_id (sort_key (\<lambda>r. collate (i_spec r)) (index_defs db)))"

definition CollectionsWithDocuments :: "DB \<Rightarrow> string list" where
  "CollectionsWithDocuments db = remdups (map r_collection_id (documents db))"

definition CountCollection :: "string \<Rightarrow> DB \<Rightarrow> nat" where
  "CountCollection coll db = length (filter (\<lambda>r. r_collection_id r = coll) (documents db))"

definition collectionBatch :: "string \<Rightarrow> nat \<Rightarrow> DB \<Rightarrow> string list" where
  "collectionBatch coll batch db =
     take batch (map r_name (sort_key r_name (filter (\<lambda>r. r_collection_id r = coll) (documents db))))"

definition dropBatch :: "string list \<Rightarrow> DB \<Rightarrow> DB" where
  "dropBatch names db =
     db\<lparr>index_entries := filter (\<lambda>e. e_doc_name e \<notin> set names) (index_entries db),
        documents := filter (\<lambda>r. r_name r \<notin> set names) (documents db)\<rparr>"

definition batchRows :: "string list \<Rightarrow> DB \<Rightarrow> nat" where
  "batchRows names db = length (filter (\<lambda>r. r_name r \<in> set names) (documents db))"

lemma collectionBatch_smaller:
  assumes "collectionBatch coll batch db \<noteq> []"
  shows "length (documents (dropBatch (collectionBatch coll batch db) db)) < length (documents db)"
proof -
  obtain n where n: "n \<in> set (collectionBatch coll batch db)" using assms by (cases "collectionBatch coll batch db") auto
  then obtain r where "r \<in> set (documents db)" "r_name r = n"
    by (auto simp: collectionBatch_def dest!: in_set_takeD)
  with n show ?thesis unfolding dropBatch_def by (auto intro!: length_filter_less)
qed

function dropLoop :: "string \<Rightarrow> nat \<Rightarrow> nat \<Rightarrow> DB \<Rightarrow> DB \<times> nat" where
  "dropLoop coll batch cnt db =
     (let names = collectionBatch coll batch db
      in if names = [] then (db, cnt)
         else dropLoop coll batch (cnt + batchRows names db) (dropBatch names db))"
  by pat_completeness auto
termination
  by (relation "measure (\<lambda>(coll, batch, cnt, db). length (documents db))")
     (auto simp: collectionBatch_smaller)

declare dropLoop.simps [simp del]

definition DropCollection :: "string \<Rightarrow> int \<Rightarrow> DB \<Rightarrow> fault + (DB \<times> nat)" where
  "DropCollection coll batch db =
     (if coll = [] then Inl (Status UnknownError)
      else let (db', cnt) = dropLoop coll (if batch \<le> 0 then 2000 else nat batch) 0 db
           in Inr (db'\<lparr>collections := filter (\<lambda>(p, c). c \<noteq> coll \<or>
                        (\<exists>r \<in> set (documents db'). r_collection_id r = c \<and> r_parent_path r = p)) (collections db')\<rparr>,
                   cnt))"

section \<open>What a refresh leaves\<close>

lemma set_insertEntry [simp]: "set (index_entries (insertEntry e db)) = insert e (set (index_entries db))"
  by (auto simp: insertEntry_def)

lemma fold_insertEntry [simp]:
  "set (index_entries (fold insertEntry es db)) = set es \<union> set (index_entries db)"
  "documents (fold insertEntry es db) = documents db"
  "changelog (fold insertEntry es db) = changelog db" "next_seq (fold insertEntry es db) = next_seq db"
  by (induction es arbitrary: db) auto

lemma fold_defs [simp]:
  "set (index_entries (fold (\<lambda>d. fold insertEntry (g d)) ds db)) = (\<Union>d \<in> set ds. set (g d)) \<union> set (index_entries db)"
  "documents (fold (\<lambda>d. fold insertEntry (g d)) ds db) = documents db"
  "changelog (fold (\<lambda>d. fold insertEntry (g d)) ds db) = changelog db"
  "next_seq (fold (\<lambda>d. fold insertEntry (g d)) ds db) = next_seq db"
  by (induction ds arbitrary: db) auto

lemma refresh_simps [simp]:
  "documents (refreshIndexEntries reg n c f del db) = documents db"
  "changelog (refreshIndexEntries reg n c f del db) = changelog db"
  "next_seq (refreshIndexEntries reg n c f del db) = next_seq db"
  by (simp_all add: refreshIndexEntries_def Let_def)

lemma refresh_entries:
  assumes "d \<in> set (forCollection reg c)"
  shows "set (index_entries (refreshIndexEntries reg n c f del db)) =
    {e \<in> set (index_entries db). e_doc_name e \<noteq> n} \<union>
    (if del then {} else (\<Union>d \<in> set (forCollection reg c). set (entriesOf d n f)))"
  using assms by (auto simp: refreshIndexEntries_def Let_def)

lemma refresh_other:
  "e_doc_name e \<noteq> n \<Longrightarrow> e \<in> set (index_entries (refreshIndexEntries reg n c f del db)) \<longleftrightarrow> e \<in> set (index_entries db)"
  by (auto simp: refreshIndexEntries_def Let_def entriesOf_def)

section \<open>Complete indexes\<close>

text \<open>
  An index is complete when it holds, for every stored document of its collection, the entries
  of the document as it reads back, and nothing else.
\<close>

definition docEntries :: "Def \<Rightarrow> DB \<Rightarrow> string \<Rightarrow> IndexEntry set" where
  "docEntries d db n =
     (case rowOf db n of
        None \<Rightarrow> {}
      | Some r \<Rightarrow> if r_collection_id r = dCollectionID d
                  then (case UnmarshalFields (r_data r) of Inl _ \<Rightarrow> {} | Inr f \<Rightarrow> set (entriesOf d n f)) else {})"

definition index_complete :: "Def \<Rightarrow> DB \<Rightarrow> bool" where
  "index_complete d db \<longleftrightarrow>
     (\<forall>e. e_index_id e = ID d \<longrightarrow> (e \<in> set (index_entries db) \<longleftrightarrow> e \<in> docEntries d db (e_doc_name e)))"

lemma in_entriesOf: "e \<in> set (entriesOf d n f) \<longleftrightarrow> e_index_id e = ID d \<and> e_doc_name e = n \<and> e_key e \<in> set (Keys d n f)"
  by (cases e) (auto simp: entriesOf_def image_iff)

lemma in_docEntries:
  "e \<in> docEntries d db n \<longleftrightarrow> (\<exists>r. rowOf db n = Some r \<and> r_collection_id r = dCollectionID d \<and>
     (\<exists>f. UnmarshalFields (r_data r) = Inr f \<and> e \<in> set (entriesOf d n f)))"
  by (simp add: docEntries_def split: option.split sum.split)

lemma index_completeD:
  "index_complete d db \<Longrightarrow> e_index_id e = ID d \<Longrightarrow> e \<in> set (index_entries db) \<longleftrightarrow> e \<in> docEntries d db (e_doc_name e)"
  by (simp add: index_complete_def)

text \<open>Definitions whose identifiers differ: what the registry relies on, identifiers being hashes.\<close>

definition distinct_ids :: "Def list \<Rightarrow> bool" where
  "distinct_ids ds \<longleftrightarrow> inj_on ID (set ds)"

lemma refresh_keeps_complete:
  assumes complete: "index_complete d db"
    and docs: "\<And>n'. n' \<noteq> n \<Longrightarrow> rowOf db' n' = rowOf db n'" and entries: "index_entries db' = index_entries db"
    and d: "d \<in> set (forCollection reg c)" "distinct_ids (forCollection reg c)" "c = dCollectionID d"
    and new: "rowOf db' n = (if del then None else Some r)" "\<not> del \<Longrightarrow> r_collection_id r = c \<and> UnmarshalFields (r_data r) = Inr f"
  shows "index_complete d (refreshIndexEntries reg n c f del db')"
  unfolding index_complete_def
proof (intro allI impI)
  fix e :: IndexEntry assume e: "e_index_id e = ID d"
  have row: "rowOf (refreshIndexEntries reg n c f del db') = rowOf db'" by (rule rowOf_cong) simp
  show "e \<in> set (index_entries (refreshIndexEntries reg n c f del db')) \<longleftrightarrow>
        e \<in> docEntries d (refreshIndexEntries reg n c f del db') (e_doc_name e)"
  proof (cases "e_doc_name e = n")
    case True
    have "d' = d" if "d' \<in> set (forCollection reg c)" "e \<in> set (entriesOf d' n f)" for d'
      using inj_onD [OF d(2) [unfolded distinct_ids_def] _ that(1) d(1)] that(2) e by (simp add: in_entriesOf)
    with d(1) have "e \<in> (\<Union>d \<in> set (forCollection reg c). set (entriesOf d n f)) \<longleftrightarrow> e \<in> set (entriesOf d n f)" by blast
    moreover have "docEntries d (refreshIndexEntries reg n c f del db') n = (if del then {} else set (entriesOf d n f))"
      unfolding docEntries_def row new(1) using new(2) d(3) by simp
    ultimately show ?thesis
      unfolding refresh_entries [OF d(1)] using True by (cases del) simp_all
  next
    case False
    with docs have "docEntries d (refreshIndexEntries reg n c f del db') (e_doc_name e) = docEntries d db (e_doc_name e)"
      unfolding docEntries_def row by simp
    with index_completeD [OF complete e] False entries show ?thesis by (simp add: refresh_other)
  qed
qed

lemma other_collection_complete:
  assumes complete: "index_complete d db" and docs: "\<And>n'. n' \<noteq> n \<Longrightarrow> rowOf db' n' = rowOf db n'"
    and entries: "index_entries db' = index_entries db"
    and old: "docEntries d db n = {}" and new: "docEntries d db' n = {}"
    and ids: "\<And>d'. d' \<in> set (forCollection reg c) \<Longrightarrow> ID d' \<noteq> ID d"
  shows "index_complete d (refreshIndexEntries reg n c f del db')"
  unfolding index_complete_def
proof (intro allI impI)
  fix e :: IndexEntry assume e: "e_index_id e = ID d"
  have row: "rowOf (refreshIndexEntries reg n c f del db') = rowOf db'" by (rule rowOf_cong) simp
  then have de: "docEntries d (refreshIndexEntries reg n c f del db') = docEntries d db'" by (simp add: docEntries_def fun_eq_iff)
  show "e \<in> set (index_entries (refreshIndexEntries reg n c f del db')) \<longleftrightarrow>
        e \<in> docEntries d (refreshIndexEntries reg n c f del db') (e_doc_name e)"
  proof (cases "e_doc_name e = n")
    case True
    have "e \<notin> set (index_entries db)" using index_completeD [OF complete e] True old by simp
    moreover have "e \<notin> set (entriesOf d' n f)" if "d' \<in> set (forCollection reg c)" for d'
      using ids [OF that] e by (auto simp: in_entriesOf)
    ultimately have "e \<notin> set (index_entries (refreshIndexEntries reg n c f del db'))"
      using entries by (auto simp: refreshIndexEntries_def Let_def)
    with True new de show ?thesis by simp
  next
    case False
    with docs have "docEntries d db' (e_doc_name e) = docEntries d db (e_doc_name e)" by (simp add: docEntries_def)
    with index_completeD [OF complete e] False entries de show ?thesis by (simp add: refresh_other)
  qed
qed

section \<open>Backfill\<close>

lemma backfillBatch_entries:
  "backfillBatch d rs = Inr batch \<Longrightarrow>
     e \<in> set batch \<longleftrightarrow> (\<exists>r \<in> set rs. \<exists>f. UnmarshalFields (r_data r) = Inr f \<and> e \<in> set (entriesOf d (r_name r) f))"
  by (induction d rs arbitrary: batch rule: backfillBatch.induct)
     (auto simp: bind_result_Inr scanDoc_def split: sum.splits)

lemma backfillBatch_total:
  "\<forall>r \<in> set rs. \<exists>f. UnmarshalFields (r_data r) = Inr f \<Longrightarrow> \<exists>batch. backfillBatch d rs = Inr batch"
  by (induction d rs rule: backfillBatch.induct) (auto simp: scanDoc_def)

lemma backfillScan_entries:
  assumes names: "distinct (map r_name (documents db))" and scan: "backfillScan d db = Inr batch"
  shows "e \<in> set batch \<longleftrightarrow> e \<in> docEntries d db (e_doc_name e)"
proof -
  have "e \<in> set batch \<longleftrightarrow> (\<exists>r \<in> set (documents db). r_collection_id r = dCollectionID d \<and>
      (\<exists>f. UnmarshalFields (r_data r) = Inr f \<and> e \<in> set (entriesOf d (r_name r) f)))"
    using backfillBatch_entries [OF scan [unfolded backfillScan_def], of e] by auto
  also have "\<dots> \<longleftrightarrow> (\<exists>r. rowOf db (r_name r) = Some r \<and> r_collection_id r = dCollectionID d \<and>
      (\<exists>f. UnmarshalFields (r_data r) = Inr f \<and> e \<in> set (entriesOf d (r_name r) f)))"
    using row_iff [OF names] by blast
  also have "\<dots> \<longleftrightarrow> e \<in> docEntries d db (e_doc_name e)"
    unfolding in_docEntries by (metis in_entriesOf rowOf_Some)
  finally show ?thesis .
qed

lemma backfillLoad_entries:
  assumes "backfillLoad d batch (db, reg) = ((db', reg'), n)"
  shows "documents db' = documents db" "ID d \<in> set (reg_ready reg')" "byColl reg' = byColl reg"
    "set (index_entries db') = set batch \<union> {e \<in> set (index_entries db). e_index_id e \<noteq> ID d}"
    "changelog db' = changelog db"
  using assms by (auto simp: backfillLoad_def MarkIndexReady_def markReady_def Let_def)

lemma backfill_outcome:
  assumes names: "distinct (map r_name (documents db))"
  shows "case BackfillIndex d (db, reg) of
      Inl _ \<Rightarrow> \<exists>r \<in> set (documents db). r_collection_id r = dCollectionID d \<and> (\<forall>f. UnmarshalFields (r_data r) \<noteq> Inr f)
    | Inr ((db', reg'), n) \<Rightarrow>
        index_complete d db' \<and> ID d \<in> set (reg_ready reg') \<and>
        documents db' = documents db \<and> changelog db' = changelog db \<and>
        (\<forall>e. e_index_id e \<noteq> ID d \<longrightarrow> (e \<in> set (index_entries db') \<longleftrightarrow> e \<in> set (index_entries db)))"
proof (cases "backfillScan d db")
  case (Inl x)
  then have "\<not> (\<exists>batch. backfillScan d db = Inr batch)" by simp
  with backfillBatch_total [of "sort_key r_name (filter (\<lambda>r. r_collection_id r = dCollectionID d) (documents db))" d]
  show ?thesis using Inl by (auto simp: backfillScan_def BackfillIndex_def)
next
  case (Inr batch)
  obtain db' reg' n where load: "backfillLoad d batch (db, reg) = ((db', reg'), n)" by (metis surj_pair)
  note facts = backfillLoad_entries [OF load]
  have "rowOf db' = rowOf db" by (rule rowOf_cong) (rule facts(1))
  then have same: "docEntries d db' = docEntries d db" by (simp add: docEntries_def fun_eq_iff)
  have "index_complete d db'"
    unfolding index_complete_def facts(4) same using backfillScan_entries [OF names Inr] by blast
  moreover have "e_index_id e = ID d" if "e \<in> set batch" for e
    using backfillScan_entries [OF names Inr, of e] that by (auto simp: in_docEntries in_entriesOf)
  ultimately show ?thesis using Inr load facts by (auto simp: BackfillIndex_def)
qed

text \<open>
  A backfill succeeds exactly when every stored document of the collection decodes, and then
  the index holds the entries of the stored documents and no others, is marked ready in the
  registry, and the documents, the change log and the entries of other indexes are untouched.
\<close>
theorem backfill_exact:
  assumes names: "distinct (map r_name (documents db))"
  shows "case BackfillIndex d (db, reg) of
      Inl _ \<Rightarrow> \<exists>r \<in> set (documents db). r_collection_id r = dCollectionID d \<and> (\<forall>f. UnmarshalFields (r_data r) \<noteq> Inr f)
    | Inr ((db', reg'), n) \<Rightarrow>
        index_complete d db' \<and> ID d \<in> set (reg_ready reg') \<and>
        documents db' = documents db \<and> changelog db' = changelog db \<and>
        (\<forall>e. e_index_id e \<noteq> ID d \<longrightarrow> (e \<in> set (index_entries db') \<longleftrightarrow> e \<in> set (index_entries db)))"
  using assms by (rule backfill_outcome)

section \<open>Dropping a collection\<close>

abbreviation collectionNames :: "string \<Rightarrow> DB \<Rightarrow> string set" where
  "collectionNames coll db \<equiv> {r_name r | r. r \<in> set (documents db) \<and> r_collection_id r = coll}"

lemma collectionBatch_names: "set (collectionBatch coll batch db) \<subseteq> collectionNames coll db"
  by (auto simp: collectionBatch_def dest!: in_set_takeD)

lemma collectionBatch_empty: "0 < batch \<Longrightarrow> collectionBatch coll batch db = [] \<longleftrightarrow> collectionNames coll db = {}"
proof -
  have "sort_key r_name xs = [] \<longleftrightarrow> xs = []" for xs :: "DocRow list" by (metis length_0_conv length_sort)
  then show "0 < batch \<Longrightarrow> ?thesis" by (auto simp: collectionBatch_def filter_empty_conv)
qed

lemma distinct_row: "distinct (map r_name rs) \<Longrightarrow> r \<in> set rs \<Longrightarrow> r' \<in> set rs \<Longrightarrow> r_name r = r_name r' \<Longrightarrow> r = r'"
  by (simp add: distinct_map inj_on_def)

lemma dropBatch_step:
  assumes names: "distinct (map r_name (documents db))" and ns: "set ns \<subseteq> collectionNames coll db"
  shows "filter (\<lambda>r. r_collection_id r \<noteq> coll) (documents (dropBatch ns db)) = filter (\<lambda>r. r_collection_id r \<noteq> coll) (documents db)"
    and "collectionNames coll (dropBatch ns db) = collectionNames coll db - set ns"
    and "CountCollection coll db = batchRows ns db + CountCollection coll (dropBatch ns db)"
    and "distinct (map r_name (documents (dropBatch ns db)))"
proof -
  have coll: "r_collection_id r = coll" if "r \<in> set (documents db)" "r_name r \<in> set ns" for r
    using that ns distinct_row [OF names that(1)] by blast
  show "filter (\<lambda>r. r_collection_id r \<noteq> coll) (documents (dropBatch ns db)) = filter (\<lambda>r. r_collection_id r \<noteq> coll) (documents db)"
    using coll by (auto simp: dropBatch_def intro!: filter_cong)
  show "collectionNames coll (dropBatch ns db) = collectionNames coll db - set ns" by (auto simp: dropBatch_def)
  have "filter (\<lambda>r. r_name r \<in> set ns) (filter (\<lambda>r. r_collection_id r = coll) (documents db)) =
      filter (\<lambda>r. r_name r \<in> set ns) (documents db)" using coll by (auto intro!: filter_cong)
  with sum_length_filter_compl [of "\<lambda>r. r_name r \<in> set ns" "filter (\<lambda>r. r_collection_id r = coll) (documents db)"]
  show "CountCollection coll db = batchRows ns db + CountCollection coll (dropBatch ns db)"
    by (simp add: CountCollection_def batchRows_def dropBatch_def conj_commute)
  show "distinct (map r_name (documents (dropBatch ns db)))" using names by (simp add: dropBatch_def distinct_map_filter)
qed

lemma dropBatch_same [simp]:
  "changelog (dropBatch ns db) = changelog db" "collections (dropBatch ns db) = collections db"
  "index_defs (dropBatch ns db) = index_defs db"
  "index_entries (dropBatch ns db) = filter (\<lambda>e. e_doc_name e \<notin> set ns) (index_entries db)"
  by (simp_all add: dropBatch_def)

lemma dropLoop_exact:
  assumes "0 < batch" "distinct (map r_name (documents db))" "dropLoop coll batch cnt db = (db', cnt')"
  shows "documents db' = filter (\<lambda>r. r_collection_id r \<noteq> coll) (documents db) \<and> cnt' = cnt + CountCollection coll db \<and>
     index_entries db' = filter (\<lambda>e. e_doc_name e \<notin> collectionNames coll db) (index_entries db) \<and>
     changelog db' = changelog db \<and> collections db' = collections db \<and> index_defs db' = index_defs db"
  using assms
proof (induction coll batch cnt db arbitrary: db' cnt' rule: dropLoop.induct)
  case (1 coll batch cnt db)
  let ?ns = "collectionBatch coll batch db"
  show ?case
  proof (cases "?ns = []")
    case True
    then have none: "collectionNames coll db = {}" using collectionBatch_empty [OF 1(2)] by simp
    then have "filter (\<lambda>r. r_collection_id r \<noteq> coll) (documents db) = documents db" "CountCollection coll db = 0"
      by (auto simp: filter_id_conv CountCollection_def)
    with True none 1(4) show ?thesis by (simp add: dropLoop.simps)
  next
    case False
    note step = dropBatch_step [OF 1(3) collectionBatch_names [of coll batch db]]
    from False 1(4) have "dropLoop coll batch (cnt + batchRows ?ns db) (dropBatch ?ns db) = (db', cnt')"
      by (subst (asm) dropLoop.simps) (simp add: Let_def)
    from 1(1) [OF refl False 1(2) step(4) this]
    have IH: "documents db' = filter (\<lambda>r. r_collection_id r \<noteq> coll) (documents (dropBatch ?ns db))"
      "cnt' = cnt + batchRows ?ns db + CountCollection coll (dropBatch ?ns db)"
      "index_entries db' = filter (\<lambda>e. e_doc_name e \<notin> collectionNames coll (dropBatch ?ns db)) (index_entries (dropBatch ?ns db))"
      "changelog db' = changelog db" "collections db' = collections db" "index_defs db' = index_defs db"
      by simp_all
    have "index_entries db' = filter (\<lambda>e. e_doc_name e \<notin> collectionNames coll db) (index_entries db)"
      unfolding IH(3) step(2) using collectionBatch_names [of coll batch db] by (auto intro!: filter_cong)
    with IH step(1,3) show ?thesis by simp
  qed
qed

lemma drop_outcome:
  assumes names: "distinct (map r_name (documents db))" and coll: "coll \<noteq> []"
  shows "\<exists>db'. DropCollection coll batch db = Inr (db', CountCollection coll db) \<and>
     documents db' = filter (\<lambda>r. r_collection_id r \<noteq> coll) (documents db) \<and>
     index_entries db' = filter (\<lambda>e. e_doc_name e \<notin> collectionNames coll db) (index_entries db) \<and>
     collections db' = filter (\<lambda>(p, c). c \<noteq> coll) (collections db) \<and> changelog db' = changelog db \<and>
     (\<forall>d. index_complete d db \<longrightarrow> index_complete d db')"
proof -
  let ?b = "if batch \<le> 0 then 2000 else nat batch"
  obtain db1 n where loop: "dropLoop coll ?b 0 db = (db1, n)" by (metis surj_pair)
  let ?db = "db1\<lparr>collections := filter (\<lambda>(p, c). c \<noteq> coll \<or>
      (\<exists>r \<in> set (documents db1). r_collection_id r = c \<and> r_parent_path r = p)) (collections db1)\<rparr>"
  have "0 < ?b" by simp
  note facts = dropLoop_exact [OF this names loop]
  have row: "rowOf ?db n = (if n \<in> collectionNames coll db then None else rowOf db n)" for n
  proof (cases "n \<in> collectionNames coll db")
    case True
    with distinct_row [OF names] facts show ?thesis by (auto simp: rowOf_None)
  next
    case False
    then have "find (\<lambda>r. r_name r = n) (filter (\<lambda>r. r_collection_id r \<noteq> coll) (documents db)) = find (\<lambda>r. r_name r = n) (documents db)"
      by (intro find_filter_imp) auto
    with False facts show ?thesis by (auto simp: rowOf_def)
  qed
  have "index_complete d ?db" if "index_complete d db" for d
    using that row facts by (auto simp: index_complete_def in_docEntries split: if_splits)
  moreover have "collections ?db = filter (\<lambda>(p, c). c \<noteq> coll) (collections db)"
    using facts by (auto intro!: filter_cong)
  moreover have "DropCollection coll batch db = Inr (?db, n)"
    unfolding DropCollection_def loop using coll by simp
  ultimately show ?thesis using facts by (intro exI [of _ ?db]) simp
qed

text \<open>
  C17: dropping a collection terminates for every batch size; it removes exactly the documents of
  the collection and their index entries, reports how many documents there were, clears the
  registry of the collection, and every complete index stays complete. The change log is left as
  it was: the removal of these documents is not an event.
\<close>
theorem DropCollection_exact:
  assumes names: "distinct (map r_name (documents db))" and coll: "coll \<noteq> []"
  shows "\<exists>db'. DropCollection coll batch db = Inr (db', CountCollection coll db) \<and>
     documents db' = filter (\<lambda>r. r_collection_id r \<noteq> coll) (documents db) \<and>
     index_entries db' = filter (\<lambda>e. e_doc_name e \<notin> collectionNames coll db) (index_entries db) \<and>
     collections db' = filter (\<lambda>(p, c). c \<noteq> coll) (collections db) \<and> changelog db' = changelog db \<and>
     (\<forall>d. index_complete d db \<longrightarrow> index_complete d db')"
  using assms by (rule drop_outcome)

section \<open>The registry and its table\<close>

definition registered :: "DB \<Rightarrow> Def set" where
  "registered db = {d. \<exists>r \<in> set (index_defs db). ParseSpec (i_spec r) = Some d}"

definition defs_ok :: "DB \<Rightarrow> bool" where
  "defs_ok db \<longleftrightarrow> (\<forall>r \<in> set (index_defs db). \<exists>d. ParseSpec (i_spec r) = Some d \<and> ID d = i_index_id r)"

definition filed :: "(string \<times> Def list) list \<Rightarrow> string \<Rightarrow> Def set" where
  "filed m c = set (case map_of m c of None \<Rightarrow> [] | Some ds \<Rightarrow> ds)"

lemma filed_addDef: "filed (addDef d m) c = filed m c \<union> (if dCollectionID d = c then {d} else {})"
  by (auto simp: filed_def addDef_def update_conv' split: option.split)

lemma filed_Nil [simp]: "filed [] c = {}"
  by (simp add: filed_def)

lemma filed_fold: "filed (fold addDef ds m) c = filed m c \<union> {d \<in> set ds. dCollectionID d = c}"
  by (induction ds arbitrary: m) (auto simp: filed_addDef)

lemma loadLoop_filed:
  assumes "loadLoop m rdy bad rs = (m', rdy', bad')"
  shows "filed m' c = filed m c \<union> {d. dCollectionID d = c \<and> (\<exists>r \<in> set rs. ParseSpec (i_spec r) = Some d)} \<and>
    set rdy' = set rdy \<union> {ID d | d. \<exists>r \<in> set rs. i_ready r \<and> ParseSpec (i_spec r) = Some d}"
  using assms
proof (induction m rdy bad rs rule: loadLoop.induct)
  case (2 m rdy bad r rs)
  show ?case
  proof (cases "ParseSpec (i_spec r)")
    case None
    with 2 show ?thesis by simp
  next
    case (Some d)
    with 2 show ?thesis by (simp add: filed_addDef) auto
  qed
qed simp

definition defRow :: "Def \<Rightarrow> IndexDefRow" where
  "defRow d = \<lparr>i_index_id = ID d, i_collection_id = dCollectionID d, i_spec = Spec d, i_is_group = dGroup d, i_ready = False\<rparr>"

lemma registerDef_row:
  "set (index_defs (registerDef d db)) = set (index_defs db) \<union> (if ID d \<in> i_index_id ` set (index_defs db) then {} else {defRow d})"
  by (simp add: registerDef_def defRow_def)

lemma registerDef_rows:
  "set (index_defs db) \<subseteq> set (index_defs (fold registerDef ds db)) \<and>
   set (index_defs (fold registerDef ds db)) \<subseteq> set (index_defs db) \<union> defRow ` set ds \<and>
   ID ` set ds \<subseteq> i_index_id ` set (index_defs (fold registerDef ds db))"
proof (induction ds arbitrary: db)
  case (Cons d ds)
  have "ID d \<in> i_index_id ` set (index_defs (registerDef d db))" by (auto simp: registerDef_row defRow_def)
  moreover have "set (index_defs db) \<subseteq> set (index_defs (registerDef d db))"
    "set (index_defs (registerDef d db)) \<subseteq> insert (defRow d) (set (index_defs db))" by (auto simp: registerDef_row)
  ultimately show ?case using Cons.IH [of "registerDef d db"] by (auto 0 3)
qed simp

lemma defRow_simps [simp]: "i_index_id (defRow d) = ID d" "i_spec (defRow d) = Spec d" "\<not> i_ready (defRow d)"
  by (simp_all add: defRow_def)

text \<open>
  Registering definitions and loading them back agree. A registration files every definition
  under its collection and never makes an index ready; the registry that a restart rebuilds from
  the table holds what was registered before and now, and the same indexes are ready.
\<close>
theorem registry_round_trip:
  assumes set: "SetIndexes defs db = Inr (db', reg)" and safe: "\<forall>d \<in> set defs. spec_safe d"
    and rows: "defs_ok db" and ids: "inj_on ID (set defs \<union> registered db)"
  shows "set (forCollection reg c) = {d \<in> set defs. dCollectionID d = c} \<and>
    set (forCollection (fst (LoadIndexes db')) c) = {d \<in> set defs \<union> registered db. dCollectionID d = c} \<and>
    set (reg_ready reg) = set (ReadyIndexes db) \<and> set (reg_ready (fst (LoadIndexes db'))) = set (ReadyIndexes db)"
proof -
  from set have db': "db' = fold registerDef defs db" "reg = \<lparr>byColl = fold addDef defs [], reg_ready = ReadyIndexes db'\<rparr>"
    by (auto simp: SetIndexes_def Let_def split: if_splits)
  have sub: "set (index_defs db) \<subseteq> set (index_defs db')" "set (index_defs db') \<subseteq> set (index_defs db) \<union> defRow ` set defs"
    "ID ` set defs \<subseteq> i_index_id ` set (index_defs db')"
    using registerDef_rows [of db defs] unfolding db'(1) by blast+
  have row: "r \<in> set (index_defs db) \<or> (\<exists>d \<in> set defs. ParseSpec (i_spec r) = Some d \<and> ID d = i_index_id r \<and> \<not> i_ready r)"
    if "r \<in> set (index_defs db')" for r
    using sub(2) that safe ParseSpec_Spec by fastforce
  have reg': "registered db' = set defs \<union> registered db"
  proof (intro equalityI subsetI)
    fix d assume "d \<in> registered db'"
    then show "d \<in> set defs \<union> registered db" using row by (force simp: registered_def)
  next
    fix d assume d: "d \<in> set defs \<union> registered db"
    show "d \<in> registered db'"
    proof (cases "d \<in> registered db")
      case False
      with d have "ID d \<in> i_index_id ` set (index_defs db')" using sub(3) by auto
      then obtain r where r: "r \<in> set (index_defs db')" "i_index_id r = ID d" by auto
      obtain d' where d': "ParseSpec (i_spec r) = Some d'" "ID d' = ID d" "d' \<in> set defs \<union> registered db"
        using row [OF r(1)] rows r(2) unfolding defs_ok_def registered_def by force
      with ids d have "d' = d" by (auto dest: inj_onD)
      with d' r show ?thesis by (auto simp: registered_def)
    qed (use sub(1) in \<open>auto simp: registered_def\<close>)
  qed
  have ready: "set (ReadyIndexes db') = set (ReadyIndexes db)" 
    using row sub(1) by (auto simp: ReadyIndexes_def)
  obtain m rdy bad where ll: "loadLoop [] [] 0 (index_defs db') = (m, rdy, bad)" by (metis prod_cases3)
  have "set rdy = set (ReadyIndexes db)"
  proof -
    have "x \<in> set (ReadyIndexes db)" if "\<exists>r \<in> set (index_defs db'). i_ready r \<and> ParseSpec (i_spec r) = Some d" "x = ID d" for x d
    proof -
      from that obtain r where r: "r \<in> set (index_defs db)" "i_ready r" "ParseSpec (i_spec r) = Some d" using row by blast
      with rows have "ID d = i_index_id r" by (auto simp: defs_ok_def)
      with r that(2) show ?thesis by (auto simp: ReadyIndexes_def)
    qed
    moreover have "\<exists>d. x = ID d \<and> (\<exists>r \<in> set (index_defs db'). i_ready r \<and> ParseSpec (i_spec r) = Some d)" if x: "x \<in> set (ReadyIndexes db)" for x
    proof -
      from x obtain r where r: "r \<in> set (index_defs db)" "i_ready r" "x = i_index_id r" by (auto simp: ReadyIndexes_def)
      with rows obtain d where "ParseSpec (i_spec r) = Some d" "ID d = x" by (auto simp: defs_ok_def)
      with r sub(1) show ?thesis by (intro exI [of _ d]) auto
    qed
    ultimately have "{ID d | d. \<exists>r \<in> set (index_defs db'). i_ready r \<and> ParseSpec (i_spec r) = Some d} = set (ReadyIndexes db)"
      by blast
    with loadLoop_filed [OF ll, of c] show ?thesis by simp
  qed
  moreover have "filed m c = {d \<in> registered db'. dCollectionID d = c}"
    using loadLoop_filed [OF ll, of c] by (auto simp: registered_def)
  ultimately show ?thesis
    using filed_fold [of defs "[]" c] ready ll reg' by (simp add: db'(2) forCollection_def LoadIndexes_def filed_def)
qed

section \<open>An example\<close>

definition one_doc :: DB where
  "one_doc = \<lparr>documents = [\<lparr>r_name = ''n'', r_parent_path = ''p'', r_collection_id = ''c'', r_doc_id = ''d'', r_data = JObj [],
       r_create_time = 0, r_update_time = 0\<rparr>], collections = [(''p'', ''c'')], index_entries = [], index_defs = [], changelog = [], next_seq = 1\<rparr>"

definition no_indexes :: indexRegistry where
  "no_indexes = \<lparr>byColl = [], reg_ready = []\<rparr>"

theorem backfill_exact_witness:
  "\<exists>db' reg' n. BackfillIndex tags_index (one_doc, no_indexes) = Inr ((db', reg'), n) \<and> index_complete tags_index db'"
proof -
  have "UnmarshalFields (JObj []) = Inr []" by (simp add: UnmarshalFields_def decodeMapPayload.simps)
  then have "\<nexists>r. r \<in> set (documents one_doc) \<and> (\<forall>f. UnmarshalFields (r_data r) \<noteq> Inr f)" by (auto simp: one_doc_def)
  moreover have "distinct (map r_name (documents one_doc))" by (simp add: one_doc_def)
  from backfill_exact [OF this, of tags_index no_indexes]
  have "case BackfillIndex tags_index (one_doc, no_indexes) of
      Inl _ \<Rightarrow> \<exists>r. r \<in> set (documents one_doc) \<and> (\<forall>f. UnmarshalFields (r_data r) \<noteq> Inr f)
    | Inr ((db', reg'), n) \<Rightarrow> index_complete tags_index db'" by (auto split: sum.splits prod.splits)
  ultimately show ?thesis by (auto split: sum.splits prod.splits)
qed

theorem DropCollection_exact_witness:
  "\<exists>db'. DropCollection ''c'' 1 one_doc = Inr (db', 1) \<and> documents db' = [] \<and> collections db' = []"
  using DropCollection_exact [of one_doc "''c''" 1] by (auto simp: one_doc_def CountCollection_def)

theorem registry_round_trip_witness:
  "\<exists>db' reg. SetIndexes [tags_index] one_doc = Inr (db', reg) \<and>
     forCollection (fst (LoadIndexes db')) (dCollectionID tags_index) \<noteq> [] \<and> reg_ready reg = []"
proof -
  obtain db' reg where set: "SetIndexes [tags_index] one_doc = Inr (db', reg)"
    by (simp add: SetIndexes_def tags_index_def Let_def)
  have "registered one_doc = {}" "defs_ok one_doc" "ReadyIndexes one_doc = []" "spec_safe tags_index"
    by (simp_all add: registered_def defs_ok_def ReadyIndexes_def one_doc_def spec_safe_def tags_index_def)
  with registry_round_trip [OF set, of "dCollectionID tags_index"] set show ?thesis by fastforce
qed

end
