(* ===== verification/Commit.thy ===== *)
theory Commit
  imports IndexStore
begin

text \<open>
  Files \<^verbatim>\<open>store/store.go\<close> (\<^verbatim>\<open>Commit\<close>, \<^verbatim>\<open>applyCommit\<close>) and \<^verbatim>\<open>store/txn.go\<close>: a list of writes becomes one
  Postgres transaction that locks and loads the target documents, checks the versions a
  transaction has read, applies the writes in order and persists what they changed together with
  the index entries and the change events. The result is either the new tables or an error, and
  an error leaves the tables as they were.
\<close>

section \<open>Commits\<close>

fun collectTargets :: "string list \<Rightarrow> (string \<times> DocPath) list \<Rightarrow> Write list \<Rightarrow> fault + (string list \<times> (string \<times> DocPath) list)" where
  "collectTargets targets paths [] = Inr (targets, paths)"
| "collectTargets targets paths (w # ws) =
     bind_result (TargetName w) (\<lambda>name.
       if map_of paths name \<noteq> None then collectTargets targets paths ws
       else bind_result (ParseDocumentName name) (\<lambda>p.
              collectTargets (targets @ [name]) (AList.update name p paths) ws))"

definition lockSet :: "string list \<Rightarrow> (string \<times> DocPath) list \<Rightarrow> string list \<Rightarrow> string list" where
  "lockSet targets paths extraLocks = sort (targets @ filter (\<lambda>n. map_of paths n = None) extraLocks)"

definition verifyReads :: "(string \<times> time) list \<Rightarrow> (string \<times> Doc) list \<Rightarrow> bool" where
  "verifyReads verify existing =
     list_all (\<lambda>(name, want).
       (case map_of existing name of None \<Rightarrow> zeroTime | Some doc \<Rightarrow> d_UpdateTime doc) = want) verify"

definition loadState :: "(string \<times> Doc) list \<Rightarrow> string \<Rightarrow> DocState" where
  "loadState existing name =
     (case map_of existing name of
        Some doc \<Rightarrow> \<lparr>ds_Name = name, ds_Exists = True, ds_Fields = Some (d_Fields doc),
                     ds_CreateTime = d_CreateTime doc, ds_UpdateTime = d_UpdateTime doc, ds_Dirty = False\<rparr>
      | None \<Rightarrow> \<lparr>ds_Name = name, ds_Exists = False, ds_Fields = None,
                  ds_CreateTime = zeroTime, ds_UpdateTime = zeroTime, ds_Dirty = False\<rparr>)"

fun applyWrites :: "(string \<Rightarrow> DocState) \<Rightarrow> WriteResult list \<Rightarrow> Write list \<Rightarrow> time \<Rightarrow>
    fault + ((string \<Rightarrow> DocState) \<times> WriteResult list)" where
  "applyWrites states results [] commitTime = Inr (states, results)"
| "applyWrites states results (w # ws) commitTime =
     bind_result (TargetName w) (\<lambda>name.
     bind_result (Apply (states name) w commitTime) (\<lambda>(st, res).
       applyWrites (states(name := st)) (results @ [res]) ws commitTime))"

text \<open>A missing map entry is Go's zero value; a nil map marshals as an empty one.\<close>

definition pathOf :: "(string \<times> DocPath) list \<Rightarrow> string \<Rightarrow> DocPath" where
  "pathOf paths name =
     (case map_of paths name of
        None \<Rightarrow> \<lparr>dp_Name = [], dp_ParentPath = [], dp_CollectionID = [], dp_DocID = []\<rparr>
      | Some p \<Rightarrow> p)"

definition stateFields :: "DocState \<Rightarrow> Fields" where
  "stateFields st = (case ds_Fields st of None \<Rightarrow> [] | Some f \<Rightarrow> f)"

definition persistDoc ::
  "indexRegistry \<Rightarrow> nat \<Rightarrow> time \<Rightarrow> (string \<times> DocPath) list \<Rightarrow> (string \<Rightarrow> DocState) \<Rightarrow> string \<Rightarrow> DB \<Rightarrow> fault + DB" where
  "persistDoc reg xid now paths states name db =
     (let st = states name; p = pathOf paths name
      in if \<not> ds_Dirty st then Inr db
         else if ds_Exists st then
           (case MarshalFields (stateFields st) of
              Inl _ \<Rightarrow> Inl (Status InvalidArgument)
            | Inr data \<Rightarrow>
                let row = \<lparr>r_name = name, r_parent_path = dp_ParentPath p, r_collection_id = dp_CollectionID p,
                           r_doc_id = dp_DocID p, r_data = data,
                           r_create_time = ds_CreateTime st, r_update_time = ds_UpdateTime st\<rparr>
                in Inr (appendChange xid now name (dp_CollectionID p) ''write''
                     (refreshIndexEntries reg name (dp_CollectionID p) (stateFields st) False
                       (registerCollection (dp_ParentPath p) (dp_CollectionID p) (upsertDocument row db)))))
         else Inr (appendChange xid now name (dp_CollectionID p) ''delete''
                (refreshIndexEntries reg name (dp_CollectionID p) [] True (deleteDocument name db))))"

fun persistAll ::
  "indexRegistry \<Rightarrow> nat \<Rightarrow> time \<Rightarrow> (string \<times> DocPath) list \<Rightarrow> (string \<Rightarrow> DocState) \<Rightarrow> string list \<Rightarrow> DB \<Rightarrow> fault + DB" where
  "persistAll reg xid now paths states [] db = Inr db"
| "persistAll reg xid now paths states (name # names) db =
     bind_result (persistDoc reg xid now paths states name db) (persistAll reg xid now paths states names)"

definition applyCommit ::
  "indexRegistry \<Rightarrow> nat \<Rightarrow> time \<Rightarrow> Write list \<Rightarrow> string list \<Rightarrow> (string \<times> time) list \<Rightarrow> DB \<Rightarrow>
    fault + (DB \<times> WriteResult list \<times> time)" where
  "applyCommit reg xid now ws extraLocks verify db =
     (let commitTime = Truncate_us now
      in bind_result (collectTargets [] [] ws) (\<lambda>(targets, paths).
         bind_result (scanDocs (filter (\<lambda>r. r_name r \<in> set (lockSet targets paths extraLocks)) (documents db))) (\<lambda>existing.
           if \<not> verifyReads verify existing then Inl (Status Aborted)
           else bind_result (applyWrites (loadState existing) [] ws commitTime) (\<lambda>(states, results).
                bind_result (persistAll reg xid now paths states (sort targets) db) (\<lambda>db'.
                  Inr (db', results, commitTime))))))"

definition Commit :: "indexRegistry \<Rightarrow> nat \<Rightarrow> time \<Rightarrow> Write list \<Rightarrow> DB \<Rightarrow> fault + (DB \<times> WriteResult list \<times> time)" where
  "Commit reg xid now ws db = applyCommit reg xid now ws [] [] db"

section \<open>Transactions\<close>

record txnEntry =
  t_reads :: "(string \<times> time) list"
  t_created :: time

type_synonym txnRegistry = "(bytes \<times> txnEntry) list"

abbreviation (input) "txnTTL \<equiv> (300000000000 :: time)"

text \<open>The 16 random bytes of a new identifier are an argument.\<close>

definition begin_txn :: "bytes \<Rightarrow> time \<Rightarrow> txnRegistry \<Rightarrow> bytes \<times> txnRegistry" where
  "begin_txn rnd now r =
     (rnd, AList.update rnd \<lparr>t_reads = [], t_created = now\<rparr> (filter (\<lambda>(k, e). \<not> now - t_created e > txnTTL) r))"

fun recordReads :: "(string \<times> time) list \<Rightarrow> (string \<times> time) list \<Rightarrow> (string \<times> time) list" where
  "recordReads seen [] = seen"
| "recordReads seen ((name, t) # rs) =
     recordReads (if map_of seen name = None then AList.update name t seen else seen) rs"

definition record_txn :: "bytes \<Rightarrow> (string \<times> time) list \<Rightarrow> txnRegistry \<Rightarrow> fault + txnRegistry" where
  "record_txn i reads r =
     (case map_of r i of
        None \<Rightarrow> Inl (Status InvalidArgument)
      | Some e \<Rightarrow> Inr (AList.update i (e\<lparr>t_reads := recordReads (t_reads e) reads\<rparr>) r))"

definition take_txn :: "bytes \<Rightarrow> txnRegistry \<Rightarrow> fault + (txnEntry \<times> txnRegistry)" where
  "take_txn i r =
     (case map_of r i of
        None \<Rightarrow> Inl (Status InvalidArgument)
      | Some e \<Rightarrow> Inr (e, AList.delete i r))"

definition drop_txn :: "bytes \<Rightarrow> txnRegistry \<Rightarrow> txnRegistry" where
  "drop_txn i r = AList.delete i r"

text \<open>The registry changes even when the commit that follows fails.\<close>

definition CommitTxn ::
  "indexRegistry \<Rightarrow> nat \<Rightarrow> time \<Rightarrow> bytes \<Rightarrow> Write list \<Rightarrow> txnRegistry \<times> DB \<Rightarrow>
    txnRegistry \<times> (fault + (DB \<times> WriteResult list \<times> time))" where
  "CommitTxn reg xid now i ws = (\<lambda>(txns, db).
     (case take_txn i txns of
        Inl e \<Rightarrow> (txns, Inl e)
      | Inr (e, txns') \<Rightarrow> (txns', applyCommit reg xid now ws (map fst (t_reads e)) (t_reads e) db)))"

section \<open>Well-formed databases\<close>

text \<open>A data column as the encoder writes it.\<close>

definition encoded_row :: "DocRow \<Rightarrow> bool" where
  "encoded_row r \<longleftrightarrow> (\<exists>f. encodable (MapValue f) \<and> MarshalFields f = Inr (r_data r))"

definition row_ok :: "(Value \<Rightarrow> bool) \<Rightarrow> DocRow \<Rightarrow> bool" where
  "row_ok P r \<longleftrightarrow> encoded_row r \<and>
     (case ParseDocumentName (r_name r) of
        Inl _ \<Rightarrow> False
      | Inr p \<Rightarrow> r_parent_path r = dp_ParentPath p \<and> r_collection_id r = dp_CollectionID p \<and> r_doc_id r = dp_DocID p) \<and>
     (case UnmarshalFields (r_data r) of Inl _ \<Rightarrow> False | Inr f \<Rightarrow> P (MapValue f)) \<and>
     r_create_time r \<le> r_update_time r"

definition wf_db :: "(Value \<Rightarrow> bool) \<Rightarrow> DB \<Rightarrow> bool" where
  "wf_db P db \<longleftrightarrow> distinct (map r_name (documents db)) \<and> (\<forall>r \<in> set (documents db). row_ok P r)"

text \<open>The state of a document, as a commit loads it.\<close>

definition docOf :: "DB \<Rightarrow> string \<Rightarrow> Doc option" where
  "docOf db n = (case rowOf db n of None \<Rightarrow> None
     | Some r \<Rightarrow> (case scanDoc r of Inl _ \<Rightarrow> None | Inr d \<Rightarrow> Some d))"

definition stateOf :: "DB \<Rightarrow> string \<Rightarrow> DocState" where
  "stateOf db n = loadState (case docOf db n of None \<Rightarrow> [] | Some d \<Rightarrow> [(n, d)]) n"

lemma row_ok_scan: "row_ok P r \<Longrightarrow> \<exists>f. scanDoc r =
    Inr \<lparr>d_Name = r_name r, d_Fields = f, d_CreateTime = r_create_time r, d_UpdateTime = r_update_time r\<rparr> \<and>
    UnmarshalFields (r_data r) = Inr f \<and> P (MapValue f)"
  by (auto simp: row_ok_def scanDoc_def split: sum.splits)

lemma row_collection:
  assumes "wf_db P db" "rowOf db n = Some r" "ParseDocumentName n = Inr p"
  shows "r_collection_id r = dp_CollectionID p"
proof -
  from assms rowOf_Some [OF assms(2)] have "row_ok P r" "r_name r = n" by (auto simp: wf_db_def)
  with assms(3) show ?thesis by (simp add: row_ok_def)
qed

lemma scanDocsLoop_total: "\<forall>r \<in> set rs. row_ok P r \<Longrightarrow> \<exists>docs. scanDocsLoop out rs = Inr docs"
  by (induction out rs rule: scanDocsLoop.induct) (auto dest!: row_ok_scan)

lemma find_rev_distinct: "distinct (map r_name rs) \<Longrightarrow> find (\<lambda>r. r_name r = n) (rev rs) = find (\<lambda>r. r_name r = n) rs"
  by (induction rs) (auto simp: find_append find_None_iff find_None_iff2 split: option.split dest!: find_Some_iff [THEN iffD1])

lemma scanDocs_rows:
  assumes "wf_db P db"
  obtains docs where "scanDocs (filter (\<lambda>r. r_name r \<in> S) (documents db)) = Inr docs"
    and "\<And>n. map_of docs n = (if n \<in> S then docOf db n else None)"
proof -
  let ?rs = "filter (\<lambda>r. r_name r \<in> S) (documents db)"
  from assms have ok: "distinct (map r_name ?rs)" "\<forall>r \<in> set ?rs. row_ok P r"
    by (auto simp: wf_db_def distinct_map_filter)
  from scanDocsLoop_total [OF ok(2)] obtain docs where docs: "scanDocsLoop [] ?rs = Inr docs" by blast
  have "find (\<lambda>r. r_name r = n) ?rs = (if n \<in> S then rowOf db n else None)" for n
    by (auto simp: rowOf_def find_None_iff intro: find_filter_imp)
  then have "map_of docs n = (if n \<in> S then docOf db n else None)" for n
    unfolding scanDocsLoop_map_of [OF docs] find_rev_distinct [OF ok(1)] docOf_def
    by (simp split: option.split sum.split)
  with docs that show ?thesis by (simp add: scanDocs_def)
qed

lemma stateOf_cases:
  assumes "wf_db P db"
  obtains (missing) "rowOf db n = None" "docOf db n = None"
      "stateOf db n = \<lparr>ds_Name = n, ds_Exists = False, ds_Fields = None, ds_CreateTime = zeroTime, ds_UpdateTime = zeroTime, ds_Dirty = False\<rparr>"
  | (present) r f where "rowOf db n = Some r" "row_ok P r" "UnmarshalFields (r_data r) = Inr f" "P (MapValue f)"
      "stateOf db n = \<lparr>ds_Name = n, ds_Exists = True, ds_Fields = Some f, ds_CreateTime = r_create_time r, ds_UpdateTime = r_update_time r, ds_Dirty = False\<rparr>"
proof (cases "rowOf db n")
  case None
  then show thesis using missing by (simp add: docOf_def stateOf_def loadState_def)
next
  case (Some r)
  with assms have "row_ok P r" using rowOf_Some [OF Some] by (simp add: wf_db_def)
  from row_ok_scan [OF this] this show thesis using present Some by (auto simp: docOf_def stateOf_def loadState_def)
qed

section \<open>Targets and states\<close>

definition parsed :: "string \<Rightarrow> DocPath option" where
  "parsed n = (case ParseDocumentName n of Inl _ \<Rightarrow> None | Inr p \<Rightarrow> Some p)"

definition writeNames :: "Write list \<Rightarrow> string set" where
  "writeNames ws = {n. \<exists>w \<in> set ws. TargetName w = Inr n}"

lemma writeNames_simps [simp]:
  "writeNames [] = {}" "TargetName w = Inr n \<Longrightarrow> writeNames (w # ws) = insert n (writeNames ws)"
  by (auto simp: writeNames_def)

lemma finite_targets [simp]: "finite (writeNames ws)"
proof (rule finite_subset)
  show "writeNames ws \<subseteq> (\<lambda>w. case TargetName w of Inr n \<Rightarrow> n | Inl _ \<Rightarrow> []) ` set ws"
    by (force simp: writeNames_def image_iff)
qed simp

definition paths_of :: "string list \<Rightarrow> (string \<times> DocPath) list \<Rightarrow> bool" where
  "paths_of targets paths \<longleftrightarrow>
     distinct targets \<and> (\<forall>n. map_of paths n = (if n \<in> set targets then parsed n else None)) \<and>
     (\<forall>n \<in> set targets. parsed n \<noteq> None)"

lemma set_lockSet:
  "paths_of targets paths \<Longrightarrow> set (lockSet targets paths extra) = set targets \<union> set extra"
  by (auto simp: lockSet_def paths_of_def)

lemma collectTargets_spec:
  assumes "collectTargets targets paths ws = Inr (targets', paths')" "paths_of targets paths"
  shows "paths_of targets' paths' \<and> set targets' = set targets \<union> writeNames ws"
  using assms
proof (induction targets paths ws arbitrary: targets' paths' rule: collectTargets.induct)
  case (2 targets paths w ws)
  from 2(3) obtain n where n: "TargetName w = Inr n" by (auto simp: bind_result_Inr)
  show ?case
  proof (cases "map_of paths n = None")
    case False
    then have "n \<in> set targets" using 2(4) by (auto simp: paths_of_def split: if_splits)
    with 2(1) [OF False] 2(3,4) n False show ?thesis by auto
  next
    case True
    with 2(3) n obtain p where p: "ParseDocumentName n = Inr p"
      and rest: "collectTargets (targets @ [n]) (AList.update n p paths) ws = Inr (targets', paths')"
      by (auto simp: bind_result_Inr)
    have "n \<notin> set targets" using True 2(4) by (auto simp: paths_of_def)
    with p 2(4) have "paths_of (targets @ [n]) (AList.update n p paths)"
      by (auto simp: paths_of_def parsed_def update_conv')
    from 2(2) [OF _ rest this] True n show ?thesis by auto
  qed
qed auto

lemma collectTargets_no_panic: "collectTargets targets paths ws \<noteq> Inl Panic"
proof (induction targets paths ws rule: collectTargets.induct)
  case (2 targets paths w ws)
  have "TargetName w \<noteq> Inl Panic" by (simp add: TargetName_def split: Operation.split)
  moreover have "ParseDocumentName n \<noteq> Inl Panic" for n by (simp add: ParseDocumentName_def Let_def)
  ultimately show ?case using 2 by (cases "TargetName w") (auto simp: bind_result_def split: sum.splits)
qed simp

text \<open>Writes only touch the states of their targets.\<close>

lemma applyWrites_override:
  "writeNames ws \<subseteq> A \<Longrightarrow>
   applyWrites (override_on u s A) rs ws t =
     map_sum id (\<lambda>(S, R). (override_on u S A, R)) (applyWrites s rs ws t)"
proof (induction ws arbitrary: s rs)
  case (Cons w ws)
  show ?case
  proof (cases "TargetName w")
    case (Inr n)
    with Cons.prems have n: "n \<in> A" "writeNames ws \<subseteq> A" by simp_all
    have "(override_on u s A)(n := st) = override_on u (s(n := st)) A" for st using n(1) by (auto simp: override_on_def)
    then have "applyWrites ((override_on u s A)(n := st)) (rs @ [res]) ws t =
        map_sum id (\<lambda>(S, R). (override_on u S A, R)) (applyWrites (s(n := st)) (rs @ [res]) ws t)" for st res
      using Cons.IH [OF n(2), of "s(n := st)" "rs @ [res]"] by (simp only:)
    with Inr n(1) show ?thesis by (cases "Apply (s n) w t") (simp_all add: split_def id_def)
  qed simp
qed simp

text \<open>
  The states during a commit: an untouched state is the loaded one, a touched one was written at
  the commit time.
\<close>

definition during :: "(Value \<Rightarrow> bool) \<Rightarrow> time \<Rightarrow> (string \<Rightarrow> DocState) \<Rightarrow> (string \<Rightarrow> DocState) \<Rightarrow> string set \<Rightarrow> bool" where
  "during P t s0 s A \<longleftrightarrow>
     (\<forall>n. ready P (s n) t \<and> ds_Dirty (s n) = (n \<in> A) \<and> (n \<notin> A \<longrightarrow> s n = s0 n) \<and>
          (n \<in> A \<longrightarrow> ds_Exists (s n) \<longrightarrow> ds_UpdateTime (s n) = t))"

context write_closed
begin

lemma applyWrites_during:
  assumes "during P t s0 s A" "\<forall>w \<in> set ws. write_ok P w"
  shows "ensures (applyWrites s rs ws t) (\<lambda>(S, R). during P t s0 S (A \<union> writeNames ws))"
  using assms
proof (induction ws arbitrary: s rs A)
  case (Cons w ws)
  have tn: "TargetName w \<noteq> Inl Panic" by (simp add: TargetName_def split: Operation.split)
  show ?case
  proof (cases "TargetName w")
    case (Inr n)
    have "ready P (s n) t" using Cons.prems(1) by (simp add: during_def)
    from Apply_wf [OF this, of w] Cons.prems(2)
    have "ensures (Apply (s n) w t) (\<lambda>(st', wr). written P (s n) t (\<not> isDelete (w_Operation w)) st')"
      by (auto elim!: ensures_mono)
    then have "ensures (bind_result (Apply (s n) w t) (\<lambda>(st, res). applyWrites (s(n := st)) (rs @ [res]) ws t))
       (\<lambda>(S, R). during P t s0 S (A \<union> writeNames (w # ws)))"
    proof (rule ensures_bind, clarify)
      fix st res assume "written P (s n) t (\<not> isDelete (w_Operation w)) st"
      with Cons.prems(1) have "during P t s0 (s(n := st)) (insert n A)"
        by (auto simp: during_def written_def ready_def)
      from Cons.IH [OF this, of "rs @ [res]"] Cons.prems(2)
      have "ensures (applyWrites (s(n := st)) (rs @ [res]) ws t) (\<lambda>(S, R). during P t s0 S (insert n A \<union> writeNames ws))"
        by (simp del: fun_upd_apply)
      with Inr show "ensures (applyWrites (s(n := st)) (rs @ [res]) ws t) (\<lambda>(S, R). during P t s0 S (A \<union> writeNames (w # ws)))"
        by simp
    qed
    with Inr show ?thesis by simp
  qed (use tn in auto)
qed simp

end

section \<open>What is persisted\<close>

lemma shape_unique: "shape_value v \<Longrightarrow> unique_keys v"
  by (induction v rule: shape_value.induct) auto

lemma shape_canon: "shape_value v \<Longrightarrow> shape_value (canonValue v)"
proof (induction v rule: shape_value.induct)
  case (1 s n)
  then show ?case using shape_tsValue [unfolded tsValue_def] by simp
next
  case (4 m)
  then show ?case by (auto simp: comp_def)
qed (auto simp: canonNaN_def)

lemma wf_db_iff: "wf_db P db \<longleftrightarrow> distinct (map r_name (documents db)) \<and> (\<forall>n r. rowOf db n = Some r \<longrightarrow> row_ok P r)"
  using row_iff [of db] rowOf_Some [of db] unfolding wf_db_def by metis

definition stored :: "DocState \<Rightarrow> DocRow option \<Rightarrow> bool" where
  "stored st ro \<longleftrightarrow>
     (if ds_Exists st
      then \<exists>r. ro = Some r \<and> UnmarshalFields (r_data r) = Inr (canonFields (stateFields st)) \<and>
               r_update_time r = ds_UpdateTime st
      else ro = None)"

definition clock_ok :: "time \<Rightarrow> DB \<Rightarrow> bool" where
  "clock_ok t db \<longleftrightarrow> (\<forall>n r. rowOf db n = Some r \<longrightarrow> r_create_time r \<le> t)"

definition change :: "nat \<Rightarrow> nat \<Rightarrow> time \<Rightarrow> (string \<Rightarrow> DocState) \<Rightarrow> string \<Rightarrow> Change" where
  "change s xid at states n =
     \<lparr>c_seq = s, c_xid = xid, c_doc_name = n, c_collection_id = (case parsed n of None \<Rightarrow> [] | Some p \<Rightarrow> dp_CollectionID p),
      c_kind = (if ds_Exists (states n) then ''write'' else ''delete''), c_at = at\<rparr>"

text \<open>
  A registry files each definition under its collection, and identifiers, which are hashes, do
  not collide.
\<close>

definition registry_ok :: "indexRegistry \<Rightarrow> bool" where
  "registry_ok reg \<longleftrightarrow>
     (\<forall>c. \<forall>d \<in> set (forCollection reg c). dCollectionID d = c) \<and>
     inj_on ID {d. \<exists>c. d \<in> set (forCollection reg c)}"

lemma index_complete_append: "index_complete d (appendChange x a n c k db) = index_complete d db"
  by (simp add: index_complete_def in_docEntries rowOf_def)

lemma rowOf_append:
  "rowOf (appendChange x a n c k db) = rowOf db" "rowOf (refreshIndexEntries reg n c f del db) = rowOf db"
  by (simp_all add: rowOf_def fun_eq_iff)

text \<open>
  A property of values that writes keep and that survives the trip through the data column.
  Everything about a commit is proved once for such a property.
\<close>

locale stored_closed = write_closed P t for P :: "Value \<Rightarrow> bool" and t :: time +
  assumes P_shape: "P v \<Longrightarrow> shape_value v"
    and P_canon: "P v \<Longrightarrow> encodable v \<Longrightarrow> P (canonValue v)"
begin

lemma row_ok_upsert:
  assumes p: "ParseDocumentName n = Inr p" and st: "ready P st t" "ds_Exists st" "ds_UpdateTime st = t"
    and data: "MarshalFields (stateFields st) = Inr data"
    and old: "case ro of None \<Rightarrow> r = \<lparr>r_name = n, r_parent_path = dp_ParentPath p, r_collection_id = dp_CollectionID p,
                           r_doc_id = dp_DocID p, r_data = data, r_create_time = ds_CreateTime st, r_update_time = ds_UpdateTime st\<rparr>
       | Some r0 \<Rightarrow> row_ok P r0 \<and> r_name r0 = n \<and> r_create_time r0 \<le> t \<and> r = r0\<lparr>r_data := data, r_update_time := ds_UpdateTime st\<rparr>"
  shows "row_ok P r \<and> UnmarshalFields (r_data r) = Inr (canonFields (stateFields st)) \<and> r_update_time r = t \<and> r_create_time r \<le> t"
proof -
  from st have shape: "P (MapValue (stateFields st))" "ds_CreateTime st \<le> t"
    by (auto simp: ready_def state_ok_def stateFields_def split: option.splits)
  have enc: "encodable (MapValue (stateFields st))" by (rule Marshal_encodable [OF data shape_unique [OF P_shape [OF shape(1)]]])
  from Unmarshal_Marshal [OF enc] data have un: "UnmarshalFields data = Inr (canonFields (stateFields st))" by fastforce
  moreover have "P (MapValue (canonFields (stateFields st)))"
    using P_canon [OF shape(1) enc] by (simp add: canonFields_def)
  moreover have "encoded_row r"
    using enc data old unfolding encoded_row_def by (intro exI [of _ "stateFields st"]) (auto split: option.splits)
  ultimately show ?thesis
    using p st(3) shape(2) old by (cases ro) (auto simp: row_ok_def split: sum.splits)
qed

lemma persistDoc_stored:
  assumes persist: "persistDoc reg xid now paths states n db = Inr db'" and wf: "wf_db P db" "clock_ok t db"
    and st: "ready P (states n) t" "ds_Dirty (states n)" "ds_Exists (states n) \<Longrightarrow> ds_UpdateTime (states n) = t"
    and p: "map_of paths n = Some p" "ParseDocumentName n = Inr p"
  shows "wf_db P db' \<and> clock_ok t db' \<and> stored (states n) (rowOf db' n) \<and> (\<forall>m. m \<noteq> n \<longrightarrow> rowOf db' m = rowOf db m) \<and>
     changelog db' = changelog db @ [change (next_seq db) xid now states n] \<and> next_seq db' = Suc (next_seq db)"
proof (cases "ds_Exists (states n)")
  case True
  with persist st(2) obtain data where data: "MarshalFields (stateFields (states n)) = Inr data"
    by (auto simp: persistDoc_def Let_def split: sum.splits)
  define row where "row = \<lparr>r_name = n, r_parent_path = dp_ParentPath p, r_collection_id = dp_CollectionID p,
     r_doc_id = dp_DocID p, r_data = data, r_create_time = ds_CreateTime (states n), r_update_time = ds_UpdateTime (states n)\<rparr>"
  define r where "r = (case rowOf db n of None \<Rightarrow> row
     | Some r0 \<Rightarrow> r0\<lparr>r_data := data, r_update_time := ds_UpdateTime (states n)\<rparr>)"
  have db': "documents db' = documents (upsertDocument row db)"
    "changelog db' = changelog db @ [change (next_seq db) xid now states n]" "next_seq db' = Suc (next_seq db)"
    using persist True st(2) data p
    by (auto simp: persistDoc_def Let_def pathOf_def row_def appendChange_def change_def parsed_def)
  have rows: "rowOf db' m = (if m = n then Some r else rowOf db m)" for m
    unfolding rowOf_cong [OF db'(1)] rowOf_upsert by (auto simp: row_def r_def split: option.split)
  have "row_ok P r \<and> UnmarshalFields (r_data r) = Inr (canonFields (stateFields (states n))) \<and> r_update_time r = t \<and> r_create_time r \<le> t"
    using wf rowOf_Some [of db n]
    by (intro row_ok_upsert [OF p(2) st(1) True st(3) [OF True] data, where ro = "rowOf db n"])
       (auto simp: r_def row_def wf_db_def clock_ok_def split: option.split)
  with True rows st(3) wf db' names_upsert [of db row] show ?thesis
    by (auto simp: wf_db_iff [of P] stored_def clock_ok_def)
next
  case False
  then have db': "documents db' = documents (deleteDocument n db)"
    "changelog db' = changelog db @ [change (next_seq db) xid now states n]" "next_seq db' = Suc (next_seq db)"
    using persist st(2) p by (auto simp: persistDoc_def Let_def pathOf_def appendChange_def change_def parsed_def)
  have "rowOf db' m = (if m = n then None else rowOf db m)" for m
    unfolding rowOf_cong [OF db'(1)] by (rule rowOf_delete)
  with False wf db' names_delete [of db n] show ?thesis
    by (auto simp: wf_db_iff [of P] stored_def clock_ok_def)
qed

lemma persistAll_stored:
  assumes "persistAll reg xid now paths states names db = Inr db'" "wf_db P db" "clock_ok t db" "distinct names"
    and "\<forall>n \<in> set names. ready P (states n) t \<and> ds_Dirty (states n) \<and>
      (ds_Exists (states n) \<longrightarrow> ds_UpdateTime (states n) = t) \<and> (\<exists>p. map_of paths n = Some p \<and> ParseDocumentName n = Inr p)"
  shows "wf_db P db' \<and> clock_ok t db' \<and> (\<forall>n \<in> set names. stored (states n) (rowOf db' n)) \<and>
     (\<forall>n. n \<notin> set names \<longrightarrow> rowOf db' n = rowOf db n) \<and>
     changelog db' = changelog db @ map2 (\<lambda>s n. change s xid now states n) [next_seq db..<next_seq db + length names] names"
  using assms
proof (induction names arbitrary: db)
  case (Cons n ns)
  from Cons.prems(1) obtain db1 where db1: "persistDoc reg xid now paths states n db = Inr db1"
    "persistAll reg xid now paths states ns db1 = Inr db'" by (auto simp: bind_result_Inr)
  from Cons.prems(5) obtain p where "map_of paths n = Some p" "ParseDocumentName n = Inr p" by auto
  from persistDoc_stored [OF db1(1) Cons.prems(2,3) _ _ _ this] Cons.prems(5)
  have first: "wf_db P db1" "clock_ok t db1" "stored (states n) (rowOf db1 n)" "\<And>m. m \<noteq> n \<Longrightarrow> rowOf db1 m = rowOf db m"
    "changelog db1 = changelog db @ [change (next_seq db) xid now states n]" "next_seq db1 = Suc (next_seq db)" by auto
  have "distinct ns" "n \<notin> set ns" using Cons.prems(4) by auto
  with Cons.IH [OF db1(2) first(1,2)] Cons.prems(5) first show ?case
    by (auto simp: upt_rec [of "next_seq db"] simp del: upt.simps)
qed simp

lemma persistDoc_cong: "s n = s' n \<Longrightarrow> persistDoc reg xid now paths s n = persistDoc reg xid now paths s' n"
  by (simp add: persistDoc_def fun_eq_iff)

lemma persistAll_cong:
  "(\<And>n. n \<in> set ns \<Longrightarrow> s n = s' n) \<Longrightarrow> persistAll reg xid now paths s ns db = persistAll reg xid now paths s' ns db"
proof (induction ns arbitrary: db)
  case (Cons n ns)
  then show ?case using persistDoc_cong [of s n s'] by (cases "persistDoc reg xid now paths s' n db") auto
qed simp

section \<open>A successful commit\<close>

lemma stateOf_during:
  assumes "wf_db P db" "clock_ok t db"
  shows "during P t (stateOf db) (stateOf db) {}"
proof -
  have "ready P (stateOf db n) t \<and> \<not> ds_Dirty (stateOf db n)" for n
    using assms(1) by (rule stateOf_cases [of P db n])
      (use assms(2) in \<open>auto simp: ready_def state_ok_def clock_ok_def row_ok_def\<close>)
  then show ?thesis by (simp add: during_def)
qed

lemma loadState_override:
  assumes "\<And>n. map_of docs n = (if n \<in> S then docOf db n else None)"
  shows "loadState docs = override_on (loadState []) (stateOf db) S"
  using assms by (auto simp: fun_eq_iff override_on_def stateOf_def loadState_def split: option.split)

lemma applyCommit_unfold:
  assumes wf: "wf_db P db" "clock_ok t db" "Truncate_us now = t" and ws: "\<forall>w \<in> set ws. write_ok P w"
    and commit: "applyCommit reg xid now ws extra verify db = Inr (db', results, ct)"
  obtains targets paths S where "paths_of targets paths" "set targets = writeNames ws" "ct = t"
    "applyWrites (stateOf db) [] ws ct = Inr (S, results)" "during P ct (stateOf db) S (writeNames ws)"
    "persistAll reg xid now paths S (sort targets) db = Inr db'"
    "\<And>n want. (n, want) \<in> set verify \<Longrightarrow> n \<in> writeNames ws \<union> set extra \<Longrightarrow> version db n = want"
proof -
  from commit obtain targets paths where ct: "collectTargets [] [] ws = Inr (targets, paths)"
    unfolding applyCommit_def by (auto simp: bind_result_Inr Let_def)
  from collectTargets_spec [OF ct] have t: "paths_of targets paths" "set targets = writeNames ws"
    by (simp_all add: paths_of_def)
  let ?L = "set (lockSet targets paths extra)"
  from scanDocs_rows [OF wf(1), of ?L] obtain docs
    where docs: "scanDocs (filter (\<lambda>r. r_name r \<in> ?L) (documents db)) = Inr docs"
      "\<And>n. map_of docs n = (if n \<in> ?L then docOf db n else None)" by blast
  have sub: "writeNames ws \<subseteq> ?L" "set extra \<subseteq> ?L" using set_lockSet [OF t(1), of extra] t(2) by auto
  from commit ct docs(1) obtain states where
    c: "verifyReads verify docs" "applyWrites (loadState docs) [] ws t = Inr (states, results)"
      "persistAll reg xid now paths states (sort targets) db = Inr db'" "ct = t"
    unfolding applyCommit_def wf(3) by (auto simp: bind_result_Inr Let_def split: if_splits)
  from c(2) obtain S where S: "applyWrites (stateOf db) [] ws ct = Inr (S, results)" "states = override_on (loadState []) S ?L"
    unfolding loadState_override [OF docs(2)] applyWrites_override [OF sub(1)] c(4)
    by (cases "applyWrites (stateOf db) [] ws t") auto
  from applyWrites_during [OF stateOf_during [OF wf(1,2)] ws, of "[]"]
  have "during P ct (stateOf db) S (writeNames ws)"
    using S(1) c(4) by (auto dest: ensures_Inr)
  moreover have "states n = S n" if "n \<in> set (sort targets)" for n
    using that sub(1) t(2) by (auto simp: S(2) override_on_def)
  then have "persistAll reg xid now paths S (sort targets) db = Inr db'"
    using c(3) persistAll_cong [of "sort targets" states S] by metis
  moreover have "version db n = want" if "(n, want) \<in> set verify" "n \<in> writeNames ws \<union> set extra" for n want
  proof -
    have "(case docOf db n of None \<Rightarrow> zeroTime | Some doc \<Rightarrow> d_UpdateTime doc) = want"
      using c(1) that sub docs(2) [of n] by (fastforce simp: verifyReads_def list_all_iff)
    with wf(1) show ?thesis
      by (cases rule: stateOf_cases [of P db n]) (auto simp: version_def docOf_def scanDoc_def)
  qed
  ultimately show thesis using that [OF t c(4) S(1)] by blast
qed

lemma applyCommit_no_panic:
  assumes wf: "wf_db P db" "clock_ok t db" "Truncate_us now = t" and ws: "\<forall>w \<in> set ws. write_ok P w"
  shows "ensures (applyCommit reg xid now ws extra verify db) (\<lambda>_. True)"
proof (cases "collectTargets [] [] ws")
  case (Inl e)
  with collectTargets_no_panic [of "[]" "[]" ws] show ?thesis by (simp add: applyCommit_def)
next
  case (Inr tp)
  obtain targets paths where tp: "tp = (targets, paths)" by (cases tp)
  have t: "paths_of targets paths" "set targets = writeNames ws"
    using collectTargets_spec [OF Inr [unfolded tp]] by (simp_all add: paths_of_def)
  let ?L = "set (lockSet targets paths extra)"
  from scanDocs_rows [OF wf(1), of ?L] obtain docs
    where docs: "scanDocs (filter (\<lambda>r. r_name r \<in> ?L) (documents db)) = Inr docs"
      "\<And>n. map_of docs n = (if n \<in> ?L then docOf db n else None)" by blast
  have sub: "writeNames ws \<subseteq> ?L" using set_lockSet [OF t(1)] t(2) by auto
  have "ensures (applyWrites (stateOf db) [] ws t) (\<lambda>_. True)"
    using applyWrites_during [OF stateOf_during [OF wf(1,2)] ws] by (rule ensures_mono) simp
  then have "ensures (applyWrites (loadState docs) [] ws t) (\<lambda>_. True)"
    unfolding loadState_override [OF docs(2)] applyWrites_override [OF sub]
    by (cases "applyWrites (stateOf db) [] ws t") auto
  moreover have "ensures (persistDoc reg xid now paths s n db) (\<lambda>_. True)" for s n db
    by (simp add: persistDoc_def Let_def split: sum.split)
  then have "ensures (persistAll reg xid now paths s ns db) (\<lambda>_. True)" for s ns db
    by (induction ns arbitrary: db) (auto intro!: ensures_bind [where P = "\<lambda>_. True"])
  ultimately show ?thesis
    using Inr tp docs(1) by (auto simp: applyCommit_def wf(3) Let_def intro!: ensures_bind [where P = "\<lambda>_. True"])
qed

lemma commit_stored:
  assumes wf: "wf_db P db" "clock_ok t db" "Truncate_us now = t" and ws: "\<forall>w \<in> set ws. write_ok P w"
    and commit: "applyCommit reg xid now ws extra verify db = Inr (db', results, ct)"
  obtains S where "ct = t" "wf_db P db'" "clock_ok ct db'"
    "applyWrites (stateOf db) [] ws ct = Inr (S, results)"
    "\<And>n. n \<in> writeNames ws \<Longrightarrow> stored (S n) (rowOf db' n)" "\<And>n. n \<in> writeNames ws \<Longrightarrow> parsed n \<noteq> None"
    "\<And>n. n \<in> writeNames ws \<Longrightarrow> ds_Exists (S n) \<Longrightarrow> ds_UpdateTime (S n) = ct"
    "\<And>n. n \<notin> writeNames ws \<Longrightarrow> rowOf db' n = rowOf db n"
    "changelog db' = changelog db @ map2 (\<lambda>s n. change s xid now S n)
       [next_seq db..<next_seq db + card (writeNames ws)] (sorted_list_of_set (writeNames ws))"
proof -
  from applyCommit_unfold [OF wf ws commit] obtain targets paths S where
    t: "paths_of targets paths" "set targets = writeNames ws" "ct = t"
    and S: "applyWrites (stateOf db) [] ws ct = Inr (S, results)" "during P ct (stateOf db) S (writeNames ws)"
    and persist: "persistAll reg xid now paths S (sort targets) db = Inr db'" by metis
  have d: "distinct targets" using t(1) by (simp add: paths_of_def)
  then have sorted: "sort targets = sorted_list_of_set (writeNames ws)" "length targets = card (writeNames ws)"
    using t(2) distinct_card [of targets] by (auto simp: sorted_list_of_set_sort_remdups distinct_remdups_id simp flip: t(2))
  have "\<exists>p. map_of paths n = Some p \<and> ParseDocumentName n = Inr p" if "n \<in> set targets" for n
    using t(1) that by (auto simp: paths_of_def parsed_def split: sum.splits option.splits)
  with S(2) t(2) have "\<forall>n \<in> set (sort targets). ready P (S n) t \<and> ds_Dirty (S n) \<and>
      (ds_Exists (S n) \<longrightarrow> ds_UpdateTime (S n) = t) \<and> (\<exists>p. map_of paths n = Some p \<and> ParseDocumentName n = Inr p)"
    unfolding during_def t(3) by auto
  from persistAll_stored [OF persist wf(1) _ _ this] wf(2) t(3) d
  have facts: "wf_db P db'" "clock_ok ct db'" "\<And>n. n \<in> set targets \<Longrightarrow> stored (S n) (rowOf db' n)"
    "\<And>n. n \<notin> set targets \<Longrightarrow> rowOf db' n = rowOf db n"
    "changelog db' = changelog db @ map2 (\<lambda>s n. change s xid now S n) [next_seq db..<next_seq db + length targets] (sort targets)"
    by auto
  have "parsed n \<noteq> None" if "n \<in> set targets" for n using t(1) that by (simp add: paths_of_def)
  moreover have "ds_UpdateTime (S n) = ct" if "n \<in> writeNames ws" "ds_Exists (S n)" for n
    using S(2) that by (simp add: during_def)
  ultimately show thesis using facts [unfolded sorted t(2)] t(2) that [OF t(3) _ _ S(1)] by blast
qed

lemma persistDoc_index:
  assumes persist: "persistDoc reg xid now paths states n db = Inr db'" and wf: "wf_db P db" "clock_ok t db"
    and st: "ready P (states n) t" "ds_Dirty (states n)" "ds_Exists (states n) \<Longrightarrow> ds_UpdateTime (states n) = t"
    and p: "map_of paths n = Some p" "ParseDocumentName n = Inr p"
    and exact: "\<And>v. P v \<Longrightarrow> exactValue v"
    and reg: "registry_ok reg" and d: "d \<in> set (forCollection reg (dCollectionID d))" and complete: "index_complete d db"
  shows "index_complete d db'"
proof -
  have canon: "canonFields (stateFields (states n)) = stateFields (states n)" if ex: "ds_Exists (states n)"
  proof -
    have P: "P (MapValue (stateFields (states n)))"
      using st(1) ex by (auto simp: ready_def state_ok_def stateFields_def split: option.splits)
    obtain data where "MarshalFields (stateFields (states n)) = Inr data"
      using persist st(2) ex by (auto simp: persistDoc_def Let_def split: sum.splits)
    from Marshal_encodable [OF this shape_unique [OF P_shape [OF P]]] canonValue_exact exact [OF P]
    show ?thesis by (fastforce simp: canonFields_def)
  qed
  let ?del = "\<not> ds_Exists (states n)" and ?f = "if ds_Exists (states n) then stateFields (states n) else []"
  obtain db1 where db1: "index_complete d (refreshIndexEntries reg n (dp_CollectionID p) ?f ?del db1) \<longleftrightarrow> index_complete d db'"
    "index_entries db1 = index_entries db" "rowOf db1 = rowOf db'"
    using persist st(2) p
    by (cases "ds_Exists (states n)")
       (auto simp: persistDoc_def Let_def pathOf_def index_complete_append rowOf_append split: sum.splits)
  note facts = persistDoc_stored [OF persist wf st p, THEN conjunct1]
    persistDoc_stored [OF persist wf st p, THEN conjunct2, THEN conjunct2]
  have rows: "rowOf db1 m = rowOf db m" if "m \<noteq> n" for m using facts(2) db1(3) that by simp
  have coll: "r_collection_id r = dp_CollectionID p" if "rowOf db n = Some r \<or> rowOf db1 n = Some r" for r
    using that row_collection [OF wf(1) _ p(2)] row_collection [OF facts(1) _ p(2)] db1(3) by auto
  show ?thesis
  proof (cases "dp_CollectionID p = dCollectionID d")
    case True
    obtain r where new: "rowOf db1 n = (if ?del then None else Some r)"
      "\<not> ?del \<Longrightarrow> r_collection_id r = dp_CollectionID p \<and> UnmarshalFields (r_data r) = Inr ?f"
      using facts(2) canon coll db1(3) by (cases "ds_Exists (states n)") (auto simp: stored_def)
    have "distinct_ids (forCollection reg (dp_CollectionID p))"
      using reg unfolding registry_ok_def distinct_ids_def by (auto intro: inj_on_subset)
    from refresh_keeps_complete [OF complete rows db1(2) _ this True new] d True db1(1) show ?thesis by simp
  next
    case False
    have "docEntries d db n = {}" "docEntries d db1 n = {}"
      using coll False by (auto simp: docEntries_def split: option.split)
    moreover have "ID d' \<noteq> ID d" if d': "d' \<in> set (forCollection reg (dp_CollectionID p))" for d'
    proof
      assume "ID d' = ID d"
      with reg d d' have "d' = d" unfolding registry_ok_def by (blast dest: inj_onD)
      with reg d' False show False unfolding registry_ok_def by simp
    qed
    ultimately show ?thesis using other_collection_complete [OF complete rows db1(2)] db1(1) by simp
  qed
qed

lemma persistAll_index:
  assumes "persistAll reg xid now paths states names db = Inr db'" "wf_db P db" "clock_ok t db"
    and "\<forall>n \<in> set names. ready P (states n) t \<and> ds_Dirty (states n) \<and>
      (ds_Exists (states n) \<longrightarrow> ds_UpdateTime (states n) = t) \<and>
      (\<exists>p. map_of paths n = Some p \<and> ParseDocumentName n = Inr p)"
    and exact: "\<And>v. P v \<Longrightarrow> exactValue v"
    and "registry_ok reg" "d \<in> set (forCollection reg (dCollectionID d))" "index_complete d db"
  shows "index_complete d db'"
  using assms
proof (induction names arbitrary: db)
  case (Cons n ns)
  from Cons.prems(1) obtain db1 where db1: "persistDoc reg xid now paths states n db = Inr db1"
    "persistAll reg xid now paths states ns db1 = Inr db'" by (auto simp: bind_result_Inr)
  from Cons.prems(4) obtain p where p: "map_of paths n = Some p" "ParseDocumentName n = Inr p" by auto
  from Cons.prems(4) have st: "ready P (states n) t" "ds_Dirty (states n)" "ds_Exists (states n) \<Longrightarrow> ds_UpdateTime (states n) = t" by auto
  note one = persistDoc_index [OF db1(1) Cons.prems(2,3) st p exact Cons.prems(6-8)]
    persistDoc_stored [OF db1(1) Cons.prems(2,3) st p]
  with Cons.IH [OF db1(2) _ _ _ exact Cons.prems(6,7)] Cons.prems(4) show ?case by simp
qed simp

end

interpretation shape_commit: stored_closed shape_value t for t
  by unfold_locales (simp_all add: shape_canon)

text \<open>
  Values that the data column keeps as they are: timestamps of whole microseconds, and the one
  NaN Go writes. Writes keep this too, since the commit time has no finer digits.
\<close>

definition exact_shape :: "Value \<Rightarrow> bool" where
  "exact_shape v \<longleftrightarrow> shape_value v \<and> exactValue v"

lemma canonNaN_float_add: "canonNaN (float_add a b) = float_add a b"
proof -
  have "\<not> float_IsNaN d" if "float_IsInf d" for d using that by (simp add: float_IsNaN_def float_IsInf_def)
  then show ?thesis using float_of_scaled_not_NaN by (auto simp: float_add_def canonNaN_def Let_def)
qed

lemma exact_numericTransform:
  "(\<And>a b. canonNaN (g a b) = g a b) \<Longrightarrow> exactValue op \<Longrightarrow> exactValue (numericTransform cur op f g)"
  by (induction cur op f g rule: numericTransform.induct) simp_all

lemma exact_tsValue: "exactValue (tsValue (Truncate_us t))"
proof -
  let ?n = "Truncate_us t mod 1000000000"
  have "sint (word_of_int ?n :: int32) = ?n"
    using pos_mod_bound [of 1000000000 "Truncate_us t"] pos_mod_sign [of 1000000000 "Truncate_us t"]
    by (simp add: sint_sbintrunc' signed_take_bit_int_eq_self)
  moreover have "?n mod 1000 = 0" by (simp add: mod_mod_cancel Truncate_us_def mod_diff_eq)
  ultimately show ?thesis by (simp add: tsValue_def tsOf_def)
qed

interpretation exact_commit: stored_closed exact_shape "Truncate_us now" for now
  by unfold_locales
     (auto simp: exact_shape_def shape_numericTransform exact_numericTransform [OF canonNaN_float_add] exact_tsValue canonNaN_def shape_canon canonValue_exact)

section \<open>Properties of commits\<close>

text \<open>
  C3: a commit implements the sequential application of its writes to the documents. It never
  panics; when it succeeds the tables stay well-formed, every written document holds what
  applying the writes in order gives (or is gone when the last one deleted it), its version is
  the commit time, every other document is untouched, and the results are those of the writes.
\<close>
theorem commit_refines:
  assumes wf: "wf_db shape_value db" "clock_ok (Truncate_us now) db" and ws: "\<forall>w \<in> set ws. write_ok shape_value w"
  shows "case applyCommit reg xid now ws extraLocks verify db of
      Inl e \<Rightarrow> e \<noteq> Panic
    | Inr (db', results, t) \<Rightarrow>
        t = Truncate_us now \<and> wf_db shape_value db' \<and> clock_ok t db' \<and>
        (\<exists>states. applyWrites (stateOf db) [] ws t = Inr (states, results) \<and>
          (\<forall>n \<in> writeNames ws. if ds_Exists (states n)
             then view db' n = Some (canonFields (stateFields (states n))) \<and> version db' n = t
             else rowOf db' n = None) \<and>
          (\<forall>n. n \<notin> writeNames ws \<longrightarrow> rowOf db' n = rowOf db n))"
proof (cases "applyCommit reg xid now ws extraLocks verify db")
  case (Inl e)
  with shape_commit.applyCommit_no_panic [OF wf refl ws, of reg xid extraLocks verify] show ?thesis by simp
next
  case (Inr res)
  obtain db' results t where res: "res = (db', results, t)" by (cases res)
  from shape_commit.commit_stored [OF wf refl ws Inr [unfolded res]] obtain S where S: "t = Truncate_us now"
    "wf_db shape_value db'" "clock_ok t db'" "applyWrites (stateOf db) [] ws t = Inr (S, results)"
    "\<And>n. n \<in> writeNames ws \<Longrightarrow> stored (S n) (rowOf db' n)" "\<And>n. n \<notin> writeNames ws \<Longrightarrow> rowOf db' n = rowOf db n"
    "\<And>n. n \<in> writeNames ws \<Longrightarrow> ds_Exists (S n) \<Longrightarrow> ds_UpdateTime (S n) = t"
    by metis
  have "if ds_Exists (S n) then view db' n = Some (canonFields (stateFields (S n))) \<and> version db' n = t else rowOf db' n = None"
    if "n \<in> writeNames ws" for n
    using S(5,7) [OF that] by (auto simp: stored_def view_def version_def split: if_splits)
  with S Inr res show ?thesis by auto
qed

text \<open>
  C16: the change log records a successful commit exactly: one event per written document, in the
  order of the names, with consecutive sequence numbers and the transaction's id, a write when the
  document exists afterwards and a deletion when it does not, filed under its collection.
\<close>
theorem commit_events:
  assumes wf: "wf_db shape_value db" "clock_ok (Truncate_us now) db" and ws: "\<forall>w \<in> set ws. write_ok shape_value w"
    and commit: "applyCommit reg xid now ws extraLocks verify db = Inr (db', results, t)"
  shows "\<exists>events. changelog db' = changelog db @ events \<and>
     map c_doc_name events = sorted_list_of_set (writeNames ws) \<and>
     map c_seq events = [next_seq db..<next_seq db + length events] \<and>
     (\<forall>c \<in> set events. c_xid c = xid \<and>
        c_kind c = (if rowOf db' (c_doc_name c) = None then ''delete'' else ''write'') \<and>
        (\<exists>p. ParseDocumentName (c_doc_name c) = Inr p \<and> c_collection_id c = dp_CollectionID p))"
proof -
  from shape_commit.commit_stored [OF wf refl ws commit] obtain S where
    S: "\<And>n. n \<in> writeNames ws \<Longrightarrow> stored (S n) (rowOf db' n)" "\<And>n. n \<in> writeNames ws \<Longrightarrow> parsed n \<noteq> None"
    and log: "changelog db' = changelog db @ map2 (\<lambda>s n. change s xid now S n)
       [next_seq db..<next_seq db + card (writeNames ws)] (sorted_list_of_set (writeNames ws))" by metis
  define events where "events = map2 (\<lambda>s n. change s xid now S n)
       [next_seq db..<next_seq db + card (writeNames ws)] (sorted_list_of_set (writeNames ws))"
  have len: "length [next_seq db..<next_seq db + card (writeNames ws)] = length (sorted_list_of_set (writeNames ws))" by simp
  have maps: "map c_doc_name events = sorted_list_of_set (writeNames ws)" "map c_seq events = [next_seq db..<next_seq db + card (writeNames ws)]"
    unfolding events_def map_map comp_def split_def
    by (simp_all add: change_def map_fst_zip [OF len] map_snd_zip [OF len] flip: fst_def snd_def)
  moreover have "length events = card (writeNames ws)" by (simp add: events_def)
  moreover have "c_xid c = xid \<and> c_kind c = (if rowOf db' (c_doc_name c) = None then ''delete'' else ''write'') \<and>
        (\<exists>p. ParseDocumentName (c_doc_name c) = Inr p \<and> c_collection_id c = dp_CollectionID p)" if "c \<in> set events" for c
  proof -
    from that obtain s n where c: "c = change s xid now S n" "n \<in> set (sorted_list_of_set (writeNames ws))"
      by (auto simp: events_def dest: set_zip_rightD)
    then have "n \<in> writeNames ws" by simp
    from S(1) [OF this] S(2) [OF this] c(1) show ?thesis
      by (auto simp: change_def stored_def parsed_def split: if_splits sum.splits)
  qed
  ultimately show ?thesis using log by (intro exI [of _ events]) (simp add: events_def)
qed

lemma commit_index:
  assumes wf: "wf_db exact_shape db" "clock_ok (Truncate_us now) db" and ws: "\<forall>w \<in> set ws. write_ok exact_shape w"
    and commit: "applyCommit reg xid now ws extraLocks verify db = Inr (db', results, t)"
    and reg: "registry_ok reg" "d \<in> set (forCollection reg (dCollectionID d))" "index_complete d db"
  shows "index_complete d db' \<and> wf_db exact_shape db' \<and> clock_ok t db'"
proof -
  from exact_commit.applyCommit_unfold [OF wf refl ws commit] obtain targets paths S where
    t: "paths_of targets paths" "set targets = writeNames ws" "t = Truncate_us now"
    and S: "applyWrites (stateOf db) [] ws t = Inr (S, results)" "during exact_shape t (stateOf db) S (writeNames ws)"
    and persist: "persistAll reg xid now paths S (sort targets) db = Inr db'" by metis
  from exact_commit.commit_stored [OF wf refl ws commit] obtain S' where
    S': "applyWrites (stateOf db) [] ws t = Inr (S', results)" "wf_db exact_shape db'" "clock_ok t db'"
      "\<And>n. n \<in> writeNames ws \<Longrightarrow> stored (S' n) (rowOf db' n)" by metis
  have "ready exact_shape (S n) (Truncate_us now) \<and> ds_Dirty (S n) \<and> (ds_Exists (S n) \<longrightarrow> ds_UpdateTime (S n) = Truncate_us now) \<and>
      (\<exists>p. map_of paths n = Some p \<and> ParseDocumentName n = Inr p)" if "n \<in> set (sort targets)" for n
    using that S(2) t by (auto simp: during_def paths_of_def parsed_def split: sum.splits option.splits)
  moreover have "exactValue v" if "exact_shape v" for v using that by (simp add: exact_shape_def)
  ultimately show ?thesis using exact_commit.persistAll_index [OF persist wf _ _ reg] S'(2,3) by blast
qed

text \<open>
  Indexes stay complete. When the values written and stored are whole microseconds, every
  registered index that holds exactly the entries of the stored documents before a commit holds
  exactly the entries of the stored documents after it.
\<close>
theorem commit_keeps_index:
  assumes wf: "wf_db exact_shape db" "clock_ok (Truncate_us now) db" and ws: "\<forall>w \<in> set ws. write_ok exact_shape w"
    and commit: "applyCommit reg xid now ws extraLocks verify db = Inr (db', results, t)"
    and reg: "registry_ok reg" "d \<in> set (forCollection reg (dCollectionID d))" "index_complete d db"
  shows "index_complete d db' \<and> wf_db exact_shape db' \<and> clock_ok t db'"
  using assms by (rule commit_index)

section \<open>Properties of transactions\<close>

lemma recordReads_first: "map_of (recordReads seen reads) n = (case map_of seen n of Some t \<Rightarrow> Some t | None \<Rightarrow> map_of reads n)"
  by (induction seen reads rule: recordReads.induct) (auto simp: update_conv' split: option.splits)

lemma recordReads_distinct: "distinct (map fst seen) \<Longrightarrow> distinct (map fst (recordReads seen reads))"
  by (induction seen reads rule: recordReads.induct) (auto simp: distinct_update)

text \<open>
  A transaction that commits saw the current documents: every version it recorded is still
  the version of the document when its writes apply, and the writes apply to exactly that state.
  The identifier is used up whether the commit succeeds or fails, so it cannot commit twice, and
  an identifier that is unknown changes nothing.
\<close>
theorem transaction_validated:
  assumes wf: "wf_db shape_value db" "clock_ok (Truncate_us now) db" and ws: "\<forall>w \<in> set ws. write_ok shape_value w"
  shows "case CommitTxn reg xid now i ws (txns, db) of
      (txns', Inl e) \<Rightarrow> (map_of txns i = None \<longrightarrow> txns' = txns \<and> e = Status InvalidArgument) \<and>
        map_of txns' i = None \<and> e \<noteq> Panic
    | (txns', Inr (db', results, t)) \<Rightarrow>
        map_of txns' i = None \<and>
        (\<exists>e states. map_of txns i = Some e \<and> (\<forall>(n, want) \<in> set (t_reads e). version db n = want) \<and>
          applyWrites (stateOf db) [] ws t = Inr (states, results))"
proof (cases "map_of txns i")
  case None
  then show ?thesis by (simp add: CommitTxn_def take_txn_def)
next
  case (Some e)
  have gone: "map_of (AList.delete i txns) i = None" by (simp add: delete_conv')
  show ?thesis
  proof (cases "applyCommit reg xid now ws (map fst (t_reads e)) (t_reads e) db")
    case (Inl x)
    with shape_commit.applyCommit_no_panic [OF wf refl ws, of reg xid "map fst (t_reads e)" "t_reads e"] Some gone
    show ?thesis by (simp add: CommitTxn_def take_txn_def)
  next
    case (Inr res)
    obtain db' results t where res: "res = (db', results, t)" by (cases res)
    from shape_commit.applyCommit_unfold [OF wf refl ws Inr [unfolded res]] obtain S where
      "applyWrites (stateOf db) [] ws t = Inr (S, results)"
      "\<And>n want. (n, want) \<in> set (t_reads e) \<Longrightarrow> n \<in> writeNames ws \<union> set (map fst (t_reads e)) \<Longrightarrow> version db n = want"
      by metis
    then have "applyWrites (stateOf db) [] ws t = Inr (S, results)" "\<forall>(n, want) \<in> set (t_reads e). version db n = want"
      by force+
    with Some Inr res gone show ?thesis by (simp add: CommitTxn_def take_txn_def)
  qed
qed

text \<open>
  Contention aborts. A transaction one of whose recorded versions is no longer current is
  refused with the code the client libraries retry on, as long as its writes are well addressed.
\<close>
theorem transaction_conflict_aborts:
  assumes wf: "wf_db shape_value db" and e: "map_of txns i = Some e"
    and stale: "(n, want) \<in> set (t_reads e)" "version db n \<noteq> want"
    and targets: "collectTargets [] [] ws = Inr tp"
  shows "snd (CommitTxn reg xid now i ws (txns, db)) = Inl (Status Aborted)"
proof -
  obtain ts paths where tp: "tp = (ts, paths)" by (cases tp)
  from collectTargets_spec [OF targets [unfolded tp]] have t: "paths_of ts paths" by (simp add: paths_of_def)
  let ?L = "set (lockSet ts paths (map fst (t_reads e)))"
  from scanDocs_rows [OF wf, of ?L] obtain docs
    where docs: "scanDocs (filter (\<lambda>r. r_name r \<in> ?L) (documents db)) = Inr docs"
      "\<And>n. map_of docs n = (if n \<in> ?L then docOf db n else None)" by blast
  have "n \<in> ?L" using set_lockSet [OF t] stale(1) by force
  moreover have "(case docOf db n of None \<Rightarrow> zeroTime | Some doc \<Rightarrow> d_UpdateTime doc) = version db n"
    using wf by (cases rule: stateOf_cases [of shape_value db n]) (auto simp: version_def docOf_def scanDoc_def)
  ultimately have "\<not> verifyReads verify docs" if "verify = t_reads e" for verify
    using docs(2) [of n] stale that by (auto simp: verifyReads_def list_all_iff intro!: bexI [of _ "(n, want)"])
  with docs(1) targets tp e show ?thesis
    by (simp add: CommitTxn_def take_txn_def applyCommit_def Let_def)
qed

text \<open>
  Within a transaction the first read of a document wins: recording reads keeps the versions
  already recorded, adds those of documents not seen before, keeps the start time, and leaves the
  other transactions alone. It fails exactly for an unknown identifier.
\<close>
theorem first_read_wins:
  shows "case record_txn i reads txns of
      Inl c \<Rightarrow> c = Status InvalidArgument \<and> map_of txns i = None
    | Inr txns' \<Rightarrow> (\<exists>e e'. map_of txns i = Some e \<and> map_of txns' = (map_of txns)(i \<mapsto> e') \<and> t_created e' = t_created e \<and>
          (\<forall>n. map_of (t_reads e') n = (case map_of (t_reads e) n of Some t \<Rightarrow> Some t | None \<Rightarrow> map_of reads n)))"
  by (auto simp: record_txn_def update_conv' recordReads_first split: option.split)

lemma map_of_filter_keys:
  "distinct (map fst m) \<Longrightarrow> map_of (filter (\<lambda>(k, e). Q e) m) i = (case map_of m i of Some e \<Rightarrow> if Q e then Some e else None | None \<Rightarrow> None)"
  by (induction m) (auto simp: map_of_eq_None_iff split: option.split)

text \<open>
  Beginning a transaction registers its identifier with no reads, and forgets exactly the other
  transactions that are older than the time to live.
\<close>
lemma begin_expires:
  assumes "distinct (map fst txns)"
  shows "map_of (snd (begin_txn rnd now txns)) i =
      (if i = rnd then Some \<lparr>t_reads = [], t_created = now\<rparr>
       else case map_of txns i of None \<Rightarrow> None | Some e \<Rightarrow> if now - t_created e > txnTTL then None else Some e)"
  using map_of_filter_keys [OF assms, of "\<lambda>e. \<not> now - t_created e > txnTTL" i]
  by (simp add: begin_txn_def update_conv' split: option.split)

section \<open>An example\<close>

definition sample_name :: string where "sample_name = ''projects/p/databases/d/documents/c/x''"

definition sample_write :: "Value \<Rightarrow> Write" where
  "sample_write v = \<lparr>w_Operation = Write_Update sample_name [(''a'', v)], w_UpdateMask = None,
                    w_UpdateTransforms = [], w_CurrentDocument = None\<rparr>"

definition empty_db :: DB where
  "empty_db = \<lparr>documents = [], collections = [], index_entries = [], index_defs = [], changelog = [], next_seq = 1\<rparr>"

definition sample_index :: Def where
  "sample_index = \<lparr>dCollectionID = ''c'', dFields = [\<lparr>fPath = ''a'', fDesc = False, fContains = False\<rparr>], dGroup = False\<rparr>"

definition sample_registry :: indexRegistry where
  "sample_registry = \<lparr>byColl = [(''c'', [sample_index])], reg_ready = []\<rparr>"

lemma sample_path: "ParseDocumentName sample_name =
    Inr \<lparr>dp_Name = sample_name, dp_ParentPath = ''projects/p/databases/d/documents'', dp_CollectionID = ''c'', dp_DocID = ''x''\<rparr>"
  by (simp add: ParseDocumentName_def sample_name_def)

definition sample_state :: "Value \<Rightarrow> DocState" where
  "sample_state v = \<lparr>ds_Name = sample_name, ds_Exists = True, ds_Fields = Some [(''a'', v)],
                    ds_CreateTime = 1000, ds_UpdateTime = 1000, ds_Dirty = True\<rparr>"

lemma sample_target: "TargetName (sample_write v) = Inr sample_name" "writeNames [sample_write v] = {sample_name}"
  by (simp_all add: writeNames_def TargetName_def sample_write_def sample_name_def)

lemma sample_Apply: "Apply (loadState [] sample_name) (sample_write v) 1000 = Inr ((sample_state v), \<lparr>wr_UpdateTime = 1000, wr_TransformResults = []\<rparr>)"
  by (simp add: loadState_def sample_write_def sample_state_def Apply_def checkPrecondition_def applyOperation_def
      applyUpdate_def updatedFields_def applyUpdateTransforms_def isDelete_def cloneFields_def baseFields_def)

lemma Truncate_1000: "Truncate_us 1000 = 1000"
  by (simp add: Truncate_us_def)

lemma sample_commit:
  assumes "encodable v"
  shows "\<exists>db'. applyCommit sample_registry 7 1000 [sample_write v] extra [] empty_db =
      Inr (db', [\<lparr>wr_UpdateTime = 1000, wr_TransformResults = []\<rparr>], 1000) \<and>
    set (index_entries db') = set (entriesOf sample_index sample_name [(''a'', v)])"
proof -
  have st: "ds_Dirty (sample_state v)" "ds_Exists (sample_state v)" "stateFields (sample_state v) = [(''a'', v)]"
    by (simp_all add: sample_state_def stateFields_def)
  obtain data where "MarshalFields [(''a'', v)] = Inr data"
    using Unmarshal_Marshal [of "[(''a'', v)]"] assms by (auto simp: hasNUL_def)
  moreover have "forCollection sample_registry ''c'' = [sample_index]" by (simp add: forCollection_def sample_registry_def)
  ultimately show ?thesis
    by (simp add: applyCommit_def Truncate_1000 sample_target sample_path sample_Apply empty_db_def scanDocs_def verifyReads_def
        persistDoc_def st Let_def refreshIndexEntries_def pathOf_def)
qed

lemma empty_db_ok: "wf_db P empty_db" "clock_ok t empty_db" "rowOf empty_db n = None" "stateOf empty_db n = loadState [] n"
  "index_complete d empty_db" "version empty_db n = zeroTime"
  by (simp_all add: wf_db_def clock_ok_def empty_db_def rowOf_def stateOf_def docOf_def index_complete_def in_docEntries version_def)

lemma sample_write_ok: "exact_shape v \<Longrightarrow> \<forall>w \<in> set [sample_write v]. write_ok exact_shape w"
  "shape_value v \<Longrightarrow> \<forall>w \<in> set [sample_write v]. write_ok shape_value w"
  by (simp_all add: write_ok_def sample_write_def exact_shape_def)

lemma sample_states:
  "applyWrites (stateOf empty_db) [] [sample_write v] 1000 =
     Inr ((stateOf empty_db)(sample_name := (sample_state v)), [\<lparr>wr_UpdateTime = 1000, wr_TransformResults = []\<rparr>])"
  by (simp add: sample_target empty_db_ok sample_Apply)

lemma sample_fields: "canonFields (stateFields (sample_state v)) = [(''a'', canonValue v)]" "ds_Exists (sample_state v)"
  by (simp_all add: canonFields_def stateFields_def sample_state_def)

lemma sample_registry_ok:
  "registry_ok sample_registry" "sample_index \<in> set (forCollection sample_registry (dCollectionID sample_index))"
  by (auto simp: registry_ok_def forCollection_def sample_registry_def sample_index_def)

lemma true_ok: "encodable (BooleanValue True)" "shape_value (BooleanValue True)" "exact_shape (BooleanValue True)"
  by (simp_all add: exact_shape_def)

theorem commit_refines_witness:
  "\<exists>db'. applyCommit sample_registry 7 1000 [sample_write (BooleanValue True)] [] [] empty_db = Inr (db', [\<lparr>wr_UpdateTime = 1000, wr_TransformResults = []\<rparr>], 1000) \<and>
     view db' sample_name = Some [(''a'', BooleanValue True)] \<and> version db' sample_name = 1000"
proof -
  obtain db' where c: "applyCommit sample_registry 7 1000 [sample_write (BooleanValue True)] [] [] empty_db = Inr (db', [\<lparr>wr_UpdateTime = 1000, wr_TransformResults = []\<rparr>], 1000)"
    using sample_commit [OF true_ok(1)] by blast
  have "\<forall>n \<in> {sample_name}. if ds_Exists (((stateOf empty_db)(sample_name := sample_state (BooleanValue True))) n)
      then view db' n = Some (canonFields (stateFields (((stateOf empty_db)(sample_name := sample_state (BooleanValue True))) n))) \<and> version db' n = 1000
      else rowOf db' n = None"
    using commit_refines [OF empty_db_ok(1,2) sample_write_ok(2) [OF true_ok(2)], where now = 1000 and reg = sample_registry and xid = 7 and extraLocks = "[]" and verify = "[]"]
    unfolding c sample_target(2) sum.case prod.case sample_states by blast
  with c show ?thesis by (simp add: sample_fields)
qed

theorem commit_events_witness:
  "\<exists>db' ev. applyCommit sample_registry 7 1000 [sample_write (BooleanValue True)] [] [] empty_db = Inr (db', [\<lparr>wr_UpdateTime = 1000, wr_TransformResults = []\<rparr>], 1000) \<and>
     changelog db' = [ev] \<and> c_doc_name ev = sample_name \<and> c_seq ev = 1 \<and> c_collection_id ev = ''c''"
proof -
  obtain db' where c: "applyCommit sample_registry 7 1000 [sample_write (BooleanValue True)] [] [] empty_db = Inr (db', [\<lparr>wr_UpdateTime = 1000, wr_TransformResults = []\<rparr>], 1000)"
    using sample_commit [OF true_ok(1)] by blast
  from commit_events [OF empty_db_ok(1,2) sample_write_ok(2) [OF true_ok(2)] c]
  obtain events where "changelog db' = changelog empty_db @ events" "map c_doc_name events = [sample_name]"
    "map c_seq events = [next_seq empty_db..<next_seq empty_db + length events]"
    "\<forall>e \<in> set events. \<exists>p. ParseDocumentName (c_doc_name e) = Inr p \<and> c_collection_id e = dp_CollectionID p"
    by (auto simp: sample_target)
  with c show ?thesis by (auto simp: empty_db_def sample_path)
qed

theorem commit_keeps_index_witness:
  "\<exists>db'. applyCommit sample_registry 7 1000 [sample_write (BooleanValue True)] [] [] empty_db = Inr (db', [\<lparr>wr_UpdateTime = 1000, wr_TransformResults = []\<rparr>], 1000) \<and>
     index_complete sample_index db'"
proof -
  obtain db' where c: "applyCommit sample_registry 7 1000 [sample_write (BooleanValue True)] [] [] empty_db = Inr (db', [\<lparr>wr_UpdateTime = 1000, wr_TransformResults = []\<rparr>], 1000)"
    using sample_commit [OF true_ok(1)] by blast
  from commit_keeps_index [OF empty_db_ok(1,2) sample_write_ok(1) [OF true_ok(3)] c sample_registry_ok empty_db_ok(5)] c
  show ?thesis by blast
qed

theorem transaction_validated_witness:
  "map_of (fst (CommitTxn sample_registry 7 1000 [1] [sample_write (BooleanValue True)] ([([1], \<lparr>t_reads = [], t_created = 0\<rparr>)], empty_db))) [1] = None"
  using transaction_validated [OF empty_db_ok(1,2) sample_write_ok(2) [OF true_ok(2)], where now = 1000 and reg = sample_registry and xid = 7 and i = "[1]"
      and txns = "[([1], \<lparr>t_reads = [], t_created = 0\<rparr>)]"]
  by (auto split: prod.splits sum.splits)

theorem transaction_conflict_aborts_witness:
  "snd (CommitTxn sample_registry 7 1000 [1] [sample_write (BooleanValue True)] ([([1], \<lparr>t_reads = [(sample_name, 5)], t_created = 0\<rparr>)], empty_db)) = Inl (Status Aborted)"
  by (rule transaction_conflict_aborts [OF empty_db_ok(1), where e = "\<lparr>t_reads = [(sample_name, 5)], t_created = 0\<rparr>" and n = sample_name and want = 5])
     (auto simp: empty_db_ok zeroTime_def sample_target sample_path)

lemma sample_key: "Keys sample_index sample_name [(''a'', BooleanValue True)] \<noteq> []"
  by (simp add: Keys_def sample_index_def keysStep_def parse_a sortKey_simps)

lemma sample_stored:
  assumes "applyCommit sample_registry 7 1000 [sample_write v] extra verify empty_db = Inr (db', results, t)" and v: "shape_value v"
  obtains r where "rowOf db' sample_name = Some r" "r_collection_id r = ''c''" "UnmarshalFields (r_data r) = Inr [(''a'', canonValue v)]"
proof -
  from shape_commit.commit_stored [OF empty_db_ok(1,2) refl sample_write_ok(2) [OF v] assms(1)] obtain S where
    S: "t = Truncate_us 1000" "wf_db shape_value db'" "applyWrites (stateOf empty_db) [] [sample_write v] t = Inr (S, results)"
      "\<And>n. n \<in> writeNames [sample_write v] \<Longrightarrow> stored (S n) (rowOf db' n)"
    by metis
  have "S = (stateOf empty_db)(sample_name := sample_state v)" using S(3) unfolding S(1) Truncate_1000 sample_states by blast
  then have "S sample_name = sample_state v" by simp
  with S(4) [of sample_name, unfolded sample_target(2)] sample_fields obtain r where
    r: "rowOf db' sample_name = Some r" "UnmarshalFields (r_data r) = Inr [(''a'', canonValue v)]"
    by (auto simp: stored_def)
  with row_collection [OF S(2) r(1) sample_path] show thesis using that by simp
qed

text \<open>
  C29: a backfill is not atomic with its scan. Entries that a commit writes after the scan and
  before the entries are replaced are lost: the index is marked ready while it misses a stored
  document, here the first document of the collection.
\<close>
theorem backfill_loses_concurrent_write:
  "\<exists>batch db1 db2 reg2 n results t.
     backfillScan sample_index empty_db = Inr batch \<and>
     applyCommit sample_registry 7 1000 [sample_write (BooleanValue True)] [] [] empty_db = Inr (db1, results, t) \<and>
     index_complete sample_index db1 \<and>
     backfillLoad sample_index batch (db1, sample_registry) = ((db2, reg2), n) \<and>
     ID sample_index \<in> set (reg_ready reg2) \<and> documents db2 = documents db1 \<and>
     \<not> index_complete sample_index db2"
proof -
  obtain db1 where c: "applyCommit sample_registry 7 1000 [sample_write (BooleanValue True)] [] [] empty_db =
      Inr (db1, [\<lparr>wr_UpdateTime = 1000, wr_TransformResults = []\<rparr>], 1000)" using sample_commit [OF true_ok(1)] by blast
  have complete: "index_complete sample_index db1"
    using commit_index [OF empty_db_ok(1,2) sample_write_ok(1) [OF true_ok(3)] c sample_registry_ok empty_db_ok(5)] by simp
  obtain db2 reg2 n where load: "backfillLoad sample_index [] (db1, sample_registry) = ((db2, reg2), n)" by (metis surj_pair)
  note facts = backfillLoad_entries [OF load]
  obtain key where key: "key \<in> set (Keys sample_index sample_name [(''a'', BooleanValue True)])"
    using sample_key by (meson list.set_sel(1))
  let ?e = "\<lparr>e_index_id = ID sample_index, e_key = key, e_doc_name = sample_name\<rparr>"
  obtain r where "rowOf db1 sample_name = Some r" "r_collection_id r = ''c''" "UnmarshalFields (r_data r) = Inr [(''a'', BooleanValue True)]"
    using sample_stored [OF c true_ok(2)] by auto
  with key have "?e \<in> docEntries sample_index db2 (e_doc_name ?e)"
    unfolding in_docEntries rowOf_cong [OF facts(1)] by (simp add: in_entriesOf sample_index_def)
  moreover have "?e \<notin> set (index_entries db2)" using facts(4) by simp
  ultimately have "\<not> index_complete sample_index db2" using index_completeD [of sample_index db2 ?e] by auto
  moreover have "backfillScan sample_index empty_db = Inr []" by (simp add: backfillScan_def empty_db_def)
  ultimately show ?thesis using c complete load facts(1,2) by blast
qed

lemma sample_ts_keys:
  "\<exists>k. Keys sample_index sample_name [(''a'', TimestampValue 0 1)] = [k] \<and>
       k \<notin> set (Keys sample_index sample_name [(''a'', TimestampValue 0 0)])"
proof -
  have four: "(4 :: nat) = Suc (Suc (Suc (Suc 0)))" by simp
  have "be_bytes 4 (Suc 0) = [0, 0, 0, 1]" "be_bytes 4 0 = [0, 0, 0, 0]"
    unfolding four be_bytes.simps by simp_all
  then show ?thesis
    by (simp add: Keys_def sample_index_def keysStep_def parse_a sortKey_simps appendName_def trailingDirection_def)
qed

text \<open>
  Index entries are computed from the fields before they are stored. A timestamp with digits
  below a microsecond is indexed with them and stored without: after the commit the index holds an
  entry that the stored document does not have, so the hypothesis of exact values in the theorem
  on index maintenance is needed.
\<close>
theorem index_sees_unstored_digits:
  "\<exists>db' results t. index_complete sample_index empty_db \<and>
     applyCommit sample_registry 7 1000 [sample_write (TimestampValue 0 1)] [] [] empty_db = Inr (db', results, t) \<and>
     view db' sample_name = Some [(''a'', TimestampValue 0 0)] \<and>
     set (index_entries db') = set (entriesOf sample_index sample_name [(''a'', TimestampValue 0 1)]) \<and>
     \<not> index_complete sample_index db'"
proof -
  have v: "shape_value (TimestampValue 0 1)" "encodable (TimestampValue 0 1)" "canonValue (TimestampValue 0 1) = TimestampValue 0 0"
    by (simp_all add: AsTime_def zeroTime_def Truncate_us_def tsOf_def)
  from sample_commit [OF v(2), of "[]"] obtain db' where c: "applyCommit sample_registry 7 1000 [sample_write (TimestampValue 0 1)] [] [] empty_db =
      Inr (db', [\<lparr>wr_UpdateTime = 1000, wr_TransformResults = []\<rparr>], 1000)"
    and entries: "set (index_entries db') = set (entriesOf sample_index sample_name [(''a'', TimestampValue 0 1)])" by blast
  obtain k where k: "Keys sample_index sample_name [(''a'', TimestampValue 0 1)] = [k]"
    "k \<notin> set (Keys sample_index sample_name [(''a'', TimestampValue 0 0)])" using sample_ts_keys by blast
  obtain r where r: "rowOf db' sample_name = Some r" "UnmarshalFields (r_data r) = Inr [(''a'', TimestampValue 0 0)]"
    using sample_stored [OF c v(1)] v(3) by metis
  let ?e = "\<lparr>e_index_id = ID sample_index, e_key = k, e_doc_name = sample_name\<rparr>"
  have "?e \<in> set (index_entries db')" using k(1) entries by (simp add: in_entriesOf)
  moreover have "?e \<notin> docEntries sample_index db' sample_name" using r k(2) by (simp add: in_docEntries in_entriesOf)
  ultimately have "\<not> index_complete sample_index db'" using index_completeD [of sample_index db' ?e] by auto
  moreover have "view db' sample_name = Some [(''a'', TimestampValue 0 0)]" using r by (simp add: view_def)
  ultimately show ?thesis using c entries empty_db_ok(5) by blast
qed

end
