(* ===== verification/StoreQuery.thy ===== *)
theory StoreQuery
  imports Commit
begin

text \<open>
  File \<^verbatim>\<open>store/query.go\<close>: the three ways a query runs (from an index, in name order, by loading
  and sorting), narrowing by jsonb containment, counting. A run is the list of documents handed
  to the callback together with the error it ends with; a callback that stops early sees a prefix
  of that list. Postgres' containment operator is the argument \<open>contains\<close>.
\<close>

section \<open>Narrowing\<close>

definition baseConditions :: "Query \<Rightarrow> DocRow \<Rightarrow> bool" where
  "baseConditions q r =
     (if AllDescendants q
      then r_collection_id r = CollectionID q \<and> Parent q @ ''/'' \<le> r_name r \<and> r_name r < Parent q @ ''0''
      else r_parent_path r = Parent q \<and> r_collection_id r = CollectionID q)"

text \<open>\<^verbatim>\<open>int64(f)\<close>, \<^verbatim>\<open>f == math.Trunc(f)\<close> and the range test, on the exact value of a finite double.\<close>

definition int64_of_float :: "float64 \<Rightarrow> int64" where
  "int64_of_float f = word_of_int (sgn (float_scaled f) * (\<bar>float_scaled f\<bar> div int ulps))"

definition integral :: "float64 \<Rightarrow> bool" where
  "integral f \<longleftrightarrow> \<not> float_IsNaN f \<and> (float_IsInf f \<or> float_scaled f mod int ulps = 0)"

definition in_int64 :: "float64 \<Rightarrow> bool" where
  "in_int64 f \<longleftrightarrow> \<not> float_IsNaN f \<and> \<not> float_IsInf f \<and> - (2 ^ 63) * int ulps \<le> float_scaled f \<and> float_scaled f < 2 ^ 63 * int ulps"

definition negZero :: float64 where
  "negZero = 0x8000000000000000"

definition alternatives :: "Value \<Rightarrow> Value list" where
  "alternatives operand =
     (case operand of
        IntegerValue i \<Rightarrow>
          (let f = float_of_int64 i
           in (if float_scaled f \<noteq> 2 ^ 63 * int ulps \<and> int64_of_float f = i then [DoubleValue f] else []) @
              (if i = 0 then [DoubleValue negZero] else []))
      | DoubleValue f \<Rightarrow>
          (if integral f \<and> in_int64 f then [IntegerValue (int64_of_float f)] else []) @
          (if float_eq f 0 then [DoubleValue 0, DoubleValue negZero] else [])
      | _ \<Rightarrow> [])"

fun successes :: "('e + 'a) list \<Rightarrow> 'a list" where
  "successes [] = []"
| "successes (Inl _ # rs) = successes rs"
| "successes (Inr x # rs) = x # successes rs"

definition equalityProbes :: "FieldPath \<Rightarrow> Value \<Rightarrow> (FieldPath \<Rightarrow> Value \<Rightarrow> codec_error + JSON) \<Rightarrow> JSON list option" where
  "equalityProbes path operand build =
     (if IsNaN operand then None
      else let grp = successes (map (build path) (operand # alternatives operand))
           in if grp = [] then None else Some grp)"

definition fieldProbes :: "string \<Rightarrow> FieldOp \<Rightarrow> Value \<Rightarrow> JSON list list" where
  "fieldProbes fpath op operand =
     (if fpath = ''__name__'' then []
      else case ParseFieldPath fpath of
             Inl _ \<Rightarrow> []
           | Inr path \<Rightarrow>
               (case (case op of EQUAL \<Rightarrow> equalityProbes path operand ContainmentJSON
                       | ARRAY_CONTAINS \<Rightarrow> equalityProbes path operand ArrayContainmentJSON
                       | _ \<Rightarrow> None) of
                  None \<Rightarrow> [] | Some grp \<Rightarrow> [grp]))"

fun containmentProbes :: "Filter \<Rightarrow> JSON list list option"
  and probesAll :: "Filter list \<Rightarrow> JSON list list option" where
  "containmentProbes (CompositeFilter op fs) = (if op \<noteq> CompositeAnd then None else probesAll fs)"
| "containmentProbes (FieldFilter fpath op operand) = Some (fieldProbes fpath op operand)"
| "containmentProbes (UnaryFilter fpath op) = Some []"
| "containmentProbes FilterUnset = Some []"
| "probesAll [] = Some []"
| "probesAll (f # fs) =
     (case containmentProbes f of
        None \<Rightarrow> None
      | Some probes \<Rightarrow> (case probesAll fs of None \<Rightarrow> None | Some rest \<Rightarrow> Some (probes @ rest)))"

definition narrowed :: "(JSON \<Rightarrow> JSON \<Rightarrow> bool) \<Rightarrow> Query \<Rightarrow> DocRow \<Rightarrow> bool" where
  "narrowed contains q r =
     (case Where q of
        None \<Rightarrow> True
      | Some f \<Rightarrow>
          (case containmentProbes f of
             None \<Rightarrow> True
           | Some probes \<Rightarrow> list_all (list_ex (contains (r_data r))) probes))"

definition candidates :: "(JSON \<Rightarrow> JSON \<Rightarrow> bool) \<Rightarrow> Query \<Rightarrow> DB \<Rightarrow> DocRow list" where
  "candidates contains q db = filter (\<lambda>r. baseConditions q r \<and> narrowed contains q r) (documents db)"

section \<open>In name order\<close>

type_synonym outcome = "Doc list \<times> fault option"

definition selects :: "Query \<Rightarrow> Doc \<Rightarrow> bool" where
  "selects q doc \<longleftrightarrow> Matches q (d_Name doc) (d_Fields doc) \<and> InCursorRange q (OrderKey q (d_Name doc) (d_Fields doc))"

definition boundOK :: "Direction \<Rightarrow> bool \<Rightarrow> string \<Rightarrow> string \<Rightarrow> bool" where
  "boundOK dir incl bound name =
     (case dir of Asc \<Rightarrow> if incl then name \<ge> bound else name > bound
      | Desc \<Rightarrow> if incl then name \<le> bound else name < bound)"

fun flipDir :: "Direction \<Rightarrow> Direction" where
  "flipDir Asc = Desc" | "flipDir Desc = Asc"

definition nameBounds :: "Query \<Rightarrow> Direction \<Rightarrow> string \<Rightarrow> bool" where
  "nameBounds q dir name =
     (case NameCursorBounds q of
        None \<Rightarrow> True
      | Some (start, stop, startIncl, endIncl) \<Rightarrow>
          (start = [] \<or> boundOK dir startIncl start name) \<and>
          (stop = [] \<or> boundOK (flipDir dir) endIncl stop name))"

fun nameRows :: "Query \<Rightarrow> int \<Rightarrow> int \<Rightarrow> DocRow list \<Rightarrow> outcome" where
  "nameRows q skipped emitted [] = ([], None)"
| "nameRows q skipped emitted (r # rs) =
     (case scanDoc r of
        Inl e \<Rightarrow> ([], Some e)
      | Inr doc \<Rightarrow>
          if \<not> Matches q (d_Name doc) (d_Fields doc) then nameRows q skipped emitted rs
          else if \<not> InCursorRange q (OrderKey q (d_Name doc) (d_Fields doc)) then nameRows q skipped emitted rs
          else if skipped < sint (Offset q) then nameRows q (skipped + 1) emitted rs
          else if sint (Limit q) \<ge> 0 \<and> emitted \<ge> sint (Limit q) then ([], None)
          else (case nameRows q skipped (emitted + 1) rs of (docs, e) \<Rightarrow> (doc # docs, e)))"

definition runNameOrdered :: "(JSON \<Rightarrow> JSON \<Rightarrow> bool) \<Rightarrow> Query \<Rightarrow> Direction \<Rightarrow> DB \<Rightarrow> outcome" where
  "runNameOrdered contains q dir db =
     (let rows = sort_key r_name (filter (\<lambda>r. nameBounds q dir (r_name r)) (candidates contains q db));
          ordered = (case dir of Asc \<Rightarrow> rows | Desc \<Rightarrow> rev rows)
      in nameRows q 0 0
           (if Where q = None \<and> Offset q = 0 \<and> sint (Limit q) \<ge> 0 then take (nat (sint (Limit q))) ordered else ordered))"

section \<open>By loading and sorting\<close>

fun generalEntries :: "Query \<Rightarrow> DocRow list \<Rightarrow> fault + Doc list" where
  "generalEntries q [] = Inr []"
| "generalEntries q (r # rs) =
     bind_result (scanDoc r) (\<lambda>doc.
     bind_result (generalEntries q rs) (\<lambda>docs.
       Inr (if \<not> Matches q (d_Name doc) (d_Fields doc) then docs
            else if \<not> InCursorRange q (OrderKey q (d_Name doc) (d_Fields doc)) then docs
            else doc # docs)))"

definition docLess :: "Query \<Rightarrow> Doc \<Rightarrow> Doc \<Rightarrow> bool" where
  "docLess q a b \<longleftrightarrow>
     CompareKeys q (OrderKey q (d_Name a) (d_Fields a)) (OrderKey q (d_Name b) (d_Fields b)) < 0"

definition runGeneral :: "(JSON \<Rightarrow> JSON \<Rightarrow> bool) \<Rightarrow> Query \<Rightarrow> DB \<Rightarrow> outcome" where
  "runGeneral contains q db =
     (case generalEntries q (candidates contains q db) of
        Inl e \<Rightarrow> ([], Some e)
      | Inr docs \<Rightarrow>
          let entries = SliceStable (docLess q) docs;
              len = int (length entries);
              start = (if sint (Offset q) > len then len else sint (Offset q));
              stop = (if sint (Limit q) \<ge> 0 \<and> start + sint (Limit q) < len then start + sint (Limit q) else len)
          in if start < 0 then ([], Some Panic)
             else (take (nat (stop - start)) (drop (nat start) entries), None))"

section \<open>From an index\<close>

record indexRow =
  ir_name :: string
  ir_suffix :: bytes

definition scanRange :: "Plan \<Rightarrow> Range \<Rightarrow> int32 \<Rightarrow> int32 \<Rightarrow> DB \<Rightarrow> indexRow list" where
  "scanRange plan r limit offset db =
     (let es = sort_key e_key (filter (\<lambda>e. e_index_id e = ID (pDef plan) \<and>
                  (case Lo r of None \<Rightarrow> False | Some lo \<Rightarrow> lo \<le> e_key e) \<and>
                  (case Hi r of None \<Rightarrow> True | Some hi \<Rightarrow> e_key e < hi)) (index_entries db));
          ordered = (if Reversed plan then rev es else es);
          skipped = (if sint offset > 0 then drop (nat (sint offset)) ordered else ordered);
          limited = (if sint limit \<ge> 0 then take (nat (sint limit)) skipped else skipped)
      in map (\<lambda>e. \<lparr>ir_name = e_doc_name e, ir_suffix = drop (SuffixFrom r) (e_key e)\<rparr>) limited)"

fun pickStream :: "bool \<Rightarrow> nat \<Rightarrow> (nat \<times> indexRow) option \<Rightarrow> indexRow list list \<Rightarrow> (nat \<times> indexRow) option" where
  "pickStream reversed i best [] = best"
| "pickStream reversed i best ([] # sts) = pickStream reversed (Suc i) best sts"
| "pickStream reversed i best ((row # st) # sts) =
     pickStream reversed (Suc i)
       (case best of
          None \<Rightarrow> Some (i, row)
        | Some (j, brow) \<Rightarrow>
            let c = bytes_Compare (ir_suffix row) (ir_suffix brow)
            in if (if reversed then - c else c) < 0 then Some (i, row) else best) sts"

definition popStream :: "nat \<Rightarrow> indexRow list list \<Rightarrow> indexRow list list" where
  "popStream i streams = streams[i := tl (streams ! i)]"

text \<open>
  The positions \<^verbatim>\<open>pos[i]\<close> are the remaining streams. A stream is picked only while it has rows, so each
  round consumes one.
\<close>

lemma pickStream_bounds:
  "pickStream reversed i best sts = Some (j, row) \<Longrightarrow>
   best = Some (j, row) \<or> (i \<le> j \<and> j < i + length sts \<and> (\<exists>st. sts ! (j - i) = row # st))"
proof (induction reversed i best sts rule: pickStream.induct)
  case (2 reversed i best sts)
  then show ?case by (auto simp: nth_Cons')
next
  case (3 reversed i best row' st sts)
  then show ?case by (fastforce simp: Let_def nth_Cons' split: option.splits if_splits prod.splits)
qed simp

lemma popStream_smaller:
  assumes "pickStream reversed 0 None sts = Some (j, row)"
  shows "sum_list (map length (popStream j sts)) < sum_list (map length sts)"
proof -
  from pickStream_bounds [OF assms] obtain st where st: "j < length sts" "sts ! j = row # st" by auto
  then have "sts = take j sts @ (row # st) # drop (Suc j) sts" by (metis id_take_nth_drop)
  then have "sum_list (map length sts) = sum_list (map length (take j sts)) + (Suc (length st)) + sum_list (map length (drop (Suc j) sts))"
    by (metis (no_types) add.assoc length_Cons list.simps(9) map_append sum_list.Cons sum_list_append)
  moreover have "popStream j sts = take j sts @ st # drop (Suc j) sts"
    using st by (simp add: popStream_def upd_conv_take_nth_drop)
  ultimately show ?thesis by simp
qed

function mergeLoop :: "bool \<Rightarrow> int32 \<Rightarrow> int32 \<Rightarrow> bool \<Rightarrow> string list \<Rightarrow> int \<Rightarrow> string list \<Rightarrow> indexRow list list \<Rightarrow> string list" where
  "mergeLoop reversed limit offset dedup seen skipped out streams =
     (case pickStream reversed 0 None streams of
        None \<Rightarrow> out
      | Some (i, row) \<Rightarrow>
          let rest = popStream i streams
          in if dedup \<and> ir_name row \<in> set seen
             then mergeLoop reversed limit offset dedup seen skipped out rest
             else let seen' = (if dedup then ir_name row # seen else seen)
                  in if skipped < sint offset
                     then mergeLoop reversed limit offset dedup seen' (skipped + 1) out rest
                     else let out' = out @ [ir_name row]
                          in if sint limit \<ge> 0 \<and> int (length out') \<ge> sint limit then out'
                             else mergeLoop reversed limit offset dedup seen' skipped out' rest)"
  by pat_completeness auto
termination
  by (relation "measure (\<lambda>(reversed, limit, offset, dedup, seen, skipped, out, streams). sum_list (map length streams))")
     (auto simp: popStream_smaller)

declare mergeLoop.simps [simp del]

definition mergeRanges :: "indexRow list list \<Rightarrow> bool \<Rightarrow> int32 \<Rightarrow> int32 \<Rightarrow> bool \<Rightarrow> string list" where
  "mergeRanges streams reversed limit offset dedup = mergeLoop reversed limit offset dedup [] 0 [] streams"

definition scanIndex :: "Query \<Rightarrow> Plan \<Rightarrow> DB \<Rightarrow> string list" where
  "scanIndex q plan db =
     (case Ranges plan of
        [] \<Rightarrow> []
      | [r] \<Rightarrow> map ir_name (scanRange plan r (Limit q) (Offset q) db)
      | rs \<Rightarrow>
          let perRange = (if sint (Limit q) \<ge> 0 \<and> \<not> Dedup plan then Limit q + Offset q else - 1);
              streams = filter (\<lambda>rows. rows \<noteq> []) (map (\<lambda>r. scanRange plan r perRange 0 db) rs)
          in mergeRanges streams (Reversed plan) (Limit q) (Offset q) (Dedup plan))"

fun deliverNames :: "Query \<Rightarrow> (string \<times> Doc) list \<Rightarrow> string list \<Rightarrow> outcome" where
  "deliverNames q docs [] = ([], None)"
| "deliverNames q docs (n # ns) =
     (case map_of docs n of
        None \<Rightarrow> ([], Some (Status UnknownError))
      | Some doc \<Rightarrow>
          if \<not> Matches q (d_Name doc) (d_Fields doc) then ([], Some (Status UnknownError))
          else (case deliverNames q docs ns of (ds, e) \<Rightarrow> (doc # ds, e)))"

definition runIndexed :: "Query \<Rightarrow> Plan \<Rightarrow> DB \<Rightarrow> outcome" where
  "runIndexed q plan db =
     (let names = scanIndex q plan db
      in if names = [] then ([], None)
         else case GetDocuments names db of
                Inl e \<Rightarrow> ([], Some e)
              | Inr docs \<Rightarrow> deliverNames q docs names)"

section \<open>Queries and counts\<close>

definition RunQuery :: "(JSON \<Rightarrow> JSON \<Rightarrow> bool) \<Rightarrow> indexRegistry \<Rightarrow> Query \<Rightarrow> DB \<Rightarrow> outcome" where
  "RunQuery contains reg q db =
     (let defs = forCollection reg (CollectionID q);
          (dir, nameOnly) = NameOnlyOrder q
      in case (if defs = [] then None else For q defs (\<lambda>i. i \<in> set (reg_ready reg))) of
           Some plan \<Rightarrow> runIndexed q plan db
         | None \<Rightarrow> if nameOnly then runNameOrdered contains q dir db else runGeneral contains q db)"

text \<open>A count is the number of callbacks, or the error.\<close>

definition RunCount :: "(JSON \<Rightarrow> JSON \<Rightarrow> bool) \<Rightarrow> indexRegistry \<Rightarrow> Query \<Rightarrow> int64 \<Rightarrow> DB \<Rightarrow> int \<times> fault option" where
  "RunCount contains reg q upTo db =
     (if Where q = None \<and> Start q = None \<and> End q = None \<and> Offset q = 0
      then let n = int (length (filter (baseConditions q) (documents db)));
               n' = (if sint (Limit q) \<ge> 0 \<and> n > sint (Limit q) then sint (Limit q) else n);
               n'' = (if sint upTo > 0 \<and> n' > sint upTo then sint upTo else n')
           in (n'', None)
      else let bounded = (if sint upTo > 0 \<and> (sint (Limit q) < 0 \<or> sint upTo < sint (Limit q))
                          then q\<lparr>Limit := ucast upTo\<rparr> else q)
           in (case RunQuery contains reg bounded db of (docs, e) \<Rightarrow> (int (length docs), e)))"

section \<open>The reference answer\<close>

text \<open>
  What a query means: the stored documents of its collection that it selects, in query order,
  without the first \<open>Offset\<close>, at most \<open>Limit\<close> of them when there is a limit.
\<close>

definition selectedDocs :: "Query \<Rightarrow> DB \<Rightarrow> Doc list" where
  "selectedDocs q db = filter (selects q) (successes (map scanDoc (filter (baseConditions q) (documents db))))"

definition page :: "Query \<Rightarrow> 'a list \<Rightarrow> 'a list" where
  "page q xs =
     (let ys = drop (nat (sint (Offset q))) xs
      in if sint (Limit q) \<ge> 0 then take (nat (sint (Limit q))) ys else ys)"

definition reference :: "Query \<Rightarrow> DB \<Rightarrow> Doc list" where
  "reference q db = page q (SliceStable (docLess q) (selectedDocs q db))"

definition dcmp :: "Query \<Rightarrow> Doc \<Rightarrow> Doc \<Rightarrow> int" where
  "dcmp q a b = doc_cmp q (d_Name a, d_Fields a) (d_Name b, d_Fields b)"

definition valid_Doc :: "Doc \<Rightarrow> bool" where
  "valid_Doc d \<longleftrightarrow> valid_fields (d_Fields d)"

interpretation stored_order: total_cmp "dcmp q" valid_Doc for q
proof unfold_locales
  have v: "valid_doc (d_Name x, d_Fields x)" if "valid_Doc x" for x
    using that by (simp add: valid_doc_def valid_Doc_def)
  fix a b c assume ab: "valid_Doc a" "valid_Doc b"
  show "dcmp q b a = - dcmp q a b"
    unfolding dcmp_def by (rule doc_order.cmp_swap [OF v [OF ab(1)] v [OF ab(2)]])
  assume c: "valid_Doc c" and le: "dcmp q a b \<le> 0" "dcmp q b c \<le> 0"
  show "dcmp q a c \<le> 0"
    using le unfolding dcmp_def by (rule doc_order.cmp_le_trans [OF v [OF ab(1)] v [OF ab(2)] v [OF c]])
qed

lemma docLess_dcmp: "docLess q = (\<lambda>a b. dcmp q a b < 0)"
  by (simp add: fun_eq_iff docLess_def dcmp_def doc_cmp_def doc_key_def)

lemma dcmp_name: "wf_order (Order q) \<Longrightarrow> dcmp q a b = 0 \<Longrightarrow> d_Name a = d_Name b"
  using doc_cmp_0 [of q "(d_Name a, d_Fields a)" "(d_Name b, d_Fields b)"] by (simp add: dcmp_def)

lemma successes_set: "set (successes rs) = {x. Inr x \<in> set rs}"
  by (induction rs rule: successes.induct) auto

definition readable :: "DocRow list \<Rightarrow> bool" where
  "readable rs \<longleftrightarrow> distinct (map r_name rs) \<and> (\<forall>r \<in> set rs. row_ok valid_value r)"

lemma scan_facts: "scanDoc r = Inr d \<Longrightarrow> d_Name d = r_name r \<and> UnmarshalFields (r_data r) = Inr (d_Fields d)"
  by (auto simp: scanDoc_def split: sum.splits)

lemma scan_valid: "row_ok valid_value r \<Longrightarrow> scanDoc r = Inr d \<Longrightarrow> valid_Doc d"
  by (auto simp: row_ok_def valid_Doc_def scanDoc_def valid_MapValue simp del: valid_value.simps split: sum.splits)

lemma successes_names:
  "\<forall>r \<in> set rs. row_ok P r \<Longrightarrow> map d_Name (successes (map scanDoc rs)) = map r_name rs"
  by (induction rs) (auto dest!: row_ok_scan)

lemma wf_readable: "wf_db valid_value db \<Longrightarrow> readable (filter Q (documents db))"
  by (auto simp: wf_db_def readable_def distinct_map_filter)

lemma selectedDocs_facts:
  assumes "wf_db valid_value db"
  shows "\<forall>d \<in> set (selectedDocs q db). valid_Doc d"
    and "distinct (map d_Name (selectedDocs q db))"
proof -
  let ?rs = "filter (baseConditions q) (documents db)"
  have r: "readable ?rs" by (rule wf_readable [OF assms])
  then show "\<forall>d \<in> set (selectedDocs q db). valid_Doc d"
    by (auto simp: selectedDocs_def successes_set readable_def dest: scan_valid [OF _ sym])
  have "distinct (map d_Name (successes (map scanDoc ?rs)))"
    using r successes_names [of ?rs valid_value] by (simp add: readable_def)
  then show "distinct (map d_Name (selectedDocs q db))" by (simp add: selectedDocs_def distinct_map_filter)
qed

text \<open>A sorted list of exactly the selected documents is the reference list, whatever produced it.\<close>

lemma reference_unique:
  assumes "wf_db valid_value db" "wf_order (Order q)"
    and "sorted_wrt (\<lambda>a b. dcmp q a b \<le> 0) xs" "mset xs = mset (selectedDocs q db)"
  shows "xs = SliceStable (docLess q) (selectedDocs q db)"
proof (rule stored_order.sorted_unique)
  note facts = selectedDocs_facts [OF assms(1), of q]
  have set: "set xs = set (selectedDocs q db)" using assms(4) by (metis set_mset_mset)
  show "sorted_wrt (\<lambda>a b. dcmp q a b \<le> 0) (SliceStable (docLess q) (selectedDocs q db))"
    unfolding docLess_dcmp by (rule stored_order.sorted_SliceStable [OF facts(1)])
  show "\<forall>x \<in> set xs. valid_Doc x" using facts(1) set by simp
  show "\<forall>x \<in> set xs. \<forall>y \<in> set xs. dcmp q x y = 0 \<longrightarrow> x = y"
    using dcmp_name [OF assms(2)] facts(2) unfolding set distinct_map by (auto dest: inj_onD)
qed (use assms in simp_all)

section \<open>Loading and sorting gives the reference answer\<close>

definition narrowing_sound :: "(JSON \<Rightarrow> JSON \<Rightarrow> bool) \<Rightarrow> Query \<Rightarrow> DB \<Rightarrow> bool" where
  "narrowing_sound contains q db \<longleftrightarrow>
     (\<forall>r \<in> set (documents db). \<forall>d. scanDoc r = Inr d \<longrightarrow> selects q d \<longrightarrow> narrowed contains q r)"

lemma generalEntries_eq:
  "\<forall>r \<in> set rs. row_ok P r \<Longrightarrow> generalEntries q rs = Inr (filter (selects q) (successes (map scanDoc rs)))"
  by (induction rs) (auto simp: selects_def dest!: row_ok_scan)

lemma successes_filter:
  assumes "\<forall>r \<in> set rs. \<forall>d. scanDoc r = Inr d \<longrightarrow> S d \<longrightarrow> N r"
  shows "filter S (successes (map scanDoc (filter (\<lambda>r. B r \<and> N r) rs))) = filter S (successes (map scanDoc (filter B rs)))"
  using assms
proof (induction rs)
  case (Cons r rs)
  then show ?case by (cases "scanDoc r") auto
qed simp

lemma candidates_selected:
  "narrowing_sound contains q db \<Longrightarrow>
   filter (selects q) (successes (map scanDoc (candidates contains q db))) = selectedDocs q db"
  unfolding candidates_def selectedDocs_def narrowing_sound_def by (rule successes_filter) simp

lemma slice_drop_take:
  fixes off lim :: int and xs :: "'a list"
  assumes "off \<ge> 0"
  defines "len \<equiv> int (length xs)"
  defines "start \<equiv> if off > len then len else off"
  defines "stop \<equiv> if lim \<ge> 0 \<and> start + lim < len then start + lim else len"
  shows "take (nat (stop - start)) (drop (nat start) xs) =
    (let ys = drop (nat off) xs in if lim \<ge> 0 then take (nat lim) ys else ys) \<and> 0 \<le> start"
proof (cases "off > len")
  case True
  then have "drop (nat off) xs = []" "drop (nat start) xs = []" by (simp_all add: len_def start_def)
  with True show ?thesis by (simp add: start_def len_def)
next
  case False
  then have start: "start = off" by (simp add: start_def)
  have len: "length (drop (nat off) xs) = nat (len - off)" using assms(1) by (simp add: len_def)
  show ?thesis
  proof (cases "lim \<ge> 0 \<and> off + lim < len")
    case True
    then show ?thesis using assms(1) start by (simp add: stop_def)
  next
    case stop: False
    then have "nat (len - off) \<le> nat lim" if "lim \<ge> 0" using that by linarith
    with len have "lim \<ge> 0 \<Longrightarrow> take (nat lim) (drop (nat off) xs) = drop (nat off) xs" by simp
    with stop start len assms(1) show ?thesis by (auto simp: stop_def Let_def)
  qed
qed

lemma runGeneral_reference:
  assumes wf: "wf_db valid_value db" and sound: "narrowing_sound contains q db" and off: "sint (Offset q) \<ge> 0"
  shows "runGeneral contains q db = (reference q db, None)"
proof -
  have "\<forall>r \<in> set (candidates contains q db). row_ok valid_value r" using wf by (simp add: candidates_def wf_db_def)
  from generalEntries_eq [OF this, of q] candidates_selected [OF sound]
  have "generalEntries q (candidates contains q db) = Inr (selectedDocs q db)" by simp
  with slice_drop_take [OF off, where xs = "SliceStable (docLess q) (selectedDocs q db)" and lim = "sint (Limit q)"]
  show ?thesis unfolding runGeneral_def reference_def page_def Let_def by simp
qed

end
