(* ===== verification/IndexScan.thy ===== *)
theory IndexScan
  imports StoreQuery
begin

text \<open>
  Serving a query from an index (\<^verbatim>\<open>runIndexed\<close>, \<^verbatim>\<open>scanIndex\<close>, \<^verbatim>\<open>scanRange\<close>, \<^verbatim>\<open>mergeRanges\<close> of
  \<^verbatim>\<open>store/query.go\<close>): merging the ranges of a plan gives the reference answer.
\<close>

section \<open>The ranges of a plan\<close>

lemma inRanges_list:
  assumes "inRanges d eq cP path q seen ranges rv vs = Some (ranges', rv')" "map_of eq path = None"
    and rho: "\<forall>v p r. match d (eq @ [(path, v)]) cP (Order q) = Some (p, r) \<longrightarrow> r = rho"
  shows "\<exists>ps. ranges' = ranges @ map (\<lambda>p. rangeFor d (Suc (length eq)) p rho q) ps \<and> distinct ps \<and> set ps \<inter> set seen = {} \<and>
    (\<forall>p \<in> set ps. \<exists>v \<in> set vs. \<not> IsNull v \<and> \<not> IsNaN v \<and> match d (eq @ [(path, v)]) cP (Order q) = Some (p, rho))"
  using assms(1)
proof (induction vs arbitrary: seen ranges rv)
  case (Cons v vs)
  have upd: "AList.update path v eq = eq @ [(path, v)]" for v using assms(2) by (simp add: update_absent)
  show ?case
  proof (cases "IsNull v \<or> IsNaN v")
    case True
    with Cons.IH Cons.prems show ?thesis by fastforce
  next
    case False
    with Cons.prems obtain p where m: "match d (eq @ [(path, v)]) cP (Order q) = Some (p, rho)"
      using rho by (auto simp: upd Let_def split: option.splits)
    show ?thesis
    proof (cases "p \<in> set seen")
      case True
      with m False Cons.prems have "inRanges d eq cP path q seen ranges rv vs = Some (ranges', rv')" by (simp add: upd)
      from Cons.IH [OF this] show ?thesis by fastforce
    next
      case new: False
      with m False Cons.prems
      have "inRanges d eq cP path q (p # seen) (ranges @ [rangeFor d (Suc (length eq)) p rho q]) rho vs = Some (ranges', rv')"
        by (simp add: upd)
      from Cons.IH [OF this] obtain ps where
        "ranges' = (ranges @ [rangeFor d (Suc (length eq)) p rho q]) @ map (\<lambda>p. rangeFor d (Suc (length eq)) p rho q) ps"
        "distinct ps" "set ps \<inter> set (p # seen) = {}"
        "\<forall>p \<in> set ps. \<exists>v \<in> set vs. \<not> IsNull v \<and> \<not> IsNaN v \<and> match d (eq @ [(path, v)]) cP (Order q) = Some (p, rho)" by blast
      with new m False show ?thesis by (intro exI [of _ "p # ps"]) auto
    qed
  qed
qed simp

lemma plan_list:
  assumes "For q defs rdy = Some plan" and split: "splitFilters q = Some (eq, io, inl)"
  obtains n ps where "Ranges plan = map (\<lambda>p. rangeFor (pDef plan) n p (Reversed plan) q) ps" "distinct ps"
    "\<And>p. p \<in> set ps \<Longrightarrow> \<exists>e \<in> planEqs eq inl. length e = n \<and> match (pDef plan) e (containsPath q) (Order q) = Some (p, Reversed plan)"
proof -
  from assms(1) obtain eq' io' inl' where "splitFilters q = Some (eq', io', inl')"
    "tryDefs q eq' inl' rdy defs = Some plan" by (rule For_Some)
  with split have td: "tryDefs q eq inl rdy defs = Some plan" by simp
  from tryDefs_Some [OF td] have pr: "planRanges (pDef plan) eq inl q = Some (Ranges plan, Reversed plan)" by blast
  show thesis
  proof (cases inl)
    case None
    with pr obtain p where "match (pDef plan) eq (containsPath q) (Order q) = Some (p, Reversed plan)"
      "Ranges plan = [rangeFor (pDef plan) (length eq) p (Reversed plan) q]"
      by (auto simp: planRanges_def Let_def split: option.splits)
    with None show thesis by (intro that [of "length eq" "[p]"]) (auto simp: planEqs_def)
  next
    case (Some i)
    have dup: "map_of eq (inPath i) = None" using split Some by (auto elim: splitFilters_collect)
    show thesis
    proof (cases "Ranges plan = []")
      case True
      then show thesis by (intro that [of 0 "[]"]) simp_all
    next
      case False
      with pr Some have ir: "inRanges (pDef plan) eq (containsPath q) (inPath i) q [] [] False (inValues i) = Some (Ranges plan, Reversed plan)"
        by (auto simp: planRanges_def Let_def split: option.splits if_splits)
      obtain rho where rho: "\<forall>v p r. match (pDef plan) (eq @ [(inPath i, v)]) (containsPath q) (Order q) = Some (p, r) \<longrightarrow> r = rho"
      proof (cases "\<exists>v p r. match (pDef plan) (eq @ [(inPath i, v)]) (containsPath q) (Order q) = Some (p, r)")
        case True
        then obtain v p r where m: "match (pDef plan) (eq @ [(inPath i, v)]) (containsPath q) (Order q) = Some (p, r)" by blast
        have "r' = r" if "match (pDef plan) (eq @ [(inPath i, v')]) (containsPath q) (Order q) = Some (p', r')" for v' p' r'
          by (rule match_reversed [OF that m]) simp
        then show thesis by (intro that [of r]) blast
      next
        case False
        then show thesis by (intro that [of True]) blast
      qed
      have "Reversed plan = rho" using inRanges_set [OF ir dup rho] False by simp
      from inRanges_list [OF ir dup rho, folded this] obtain ps where
        ps: "Ranges plan = [] @ map (\<lambda>p. rangeFor (pDef plan) (Suc (length eq)) p (Reversed plan) q) ps" "distinct ps"
        and v: "\<forall>p \<in> set ps. \<exists>v \<in> set (inValues i). \<not> IsNull v \<and> \<not> IsNaN v \<and>
          match (pDef plan) (eq @ [(inPath i, v)]) (containsPath q) (Order q) = Some (p, Reversed plan)" by blast
      have "\<exists>e \<in> planEqs eq inl. length e = Suc (length eq) \<and> match (pDef plan) e (containsPath q) (Order q) = Some (p, Reversed plan)"
        if p: "p \<in> set ps" for p
      proof -
        from v p obtain v where "v \<in> goodValues i" "match (pDef plan) (eq @ [(inPath i, v)]) (containsPath q) (Order q) = Some (p, Reversed plan)"
          unfolding goodValues_def by blast
        with Some show ?thesis by (intro bexI [of _ "eq @ [(inPath i, v)]"]) (simp_all add: planEqs_def)
      qed
      with ps show thesis by (intro that [of "Suc (length eq)" ps]) simp_all
    qed
  qed
qed

lemma tuples_equal:
  assumes "list_all2 (\<lambda>a b. Compare a b = 0) vs ws"
  shows "compareTuples os vs ws = 0"
  using assms
proof (induction os arbitrary: vs ws)
  case (Cons o1 os)
  then show ?case by (cases vs; cases ws) auto
qed simp

text \<open>Without array-contains-any, a document's values determine the prefix it can be found under.\<close>

lemma prefix_unique:
  assumes For: "For q defs rdy = Some plan" and ok: "plan_ok q (pDef plan)" and nodup: "\<not> Dedup plan"
    and split: "splitFilters q = Some (eq, io, inl)"
    and e: "e \<in> planEqs eq inl" "match (pDef plan) e (containsPath q) (Order q) = Some (p, rho)" "\<forall>pv \<in> set e. eqHolds (containsPath q) n f pv"
    and e': "e' \<in> planEqs eq inl" "match (pDef plan) e' (containsPath q) (Order q) = Some (p', rho')" "\<forall>pv \<in> set e'. eqHolds (containsPath q) n f pv"
    and f: "valid_fields f"
  shows "p = p'"
proof -
  let ?d = "pDef plan" and ?cP = "containsPath q"
  have wf: "wf_def ?d" "wf_order (Order q)" using ok by (simp_all add: plan_ok_def)
  have len: "length e = length e'" using e(1) e'(1) by (auto simp: planEqs_def split: option.splits)
  obtain E vals where E: "E = take (length e) (dFields ?d)"
    and vals: "list_all2 (\<lambda>g v. map_of e (fPath g) = Some v \<and> fContains g = (?cP \<noteq> [] \<and> fPath g = ?cP)) E vals"
    and p: "p = fieldsKey E vals" by (rule match_parts [OF wf e(2)]) blast
  obtain E' vals' where E': "E' = take (length e') (dFields ?d)" and
    vals': "list_all2 (\<lambda>g v. map_of e' (fPath g) = Some v \<and> fContains g = (?cP \<noteq> [] \<and> fPath g = ?cP)) E' vals'"
    and p': "p' = fieldsKey E' vals'" by (rule match_parts [OF wf e'(2)]) blast
  have "E' = E" using E E' len by simp
  note vals' = vals' [unfolded this] and p' = p' [unfolded this]
  note ok1 = planEqs_ok [OF split ok e(1)] and ok2 = planEqs_ok [OF split ok e'(1)]
  have nm: "\<forall>g \<in> set E. fPath g \<noteq> NameField" using wf_def_fields [OF wf(1)] E by (auto dest: in_set_takeD)
  have okv: "fields_ok E vals" "fields_ok E vals'"
    unfolding fields_ok_def
    by (rule list.rel_mono_strong [OF vals], use nm ok1(3) in \<open>auto simp: field_ok_def dest!: map_of_SomeD\<close>)
       (rule list.rel_mono_strong [OF vals'], use nm ok2(3) in \<open>auto simp: field_ok_def dest!: map_of_SomeD\<close>)
  have same: "Compare v v' = 0" if v: "map_of e x = Some v" and v': "map_of e' x = Some v'" for x v v'
  proof (cases "\<exists>i. inl = Some i \<and> x = inPath i")
    case False
    then have "map_of e x = map_of eq x" "map_of e' x = map_of eq x"
      using e(1) e'(1) by (auto simp: planEqs_def map_add_def split: option.splits)
    with v v' have "v = v'" by simp
    with ok1(3) v show ?thesis using Equal_refl [of v] by (auto simp: Equal_def dest!: map_of_SomeD)
  next
    case True
    then obtain i where i: "inl = Some i" "x = inPath i" by blast
    from For obtain eq' io' inl' where "splitFilters q = Some (eq', io', inl')"
      "tryDefs q eq' inl' rdy defs = Some plan" by (rule For_Some)
    with split have td: "tryDefs q eq inl rdy defs = Some plan" by simp
    from tryDefs_Some [OF td] nodup i(1) have nc: "\<not> inContains i" by simp
    have cP: "\<not> (?cP \<noteq> [] \<and> x = ?cP)"
    proof
      assume c: "?cP \<noteq> [] \<and> x = ?cP"
      from split obtain st where st: "collectWhere q = Some st" "splitContains st = Some eq" "inl = c_in st"
        "map_of eq (inPath i) = None" by (rule splitFilters_collect) (use i(1) in auto)
      with c nc i show False
        by (auto simp: containsPath_def splitContains_def update_absent split: option.splits if_splits)
    qed
    have "evalFieldFilter x EQUAL v n f" "evalFieldFilter x EQUAL v' n f"
      using e(3) e'(3) v v' cP by (auto simp: eqHolds_def dest!: map_of_SomeD)
    then obtain a where a: "valid_value a" "Compare a v = 0" "Compare a v' = 0"
    proof (cases "x = NameField")
      case True
      with \<open>evalFieldFilter x EQUAL v n f\<close> \<open>evalFieldFilter x EQUAL v' n f\<close> show thesis
        by (intro that [of "ReferenceValue n"]) (simp_all add: evalFieldFilter_def evalOp_def)
    next
      case False
      with \<open>evalFieldFilter x EQUAL v n f\<close> obtain path b where "ParseFieldPath x = Inr path" "GetField f path = Some b"
        by (auto simp: evalFieldFilter_def split: sum.splits option.splits)
      with False \<open>evalFieldFilter x EQUAL v n f\<close> \<open>evalFieldFilter x EQUAL v' n f\<close> valid_GetField [OF f] show thesis
        by (intro that [of b]) (auto simp: evalFieldFilter_def evalOp_def)
    qed
    have "valid_value v" "valid_value v'" using ok1(3) ok2(3) v v' by (auto dest!: map_of_SomeD)
    with a show ?thesis using value_key.cmp_zero_trans [of v a v'] value_key.cmp_zero_sym [of a v] by auto
  qed
  have "list_all2 (\<lambda>a b. Compare a b = 0) vals vals'"
  proof (rule list_all2_all_nthI)
    show "length vals = length vals'" using vals vals' by (simp add: list_all2_lengthD [symmetric])
    fix j assume "j < length vals"
    then show "Compare (vals ! j) (vals' ! j) = 0"
      using list_all2_nthD2 [OF vals, of j] list_all2_nthD2 [OF vals', of j] list_all2_lengthD [OF vals] list_all2_lengthD [OF vals']
        same [of "fPath (E ! j)" "vals ! j" "vals' ! j"] by simp
  qed
  then show ?thesis using index_key.enc_eq_iff [OF okv] tuples_equal p p' by simp
qed

section \<open>Merging\<close>

text \<open>The rows of all streams in the order they are taken, and what is then made of them.\<close>

function mergeAll :: "bool \<Rightarrow> indexRow list list \<Rightarrow> indexRow list" where
  "mergeAll reversed streams =
     (case pickStream reversed 0 None streams of
        None \<Rightarrow> []
      | Some (i, row) \<Rightarrow> row # mergeAll reversed (popStream i streams))"
  by pat_completeness auto
termination
  by (relation "measure (\<lambda>(reversed, streams). sum_list (map length streams))") (auto simp: popStream_smaller)

declare mergeAll.simps [simp del]

fun consume :: "int32 \<Rightarrow> int32 \<Rightarrow> bool \<Rightarrow> string list \<Rightarrow> int \<Rightarrow> string list \<Rightarrow> string list \<Rightarrow> string list" where
  "consume limit offset dedup seen skipped out [] = out"
| "consume limit offset dedup seen skipped out (n # ns) =
     (if dedup \<and> n \<in> set seen then consume limit offset dedup seen skipped out ns
      else if skipped < sint offset then consume limit offset dedup (if dedup then n # seen else seen) (skipped + 1) out ns
      else if sint limit \<ge> 0 \<and> int (length (out @ [n])) \<ge> sint limit then out @ [n]
      else consume limit offset dedup (if dedup then n # seen else seen) skipped (out @ [n]) ns)"

lemma mergeLoop_consume:
  "mergeLoop reversed limit offset dedup seen skipped out streams =
     consume limit offset dedup seen skipped out (map ir_name (mergeAll reversed streams))"
proof (induction reversed limit offset dedup seen skipped out streams rule: mergeLoop.induct)
  case (1 reversed limit offset dedup seen skipped out streams)
  show ?case
  proof (cases "pickStream reversed 0 None streams")
    case None
    then show ?thesis by (simp add: mergeLoop.simps mergeAll.simps)
  next
    case (Some ir)
    obtain i row where ir: "ir = (i, row)" by (cases ir)
    note IH = 1 [OF Some ir [symmetric] refl]
    show ?thesis
      unfolding mergeLoop.simps [of reversed limit offset dedup seen skipped out streams] mergeAll.simps [of reversed streams]
      using IH Some ir by (simp add: Let_def)
  qed
qed

text \<open>The names in the order of their first occurrence.\<close>

fun firsts :: "string list \<Rightarrow> string list \<Rightarrow> string list" where
  "firsts seen [] = []"
| "firsts seen (n # ns) = (if n \<in> set seen then firsts seen ns else n # firsts (n # seen) ns)"

lemma consume_dedup:
  "consume limit offset True seen skipped out ns = consume limit offset False [] skipped out (firsts seen ns)"
  by (induction ns arbitrary: seen skipped out) auto

lemma consume_page:
  assumes "sint limit < 0 \<or> int (length out) < sint limit" "0 \<le> skipped" "skipped \<le> sint offset \<or> sint offset < 0"
  shows "consume limit offset False seen skipped out ns =
    out @ (let ys = drop (nat (sint offset - skipped)) ns in if sint limit \<ge> 0 then take (nat (sint limit - int (length out))) ys else ys)"
  using assms
proof (induction ns arbitrary: skipped out seen)
  case (Cons n ns)
  show ?case
  proof (cases "skipped < sint offset")
    case True
    then have "nat (sint offset - skipped) = Suc (nat (sint offset - (skipped + 1)))" by simp
    with True Cons.IH [of out "skipped + 1" seen] Cons.prems show ?thesis by simp
  next
    case False
    then have d: "nat (sint offset - skipped) = 0" by simp
    show ?thesis
    proof (cases "sint limit \<ge> 0 \<and> int (length (out @ [n])) \<ge> sint limit")
      case True
      with Cons.prems have "nat (sint limit - int (length out)) = Suc 0" by auto
      with True False d show ?thesis by simp
    next
      case go: False
      then have "sint limit \<ge> 0 \<Longrightarrow> nat (sint limit - int (length out)) = Suc (nat (sint limit - int (length (out @ [n]))))" by simp
      with go False d Cons.IH [of "out @ [n]" skipped seen] Cons.prems show ?thesis by (auto simp: Let_def)
    qed
  qed
qed simp

lemma mergeRanges_page:
  assumes "sint limit \<noteq> 0"
  shows "mergeRanges streams reversed limit offset dedup =
    (let ns = map ir_name (mergeAll reversed streams); us = (if dedup then firsts [] ns else ns); ys = drop (nat (sint offset)) us
     in if sint limit \<ge> 0 then take (nat (sint limit)) ys else ys)"
proof -
  have "sint limit < 0 \<or> int (length ([] :: string list)) < sint limit" using assms by auto
  moreover have "(0 :: int) \<le> sint offset \<or> sint offset < 0" by auto
  ultimately show ?thesis
    by (cases dedup) (simp_all add: mergeRanges_def mergeLoop_consume consume_dedup consume_page Let_def)
qed

section \<open>The merge is sorted\<close>

lemma pickStream_None: "pickStream reversed i best sts = None \<longleftrightarrow> best = None \<and> (\<forall>st \<in> set sts. st = [])"
  by (induction reversed i best sts rule: pickStream.induct) (auto simp: Let_def split: option.splits prod.splits if_splits)

lemma popStream_mset:
  assumes "pickStream reversed 0 None sts = Some (j, row)"
  shows "mset (concat sts) = add_mset row (mset (concat (popStream j sts)))"
proof -
  from pickStream_bounds [OF assms] obtain st where st: "j < length sts" "sts ! j = row # st" by auto
  then have split: "sts = take j sts @ (row # st) # drop (Suc j) sts" by (metis id_take_nth_drop)
  have "popStream j sts = take j sts @ st # drop (Suc j) sts"
    using st by (simp add: popStream_def upd_conv_take_nth_drop)
  moreover have "mset (concat (take j sts @ (row # st) # drop (Suc j) sts)) =
      add_mset row (mset (concat (take j sts @ st # drop (Suc j) sts)))" by simp
  ultimately show ?thesis using split by metis
qed

lemma mset_mergeAll: "mset (mergeAll reversed sts) = mset (concat sts)"
proof (induction reversed sts rule: mergeAll.induct)
  case (1 reversed sts)
  show ?case
  proof (cases "pickStream reversed 0 None sts")
    case None
    then have "concat sts = []" by (auto simp: pickStream_None)
    with None show ?thesis by (simp add: mergeAll.simps)
  next
    case (Some ir)
    obtain i row where ir: "ir = (i, row)" by (cases ir)
    with 1 [OF Some ir [symmetric]] popStream_mset [of reversed sts i row] Some show ?thesis
      by (subst mergeAll.simps) simp
  qed
qed

definition rowCmp :: "bool \<Rightarrow> indexRow \<Rightarrow> indexRow \<Rightarrow> int" where
  "rowCmp reversed a b = (if reversed then - 1 else 1) * bytes_Compare (ir_suffix a) (ir_suffix b)"

interpretation row_order: total_cmp "rowCmp reversed" "\<lambda>_. True" for reversed
  by unfold_locales (auto simp: rowCmp_def bytes_Compare_cmp3 cmp3_def split: if_splits)

lemma pickStream_least:
  assumes "pickStream reversed i best sts = Some (j, row)"
  shows "(\<forall>j' row'. best = Some (j', row') \<longrightarrow> rowCmp reversed row row' \<le> 0) \<and>
    (\<forall>st \<in> set sts. st \<noteq> [] \<longrightarrow> rowCmp reversed row (hd st) \<le> 0)"
  using assms
proof (induction reversed i best sts rule: pickStream.induct)
  case (1 reversed i best)
  then show ?case by (simp add: row_order.cmp_refl)
next
  case (3 reversed i best row' st sts)
  let ?b = "case best of None \<Rightarrow> Some (i, row') | Some (j, brow) \<Rightarrow>
     let c = bytes_Compare (ir_suffix row') (ir_suffix brow) in if (if reversed then - c else c) < 0 then Some (i, row') else best"
  have "?b \<noteq> None" by (simp add: Let_def split: option.split prod.split)
  then obtain br where br: "?b = Some br" by blast
  obtain j0 row0 where "br = (j0, row0)" by (cases br)
  with br have b: "?b = Some (j0, row0)" by simp
  have le: "rowCmp reversed row row0 \<le> 0" "\<forall>st \<in> set sts. st \<noteq> [] \<longrightarrow> rowCmp reversed row (hd st) \<le> 0"
    using 3 b by auto
  have r0: "rowCmp reversed row0 row' \<le> 0" "\<And>j' row''. best = Some (j', row'') \<Longrightarrow> rowCmp reversed row0 row'' \<le> 0"
    using b by (auto simp: rowCmp_def Let_def bytes_Compare_cmp3 cmp3_def split: option.splits prod.splits if_splits)
  have "rowCmp reversed row row' \<le> 0" "\<And>j' row''. best = Some (j', row'') \<Longrightarrow> rowCmp reversed row row'' \<le> 0"
    using row_order.cmp_le_trans [where a = row and b = row0 and reversed = reversed] le(1) r0 by blast+
  with le(2) show ?case by auto
qed simp

lemma sorted_mergeAll:
  assumes "\<forall>st \<in> set sts. sorted_wrt (\<lambda>a b. rowCmp reversed a b \<le> 0) st"
  shows "sorted_wrt (\<lambda>a b. rowCmp reversed a b \<le> 0) (mergeAll reversed sts)"
  using assms
proof (induction reversed sts rule: mergeAll.induct)
  case (1 reversed sts)
  show ?case
  proof (cases "pickStream reversed 0 None sts")
    case None
    then show ?thesis by (simp add: mergeAll.simps)
  next
    case (Some ir)
    obtain i row where ir: "ir = (i, row)" by (cases ir)
    from pickStream_bounds [OF Some [unfolded ir]] obtain st where st: "i < length sts" "sts ! i = row # st" by auto
    then have mem: "row # st \<in> set sts" by (metis nth_mem)
    have pop: "set (popStream i sts) \<subseteq> insert st (set sts)"
      using st set_update_subset_insert [of sts i st] by (simp add: popStream_def)
    have "sorted_wrt (\<lambda>a b. rowCmp reversed a b \<le> 0) st" using 1(2) mem by force
    with 1(2) pop have sorted: "\<forall>st \<in> set (popStream i sts). sorted_wrt (\<lambda>a b. rowCmp reversed a b \<le> 0) st" by blast
    have least: "\<forall>s \<in> set sts. s \<noteq> [] \<longrightarrow> rowCmp reversed row (hd s) \<le> 0"
      using pickStream_least [OF Some [unfolded ir]] by blast
    have all: "rowCmp reversed row x \<le> 0" if "x \<in> set s" "s \<in> set sts" for x s
    proof -
      from that obtain y s' where s: "s = y # s'" by (cases s) auto
      with least that have "rowCmp reversed row y \<le> 0" by fastforce
      moreover have "x = y \<or> rowCmp reversed y x \<le> 0" using 1(2) that s by auto
      ultimately show ?thesis using row_order.cmp_le_trans [where a = row and b = y and c = x and reversed = reversed] by blast
    qed
    have "set (mergeAll reversed (popStream i sts)) = \<Union> (set ` set (popStream i sts))"
      using mset_mergeAll [of reversed "popStream i sts"] by (metis set_concat set_mset_mset)
    with pop all mem have "\<forall>x \<in> set (mergeAll reversed (popStream i sts)). rowCmp reversed row x \<le> 0"
      by (smt (verit) UN_E insert_iff list.set_intros(2) subsetD)
    with 1(1) [OF Some ir [symmetric] sorted] Some ir show ?thesis by (subst mergeAll.simps) simp
  qed
qed

text \<open>The first rows of a merge only depend on the first rows of the streams.\<close>

lemma pickStream_heads:
  "list_all2 (\<lambda>s t. take 1 s = take 1 t) ss ts \<Longrightarrow> pickStream reversed i best ss = pickStream reversed i best ts"
proof (induction ss ts arbitrary: i best rule: list_all2_induct)
  case (Cons s ss t ts)
  then show ?case by (cases s; cases t) auto
qed simp

lemma take_mergeAll:
  "list_all2 (\<lambda>s t. take m s = take m t) ss ts \<Longrightarrow> take m (mergeAll reversed ss) = take m (mergeAll reversed ts)"
proof (induction m arbitrary: ss ts)
  case (Suc m)
  have "take 1 s = take 1 t" if "take (Suc m) s = take (Suc m) t" for s t :: "indexRow list"
    using that by (cases s; cases t) auto
  then have pick: "pickStream reversed 0 None ss = pickStream reversed 0 None ts"
    by (intro pickStream_heads list_all2_mono [OF Suc.prems]) blast
  show ?case
  proof (cases "pickStream reversed 0 None ts")
    case None
    with pick show ?thesis by (simp add: mergeAll.simps)
  next
    case (Some ir)
    obtain i row where ir: "ir = (i, row)" by (cases ir)
    have step: "take m s = take m t" "take m (tl s) = take m (tl t)" if "take (Suc m) s = take (Suc m) t" for s t :: "indexRow list"
    proof -
      from that have "take m (take (Suc m) s) = take m (take (Suc m) t)" by simp
      then show "take m s = take m t" by (simp add: min_def)
      from that show "take m (tl s) = take m (tl t)" by (cases s; cases t) auto
    qed
    have "i < length ts" using pickStream_bounds [OF Some [unfolded ir]] by auto
    with Suc.prems have "take (Suc m) (ss ! i) = take (Suc m) (ts ! i)" by (simp add: list_all2_conv_all_nth)
    from step(2) [OF this] have tls: "take m (tl (ss ! i)) = take m (tl (ts ! i))" .
    have "list_all2 (\<lambda>s t. take m s = take m t) ss ts" by (rule list_all2_mono [OF Suc.prems]) (rule step(1))
    with tls have "list_all2 (\<lambda>s t. take m s = take m t) (popStream i ss) (popStream i ts)"
      unfolding popStream_def by (intro list_all2_update_cong) simp_all
    with Suc.IH Some pick ir show ?thesis
      by (simp add: mergeAll.simps [of reversed ss] mergeAll.simps [of reversed ts])
  qed
qed simp

section \<open>Rows and documents\<close>

lemma bounds_Lo: "fst (bounds d n p r q) \<noteq> None"
proof -
  have max: "maxBound lo b \<noteq> None" if "lo \<noteq> None" for lo b
    using that by (auto simp: maxBound_def split: option.split)
  have ineq: "fst (fst (ineqBounds d n p fd ineq b)) \<noteq> None" if "fst b \<noteq> None" for fd ineq b
    using that max by (cases b) (auto simp: ineqBounds_def ineqSwitch_def Let_def split: ineqOp.split)
  have s: "fst (startBounds d n p r q b) \<noteq> None" if "fst b \<noteq> None" for b
    using that max by (cases b) (auto simp: startBounds_def Let_def split: option.split)
  have e: "fst (endBounds d n p r q b) \<noteq> None" if "fst b \<noteq> None" for b
    using that max by (cases b) (auto simp: endBounds_def Let_def split: option.split)
  have c: "fst (closeBounds b) = fst b" for b
    by (cases b) (auto simp: closeBounds_def split: option.split)
  define X where "X = (case splitFilters q of Some (_, Some ineq, _) \<Rightarrow> ineqBounds d n p (fDesc (effectiveFields d ! n)) ineq (Some p, PrefixEnd p)
      | _ \<Rightarrow> ((Some p, PrefixEnd p), False))"
  have X: "fst (fst X) \<noteq> None"
  proof (cases "splitFilters q")
    case None
    then show ?thesis by (simp add: X_def)
  next
    case (Some t)
    obtain eqs io inl where "t = (eqs, io, inl)" by (cases t)
    with Some ineq show ?thesis by (cases io) (simp_all add: X_def)
  qed
  obtain b1 stop where b1: "X = (b1, stop)" by (cases X)
  with X have "fst b1 \<noteq> None" by simp
  with s e c b1 show ?thesis by (simp add: bounds_def Let_def X_def)
qed

definition rangeEntries :: "Plan \<Rightarrow> Range \<Rightarrow> DB \<Rightarrow> IndexEntry list" where
  "rangeEntries plan r db =
     (let es = sort_key e_key (filter (\<lambda>e. e_index_id e = ID (pDef plan) \<and>
                  (case Lo r of None \<Rightarrow> False | Some lo \<Rightarrow> lo \<le> e_key e) \<and>
                  (case Hi r of None \<Rightarrow> True | Some hi \<Rightarrow> e_key e < hi)) (index_entries db))
      in if Reversed plan then rev es else es)"

definition rowOfEntry :: "Range \<Rightarrow> IndexEntry \<Rightarrow> indexRow" where
  "rowOfEntry r e = \<lparr>ir_name = e_doc_name e, ir_suffix = drop (SuffixFrom r) (e_key e)\<rparr>"

lemma scanRange_rows:
  "scanRange plan r limit offset db =
     (let ys = drop (nat (sint offset)) (map (rowOfEntry r) (rangeEntries plan r db))
      in if sint limit \<ge> 0 then take (nat (sint limit)) ys else ys)"
  by (simp add: scanRange_def rangeEntries_def rowOfEntry_def [abs_def] Let_def drop_map take_map)

text \<open>What serving a query from an index relies on.\<close>

definition index_serves :: "Query \<Rightarrow> Plan \<Rightarrow> DB \<Rightarrow> bool" where
  "index_serves q plan db \<longleftrightarrow>
     plan_ok q (pDef plan) \<and> index_complete (pDef plan) db \<and> wf_db valid_value db \<and> distinct (index_entries db) \<and>
     (\<forall>r \<in> set (documents db). r_collection_id r = CollectionID q \<longrightarrow> baseConditions q r)"

lemma range_Lo:
  assumes "For q defs rdy = Some plan" "r \<in> set (Ranges plan)"
  shows "Lo r \<noteq> None"
proof -
  from assms(1) obtain eq io inl where split: "splitFilters q = Some (eq, io, inl)" by (rule For_Some)
  obtain n ps where "Ranges plan = map (\<lambda>p. rangeFor (pDef plan) n p (Reversed plan) q) ps"
    by (rule plan_list [OF assms(1) split]) blast
  with assms(2) obtain p where "r = rangeFor (pDef plan) n p (Reversed plan) q" by auto
  then show ?thesis using bounds_Lo [of "pDef plan" n p "Reversed plan" q] by (auto simp: rangeFor_def split: prod.splits)
qed

lemma docOf_scan: "docOf db n = Some d \<longleftrightarrow> (\<exists>r. rowOf db n = Some r \<and> scanDoc r = Inr d)"
  by (auto simp: docOf_def split: option.splits sum.splits)

lemma docOf_facts:
  assumes "wf_db valid_value db" "docOf db n = Some d"
  shows "d_Name d = n" "valid_fields (d_Fields d)"
proof -
  from assms(2) obtain r where r: "rowOf db n = Some r" "scanDoc r = Inr d" by (auto simp: docOf_scan)
  with rowOf_Some [OF r(1)] scan_facts [OF r(2)] show "d_Name d = n" by simp
  show "valid_fields (d_Fields d)"
    using scan_valid [OF _ r(2)] assms(1) rowOf_Some [OF r(1)] by (simp add: wf_db_def valid_Doc_def)
qed

lemma in_rangeEntries:
  assumes For: "For q defs rdy = Some plan" and serve: "index_serves q plan db" and r: "r \<in> set (Ranges plan)"
  shows "e \<in> set (rangeEntries plan r db) \<longleftrightarrow> e_index_id e = ID (pDef plan) \<and> in_range (Lo r, Hi r) (e_key e) \<and>
    (\<exists>d row. docOf db (e_doc_name e) = Some d \<and> rowOf db (e_doc_name e) = Some row \<and> r_collection_id row = CollectionID q \<and>
       e_key e \<in> set (Keys (pDef plan) (d_Name d) (d_Fields d)))"
proof -
  have coll: "dCollectionID (pDef plan) = CollectionID q" using For by (rule For_Some) (use tryDefs_Some in blast)
  have rng: "(case Lo r of None \<Rightarrow> False | Some lo \<Rightarrow> lo \<le> e_key e) \<and> (case Hi r of None \<Rightarrow> True | Some hi \<Rightarrow> e_key e < hi) \<longleftrightarrow>
      in_range (Lo r, Hi r) (e_key e)"
    using range_Lo [OF For r] by (auto simp: in_range_def split: option.splits)
  have "e \<in> set (rangeEntries plan r db) \<longleftrightarrow> e \<in> set (index_entries db) \<and> e_index_id e = ID (pDef plan) \<and> in_range (Lo r, Hi r) (e_key e)"
    using rng by (auto simp: rangeEntries_def Let_def)
  also have "\<dots> \<longleftrightarrow> e_index_id e = ID (pDef plan) \<and> in_range (Lo r, Hi r) (e_key e) \<and> e \<in> docEntries (pDef plan) db (e_doc_name e)"
    using serve index_completeD [of "pDef plan" db e] by (auto simp: index_serves_def)
  also have "\<dots> \<longleftrightarrow> e_index_id e = ID (pDef plan) \<and> in_range (Lo r, Hi r) (e_key e) \<and>
    (\<exists>d row. docOf db (e_doc_name e) = Some d \<and> rowOf db (e_doc_name e) = Some row \<and> r_collection_id row = CollectionID q \<and>
       e_key e \<in> set (Keys (pDef plan) (d_Name d) (d_Fields d)))"
    using coll rowOf_Some [of db "e_doc_name e"]
    by (auto simp: in_docEntries in_entriesOf docOf_def scanDoc_def split: option.splits sum.splits)
  finally show ?thesis .
qed

lemma in_selectedDocs:
  assumes serve: "index_serves q plan db"
  shows "d \<in> set (selectedDocs q db) \<longleftrightarrow>
    (\<exists>row. docOf db (d_Name d) = Some d \<and> rowOf db (d_Name d) = Some row \<and> r_collection_id row = CollectionID q \<and> selects q d)"
proof -
  have wf: "wf_db valid_value db" and base: "\<And>r. r \<in> set (documents db) \<Longrightarrow> r_collection_id r = CollectionID q \<Longrightarrow> baseConditions q r"
    using serve by (simp_all add: index_serves_def)
  have coll: "baseConditions q r \<Longrightarrow> r_collection_id r = CollectionID q" for r
    by (simp add: baseConditions_def split: if_split_asm)
  have "baseConditions q r \<longleftrightarrow> r_collection_id r = CollectionID q" if "r \<in> set (documents db)" for r
    using base [OF that] coll by (rule iffI [rotated])
  then have rows: "filter (baseConditions q) (documents db) = filter (\<lambda>r. r_collection_id r = CollectionID q) (documents db)"
    by (rule filter_cong [OF refl])
  have "set (selectedDocs q db) = {d. selects q d \<and> Inr d \<in> scanDoc ` {r \<in> set (documents db). r_collection_id r = CollectionID q}}"
    unfolding selectedDocs_def rows set_filter successes_set set_map by (simp add: conj_commute)
  then have "d \<in> set (selectedDocs q db) \<longleftrightarrow>
      (\<exists>row \<in> set (documents db). scanDoc row = Inr d \<and> r_collection_id row = CollectionID q \<and> selects q d)"
    by (simp add: image_iff eq_commute [of "Inr d"] conj_ac Bex_def)
  also have "\<dots> \<longleftrightarrow> (\<exists>row. docOf db (d_Name d) = Some d \<and> rowOf db (d_Name d) = Some row \<and> r_collection_id row = CollectionID q \<and> selects q d)"
  proof
    assume "\<exists>row \<in> set (documents db). scanDoc row = Inr d \<and> r_collection_id row = CollectionID q \<and> selects q d"
    then obtain row where r: "row \<in> set (documents db)" "scanDoc row = Inr d" "r_collection_id row = CollectionID q" "selects q d" by blast
    then have "rowOf db (d_Name d) = Some row" using row_iff [of db row] wf scan_facts [OF r(2)] by (simp add: wf_db_def)
    with r show "\<exists>row. docOf db (d_Name d) = Some d \<and> rowOf db (d_Name d) = Some row \<and> r_collection_id row = CollectionID q \<and> selects q d"
      by (simp add: docOf_scan)
  next
    assume "\<exists>row. docOf db (d_Name d) = Some d \<and> rowOf db (d_Name d) = Some row \<and> r_collection_id row = CollectionID q \<and> selects q d"
    then obtain row where "rowOf db (d_Name d) = Some row" "scanDoc row = Inr d" "r_collection_id row = CollectionID q" "selects q d"
      by (auto simp: docOf_scan)
    with rowOf_Some [of db "d_Name d" row]
    show "\<exists>row \<in> set (documents db). scanDoc row = Inr d \<and> r_collection_id row = CollectionID q \<and> selects q d" by blast
  qed
  finally show ?thesis .
qed

end
