(* ===== verification/IndexAnswer.thy ===== *)
theory IndexAnswer
  imports IndexScan
begin

text \<open>
  From the merged ranges of a plan to documents: the entries a range holds are those of documents
  the query selects, one per range, in query order; so an index scan with its per-range limits
  delivers the reference answer (\<^verbatim>\<open>runIndexed\<close> of \<^verbatim>\<open>store/query.go\<close>).
\<close>

section \<open>Rows stand for documents\<close>

lemma entry_doc:
  assumes For: "For q defs rdy = Some plan" and serve: "index_serves q plan db"
    and r: "r \<in> set (Ranges plan)" and e: "e \<in> set (rangeEntries plan r db)"
  obtains d where "docOf db (e_doc_name e) = Some d" "d_Name d = e_doc_name e" "valid_fields (d_Fields d)"
    "e_key e \<in> set (Keys (pDef plan) (e_doc_name e) (d_Fields d))" "in_range (Lo r, Hi r) (e_key e)" "e_index_id e = ID (pDef plan)"
proof -
  have wf: "wf_db valid_value db" using serve by (simp add: index_serves_def)
  from e [unfolded in_rangeEntries [OF For serve r]] obtain d where d: "docOf db (e_doc_name e) = Some d"
    "e_key e \<in> set (Keys (pDef plan) (d_Name d) (d_Fields d))" "in_range (Lo r, Hi r) (e_key e)" "e_index_id e = ID (pDef plan)" by blast
  from docOf_facts [OF wf d(1)] d show thesis by (intro that [of d]) simp_all
qed

lemma entry_cmp:
  assumes For: "For q defs rdy = Some plan" and serve: "index_serves q plan db"
    and r: "r \<in> set (Ranges plan)" "e \<in> set (rangeEntries plan r db)" "docOf db (e_doc_name e) = Some d"
    and r': "r' \<in> set (Ranges plan)" "e' \<in> set (rangeEntries plan r' db)" "docOf db (e_doc_name e') = Some d'"
  shows "rowCmp (Reversed plan) (rowOfEntry r e) (rowOfEntry r' e') = dcmp q d d' \<and>
    (r = r' \<longrightarrow> (if Reversed plan then - 1 else 1) * bytes_Compare (e_key e) (e_key e') = dcmp q d d')"
proof -
  have ok: "plan_ok q (pDef plan)" using serve by (simp add: index_serves_def)
  obtain d1 where d1: "docOf db (e_doc_name e) = Some d1" "d_Name d1 = e_doc_name e" "valid_fields (d_Fields d1)"
    "e_key e \<in> set (Keys (pDef plan) (e_doc_name e) (d_Fields d1))" "in_range (Lo r, Hi r) (e_key e)"
    by (rule entry_doc [OF For serve r(1,2)]) blast
  obtain d2 where d2: "docOf db (e_doc_name e') = Some d2" "d_Name d2 = e_doc_name e'" "valid_fields (d_Fields d2)"
    "e_key e' \<in> set (Keys (pDef plan) (e_doc_name e') (d_Fields d2))" "in_range (Lo r', Hi r') (e_key e')"
    by (rule entry_doc [OF For serve r'(1,2)]) blast
  from r(3) r'(3) d1(1) d2(1) have same: "d1 = d" "d2 = d'" by simp_all
  from plan_ordering [OF For ok r(1) d1(4,5,3) r'(1) d2(4,5,3)]
  show ?thesis
    unfolding rowCmp_def rowOfEntry_def dcmp_def doc_cmp_def doc_key_def same
    using d1(2) d2(2) unfolding same by simp
qed

lemma entry_range_unique:
  assumes For: "For q defs rdy = Some plan" and serve: "index_serves q plan db" and r: "r \<in> set (Ranges plan)"
    and e: "e \<in> set (rangeEntries plan r db)" "e' \<in> set (rangeEntries plan r db)" "e_doc_name e = e_doc_name e'"
  shows "e = e'"
proof -
  obtain d where d: "docOf db (e_doc_name e) = Some d" "e_index_id e = ID (pDef plan)" "valid_fields (d_Fields d)"
    by (rule entry_doc [OF For serve r e(1)]) blast
  have i: "e_index_id e' = ID (pDef plan)" by (rule entry_doc [OF For serve r e(2)]) blast
  have d': "docOf db (e_doc_name e') = Some d" using d(1) e(3) by simp
  have "dcmp q d d = 0" using stored_order.cmp_refl [of d q] d(3) by (simp add: valid_Doc_def)
  with entry_cmp [OF For serve r e(1) d(1) r e(2) d'] have "bytes_Compare (e_key e) (e_key e') = 0"
    by (simp split: if_splits)
  then have "e_key e = e_key e'" by (simp add: bytes_Compare_cmp3 cmp3_def split: if_splits)
  with i d(2) e(3) show ?thesis by (simp add: IndexEntry.equality)
qed

lemma ranges_disjoint:
  assumes For: "For q defs rdy = Some plan" and serve: "index_serves q plan db" and nodup: "\<not> Dedup plan"
    and split: "splitFilters q = Some (eq, io, inl)"
    and p: "x \<in> planEqs eq inl" "length x = n" "match (pDef plan) x (containsPath q) (Order q) = Some (p, Reversed plan)"
      "rangeFor (pDef plan) n p (Reversed plan) q \<in> set (Ranges plan)"
    and p': "x' \<in> planEqs eq inl" "length x' = n" "match (pDef plan) x' (containsPath q) (Order q) = Some (p', Reversed plan)"
      "rangeFor (pDef plan) n p' (Reversed plan) q \<in> set (Ranges plan)"
    and e: "e \<in> set (rangeEntries plan (rangeFor (pDef plan) n p (Reversed plan) q) db)"
    and e': "e' \<in> set (rangeEntries plan (rangeFor (pDef plan) n p' (Reversed plan) q) db)" "e_doc_name e = e_doc_name e'"
  shows "p = p'"
proof -
  have ok: "plan_ok q (pDef plan)" using serve by (simp add: index_serves_def)
  have b: "(Lo (rangeFor (pDef plan) n p (Reversed plan) q), Hi (rangeFor (pDef plan) n p (Reversed plan) q)) =
      bounds (pDef plan) n p (Reversed plan) q" for p
    by (simp add: rangeFor_def split: prod.split)
  have holds: "\<forall>pv \<in> set y. eqHolds (containsPath q) (e_doc_name g) (d_Fields d) pv"
    if y: "y \<in> planEqs eq inl" "length y = n" "match (pDef plan) y (containsPath q) (Order q) = Some (s, Reversed plan)"
      and k: "e_key g \<in> set (Keys (pDef plan) (e_doc_name g) (d_Fields d))"
        "in_range (Lo (rangeFor (pDef plan) n s (Reversed plan) q), Hi (rangeFor (pDef plan) n s (Reversed plan) q)) (e_key g)"
      and f: "valid_fields (d_Fields d)" for y s d and g :: IndexEntry
  proof (rule ccontr)
    assume "\<not> ?thesis"
    with range_keys [OF ok split y(3) planEqs_ok [OF split ok y(1)] f, of "e_doc_name g"]
    have "{k \<in> set (Keys (pDef plan) (e_doc_name g) (d_Fields d)). in_range (bounds (pDef plan) (length y) s (Reversed plan) q) k} = {}"
      by simp
    with k show False unfolding b y(2) by blast
  qed
  obtain d where d: "docOf db (e_doc_name e) = Some d" "valid_fields (d_Fields d)"
    "e_key e \<in> set (Keys (pDef plan) (e_doc_name e) (d_Fields d))"
    "in_range (Lo (rangeFor (pDef plan) n p (Reversed plan) q), Hi (rangeFor (pDef plan) n p (Reversed plan) q)) (e_key e)"
    by (rule entry_doc [OF For serve p(4) e]) blast
  obtain d' where d': "docOf db (e_doc_name e') = Some d'" "valid_fields (d_Fields d')"
    "e_key e' \<in> set (Keys (pDef plan) (e_doc_name e') (d_Fields d'))"
    "in_range (Lo (rangeFor (pDef plan) n p' (Reversed plan) q), Hi (rangeFor (pDef plan) n p' (Reversed plan) q)) (e_key e')"
    by (rule entry_doc [OF For serve p'(4) e'(1)]) blast
  have same: "d' = d" using d(1) d'(1) e'(2) by simp
  from holds [OF p(1-3) d(3,4,2)] holds [OF p'(1-3) d'(3,4,2)]
  show ?thesis unfolding same e'(2) by (intro prefix_unique [OF For ok nodup split p(1,3) _ p'(1,3) _ d(2)])
qed

section \<open>The names of a scan\<close>

abbreviation the_doc :: "DB \<Rightarrow> string \<Rightarrow> Doc" where
  "the_doc db n \<equiv> the (docOf db n)"

definition rangeRows :: "Plan \<Rightarrow> DB \<Rightarrow> Range \<Rightarrow> indexRow list" where
  "rangeRows plan db r = map (rowOfEntry r) (rangeEntries plan r db)"

lemma rangeRows_names: "map ir_name (rangeRows plan db r) = map e_doc_name (rangeEntries plan r db)"
  by (simp add: rangeRows_def rowOfEntry_def)

definition scanNames :: "Plan \<Rightarrow> DB \<Rightarrow> string set" where
  "scanNames plan db = (\<Union>r \<in> set (Ranges plan). e_doc_name ` set (rangeEntries plan r db))"

lemma scanNames_selected:
  assumes For: "For q defs rdy = Some plan" and serve: "index_serves q plan db"
  shows "n \<in> scanNames plan db \<longleftrightarrow> (\<exists>d \<in> set (selectedDocs q db). d_Name d = n)"
    and "n \<in> scanNames plan db \<Longrightarrow> docOf db n \<noteq> None"
proof -
  have ok: "plan_ok q (pDef plan)" and wf: "wf_db valid_value db" using serve by (simp_all add: index_serves_def)
  have coll: "dCollectionID (pDef plan) = CollectionID q" using For by (rule For_Some) (use tryDefs_Some in blast)
  have mem: "n \<in> scanNames plan db \<longleftrightarrow>
      (\<exists>d row. docOf db n = Some d \<and> rowOf db n = Some row \<and> r_collection_id row = CollectionID q \<and>
        (\<exists>r \<in> set (Ranges plan). \<exists>k \<in> set (Keys (pDef plan) n (d_Fields d)). in_range (Lo r, Hi r) k))" (is "_ \<longleftrightarrow> ?R")
  proof
    assume "n \<in> scanNames plan db"
    then obtain r e where r: "r \<in> set (Ranges plan)" and e: "e \<in> set (rangeEntries plan r db)" "e_doc_name e = n"
      by (auto simp: scanNames_def)
    from e(1) [unfolded in_rangeEntries [OF For serve r] e(2)] obtain d row where
      d: "docOf db n = Some d" "rowOf db n = Some row" "r_collection_id row = CollectionID q"
        "e_key e \<in> set (Keys (pDef plan) (d_Name d) (d_Fields d))" "in_range (Lo r, Hi r) (e_key e)" by blast
    with docOf_facts [OF wf d(1)] r show ?R by auto
  next
    assume ?R
    then obtain d row r k where d: "docOf db n = Some d" "rowOf db n = Some row" "r_collection_id row = CollectionID q"
      and r: "r \<in> set (Ranges plan)" and k: "k \<in> set (Keys (pDef plan) n (d_Fields d))" "in_range (Lo r, Hi r) k" by blast
    define e :: IndexEntry where "e = \<lparr>e_index_id = ID (pDef plan), e_key = k, e_doc_name = n\<rparr>"
    have "e \<in> set (rangeEntries plan r db)"
      unfolding in_rangeEntries [OF For serve r] using d k docOf_facts [OF wf d(1)] by (simp add: e_def)
    with r show "n \<in> scanNames plan db" by (auto simp: scanNames_def e_def intro!: bexI [of _ r] image_eqI [of _ _ e])
  qed
  then show "n \<in> scanNames plan db \<Longrightarrow> docOf db n \<noteq> None" by blast
  have "(\<exists>r \<in> set (Ranges plan). \<exists>k \<in> set (Keys (pDef plan) n (d_Fields d)). in_range (Lo r, Hi r) k) \<longleftrightarrow> selects q d"
    if d: "docOf db n = Some d" for d
    using plan_selects [OF For ok docOf_facts(2) [OF wf d], of n] docOf_facts(1) [OF wf d] by (simp add: selects_def)
  with mem have "n \<in> scanNames plan db \<longleftrightarrow>
      (\<exists>d row. docOf db n = Some d \<and> rowOf db n = Some row \<and> r_collection_id row = CollectionID q \<and> selects q d)" by metis
  also have "\<dots> \<longleftrightarrow> (\<exists>d \<in> set (selectedDocs q db). d_Name d = n)"
    unfolding Bex_def in_selectedDocs [OF serve] using docOf_facts(1) [OF wf] by metis
  finally show "n \<in> scanNames plan db \<longleftrightarrow> (\<exists>d \<in> set (selectedDocs q db). d_Name d = n)" .
qed

text \<open>Sorted and without repetition, the scanned names are the reference list.\<close>

lemma names_reference:
  assumes For: "For q defs rdy = Some plan" and serve: "index_serves q plan db"
    and ns: "distinct ns" "set ns = scanNames plan db"
    and sorted: "sorted_wrt (\<lambda>a b. dcmp q (the_doc db a) (the_doc db b) \<le> 0) ns"
  shows "map (the_doc db) ns = SliceStable (docLess q) (selectedDocs q db)"
proof (rule reference_unique)
  show wf: "wf_db valid_value db" using serve by (simp add: index_serves_def)
  show "wf_order (Order q)" using serve by (simp add: index_serves_def plan_ok_def)
  show "sorted_wrt (\<lambda>a b. dcmp q a b \<le> 0) (map (the_doc db) ns)" using sorted by (simp add: sorted_wrt_map)
  note sel = scanNames_selected [OF For serve]
  have doc: "the_doc db (d_Name d) = d" if "d \<in> set (selectedDocs q db)" for d
    using that unfolding in_selectedDocs [OF serve] by auto
  have nm: "d_Name (the_doc db n) = n" if "n \<in> set ns" for n
    using that sel(2) docOf_facts(1) [OF wf] unfolding ns(2) by fastforce
  have "set (map (the_doc db) ns) = set (selectedDocs q db)"
  proof (intro set_eqI iffI)
    fix d assume "d \<in> set (map (the_doc db) ns)"
    then obtain n where n: "n \<in> scanNames plan db" "d = the_doc db n" using ns(2) by auto
    from n(1) obtain d' where "d' \<in> set (selectedDocs q db)" "d_Name d' = n" unfolding sel(1) by blast
    with doc n(2) show "d \<in> set (selectedDocs q db)" by auto
  next
    fix d assume d: "d \<in> set (selectedDocs q db)"
    then have "d_Name d \<in> set ns" unfolding ns(2) sel(1) by blast
    then have "the_doc db (d_Name d) \<in> the_doc db ` set ns" by (rule imageI)
    with doc [OF d] show "d \<in> set (map (the_doc db) ns)" by simp
  qed
  moreover have "distinct (map (the_doc db) ns)"
    using ns(1) inj_on_inverseI [of "set ns" d_Name "the_doc db"] nm by (simp add: distinct_map)
  moreover have "distinct (selectedDocs q db)" using selectedDocs_facts(2) [OF wf] by (simp add: distinct_map)
  ultimately show "mset (map (the_doc db) ns) = mset (selectedDocs q db)" by (metis set_eq_iff_mset_eq_distinct)
qed

lemma firsts_set: "set (firsts seen ns) = set ns - set seen"
  by (induction seen ns rule: firsts.induct) auto

lemma firsts_distinct: "distinct (firsts seen ns)"
  by (induction seen ns rule: firsts.induct) (auto simp: firsts_set)

lemma firsts_sorted: "sorted_wrt P ns \<Longrightarrow> sorted_wrt P (firsts seen ns)"
  by (induction seen ns rule: firsts.induct) (auto simp: firsts_set)

lemma rangeRows_sorted:
  assumes For: "For q defs rdy = Some plan" and serve: "index_serves q plan db" and r: "r \<in> set (Ranges plan)"
  shows "sorted_wrt (\<lambda>a b. rowCmp (Reversed plan) a b \<le> 0) (rangeRows plan db r)"
proof -
  let ?s = "if Reversed plan then - 1 else 1 :: int"
  have keys: "sorted_wrt (\<lambda>a b. ?s * bytes_Compare (e_key a) (e_key b) \<le> 0) (rangeEntries plan r db)"
  proof -
    have "sorted (map e_key (sort_key e_key es))" for es :: "IndexEntry list" by simp
    then have s: "sorted_wrt (\<lambda>a b. e_key a \<le> e_key b) (sort_key e_key es)" for es :: "IndexEntry list" by (simp only: sorted_map)
    have le: "bytes_Compare x y \<le> 0 \<and> bytes_Compare y x \<ge> 0" if "x \<le> y" for x y
      using that by (auto simp: bytes_Compare_cmp3 cmp3_def)
    show ?thesis
    proof (cases "Reversed plan")
      case True
      then show ?thesis
        using sorted_wrt_mono_rel [OF _ s, of _ "\<lambda>a b. bytes_Compare (e_key b) (e_key a) \<ge> 0"] le
        by (simp add: rangeEntries_def Let_def sorted_wrt_rev)
    next
      case False
      then show ?thesis
        using sorted_wrt_mono_rel [OF _ s, of _ "\<lambda>a b. bytes_Compare (e_key a) (e_key b) \<le> 0"] le
        by (simp add: rangeEntries_def Let_def)
    qed
  qed
  have "rowCmp (Reversed plan) (rowOfEntry r e) (rowOfEntry r e') = ?s * bytes_Compare (e_key e) (e_key e')"
    if e: "e \<in> set (rangeEntries plan r db)" and e': "e' \<in> set (rangeEntries plan r db)" for e e'
  proof -
    obtain d where d: "docOf db (e_doc_name e) = Some d" by (rule entry_doc [OF For serve r e]) blast
    obtain d' where d': "docOf db (e_doc_name e') = Some d'" by (rule entry_doc [OF For serve r e']) blast
    from entry_cmp [OF For serve r e d r e' d'] show ?thesis by simp
  qed
  with keys show ?thesis
    unfolding rangeRows_def sorted_wrt_map by (auto elim!: sorted_wrt_mono_rel [rotated])
qed

lemma sorted_names:
  assumes For: "For q defs rdy = Some plan" and serve: "index_serves q plan db"
    and rows: "sorted_wrt (\<lambda>a b. rowCmp (Reversed plan) a b \<le> 0) rows"
      "set rows \<subseteq> (\<Union>r \<in> set (Ranges plan). set (rangeRows plan db r))"
  shows "sorted_wrt (\<lambda>a b. dcmp q (the_doc db a) (the_doc db b) \<le> 0) (map ir_name rows)"
proof -
  have "rowCmp (Reversed plan) a b = dcmp q (the_doc db (ir_name a)) (the_doc db (ir_name b))"
    if a: "a \<in> set rows" and b: "b \<in> set rows" for a b
  proof -
    from a rows(2) obtain r e where e: "r \<in> set (Ranges plan)" "e \<in> set (rangeEntries plan r db)" "a = rowOfEntry r e"
      by (auto simp: rangeRows_def)
    from b rows(2) obtain r' e' where e': "r' \<in> set (Ranges plan)" "e' \<in> set (rangeEntries plan r' db)" "b = rowOfEntry r' e'"
      by (auto simp: rangeRows_def)
    obtain d where d: "docOf db (e_doc_name e) = Some d" by (rule entry_doc [OF For serve e(1,2)]) blast
    obtain d' where d': "docOf db (e_doc_name e') = Some d'" by (rule entry_doc [OF For serve e'(1,2)]) blast
    from entry_cmp [OF For serve e(1,2) d e'(1,2) d'] d d' e(3) e'(3) show ?thesis by (simp add: rowOfEntry_def)
  qed
  then show ?thesis
    unfolding sorted_wrt_map by (intro sorted_wrt_mono_rel [OF _ rows(1)]) simp
qed

lemma distinct_concat_map:
  "distinct ps \<Longrightarrow> \<forall>p \<in> set ps. distinct (f p) \<Longrightarrow> (\<And>p p' x. p \<in> set ps \<Longrightarrow> p' \<in> set ps \<Longrightarrow> x \<in> set (f p) \<Longrightarrow> x \<in> set (f p') \<Longrightarrow> p = p') \<Longrightarrow>
   distinct (concat (map f ps))"
proof (induction ps)
  case (Cons p ps)
  then have "distinct (concat (map f ps))" by simp
  moreover have "x \<notin> set (f p')" if "x \<in> set (f p)" "p' \<in> set ps" for x p'
  proof
    assume "x \<in> set (f p')"
    with Cons.prems(3) [of p p' x] that have "p = p'" by simp
    with that(2) Cons.prems(1) show False by simp
  qed
  then have "set (f p) \<inter> set (concat (map f ps)) = {}" by auto
  ultimately show ?case using Cons.prems(2) by simp
qed simp

lemma rangeNames_distinct:
  assumes For: "For q defs rdy = Some plan" and serve: "index_serves q plan db" and r: "r \<in> set (Ranges plan)"
  shows "distinct (map ir_name (rangeRows plan db r))"
proof -
  have "distinct (rangeEntries plan r db)"
    using serve by (simp add: index_serves_def rangeEntries_def Let_def)
  moreover have "inj_on e_doc_name (set (rangeEntries plan r db))"
    by (rule inj_onI) (rule entry_range_unique [OF For serve r])
  ultimately show ?thesis unfolding rangeRows_names by (simp add: distinct_map)
qed

lemma scan_distinct:
  assumes For: "For q defs rdy = Some plan" and serve: "index_serves q plan db" and nodup: "\<not> Dedup plan"
  shows "distinct (concat (map (\<lambda>r. map ir_name (rangeRows plan db r)) (Ranges plan)))"
proof -
  from For obtain eq io inl where split: "splitFilters q = Some (eq, io, inl)" by (rule For_Some)
  obtain n ps where ps: "Ranges plan = map (\<lambda>p. rangeFor (pDef plan) n p (Reversed plan) q) ps" "distinct ps"
    "\<And>p. p \<in> set ps \<Longrightarrow> \<exists>e \<in> planEqs eq inl. length e = n \<and> match (pDef plan) e (containsPath q) (Order q) = Some (p, Reversed plan)"
    by (rule plan_list [OF For split]) blast
  let ?r = "\<lambda>p. rangeFor (pDef plan) n p (Reversed plan) q"
  have mem: "?r p \<in> set (Ranges plan)" if "p \<in> set ps" for p using that ps(1) by simp
  have "distinct (concat (map (\<lambda>p. map ir_name (rangeRows plan db (?r p))) ps))"
  proof (rule distinct_concat_map [OF ps(2)])
    show "\<forall>p \<in> set ps. distinct (map ir_name (rangeRows plan db (?r p)))"
      using rangeNames_distinct [OF For serve] mem by blast
    fix p p' x assume p: "p \<in> set ps" and p': "p' \<in> set ps"
      and "x \<in> set (map ir_name (rangeRows plan db (?r p)))" "x \<in> set (map ir_name (rangeRows plan db (?r p')))"
    then obtain e e' where e: "e \<in> set (rangeEntries plan (?r p) db)" and e': "e' \<in> set (rangeEntries plan (?r p') db)" "e_doc_name e = e_doc_name e'"
      unfolding rangeRows_names by auto
    from ps(3) [OF p] obtain y where y: "y \<in> planEqs eq inl" "length y = n"
      "match (pDef plan) y (containsPath q) (Order q) = Some (p, Reversed plan)" by blast
    from ps(3) [OF p'] obtain y' where y': "y' \<in> planEqs eq inl" "length y' = n"
      "match (pDef plan) y' (containsPath q) (Order q) = Some (p', Reversed plan)" by blast
    show "p = p'" by (rule ranges_disjoint [OF For serve nodup split y mem [OF p] y' mem [OF p'] e e'])
  qed
  then show ?thesis by (simp add: ps(1) comp_def)
qed

section \<open>The scan\<close>

definition scanAll :: "Plan \<Rightarrow> DB \<Rightarrow> indexRow list" where
  "scanAll plan db = mergeAll (Reversed plan) (filter (\<lambda>rows. rows \<noteq> []) (map (rangeRows plan db) (Ranges plan)))"

definition fullScan :: "Plan \<Rightarrow> DB \<Rightarrow> string list" where
  "fullScan plan db = (let ns = map ir_name (scanAll plan db) in if Dedup plan then firsts [] ns else ns)"

lemma concat_nonempty: "concat (filter (\<lambda>rows. rows \<noteq> []) xss) = concat xss"
  by (induction xss) auto

lemma scanAll_mset: "mset (scanAll plan db) = mset (concat (map (rangeRows plan db) (Ranges plan)))"
  by (simp only: scanAll_def mset_mergeAll concat_nonempty)

lemma scanAll_names: "ir_name ` set (scanAll plan db) = scanNames plan db"
proof -
  have "set (scanAll plan db) = set (concat (map (rangeRows plan db) (Ranges plan)))"
    using scanAll_mset [of plan db] by (metis set_mset_mset)
  also have "ir_name ` \<dots> = (\<Union>r \<in> set (Ranges plan). set (map ir_name (rangeRows plan db r)))" by auto
  finally show ?thesis unfolding rangeRows_names by (simp add: scanNames_def)
qed

lemma fullScan_reference:
  assumes For: "For q defs rdy = Some plan" and serve: "index_serves q plan db"
  shows "map (the_doc db) (fullScan plan db) = SliceStable (docLess q) (selectedDocs q db)"
proof (rule names_reference [OF For serve])
  show "set (fullScan plan db) = scanNames plan db"
    using scanAll_names [of plan db] by (simp add: fullScan_def Let_def firsts_set)
  have "distinct (map ir_name (scanAll plan db))" if "\<not> Dedup plan"
  proof -
    have "mset (map ir_name (scanAll plan db)) = mset (concat (map (\<lambda>r. map ir_name (rangeRows plan db r)) (Ranges plan)))"
      unfolding mset_map scanAll_mset unfolding mset_map [symmetric] by (simp only: map_concat map_map comp_def)
    with scan_distinct [OF For serve that] show ?thesis by (metis mset_eq_imp_distinct_iff)
  qed
  then show "distinct (fullScan plan db)" by (simp add: fullScan_def Let_def firsts_distinct)
  have "set (scanAll plan db) = (\<Union>r \<in> set (Ranges plan). set (rangeRows plan db r))"
    using scanAll_mset [of plan db] by (metis set_mset_mset set_concat set_map image_image)
  moreover have "sorted_wrt (\<lambda>a b. rowCmp (Reversed plan) a b \<le> 0) (scanAll plan db)"
    unfolding scanAll_def by (rule sorted_mergeAll) (use rangeRows_sorted [OF For serve] in auto)
  ultimately have "sorted_wrt (\<lambda>a b. dcmp q (the_doc db a) (the_doc db b) \<le> 0) (map ir_name (scanAll plan db))"
    by (intro sorted_names [OF For serve]) simp_all
  then show "sorted_wrt (\<lambda>a b. dcmp q (the_doc db a) (the_doc db b) \<le> 0) (fullScan plan db)"
    by (simp add: fullScan_def Let_def firsts_sorted)
qed

lemma per_range:
  fixes l off :: int32
  assumes "sint l \<ge> 0" "sint off \<ge> 0"
  shows "sint (l + off) < 0 \<or> sint (l + off) = sint l + sint off"
proof -
  have l: "sint l < 2 ^ 31" "sint off < 2 ^ 31" using sint_lt [of l] sint_lt [of off] by simp_all
  have s: "sint (l + off) = (sint l + sint off + 2 ^ 31) mod 2 ^ 32 - 2 ^ 31"
    by (simp add: sint_word_ariths signed_take_bit_eq_take_bit_shift take_bit_eq_mod)
  show ?thesis
  proof (cases "sint l + sint off < 2 ^ 31")
    case True
    with s assms show ?thesis by simp
  next
    case False
    then have "(sint l + sint off + 2 ^ 31) mod 2 ^ 32 = sint l + sint off + 2 ^ 31 - 2 ^ 32"
      using l by (subst mod_pos_geq) simp_all
    with s l show ?thesis by simp
  qed
qed

lemma filter_take: "m > 0 \<Longrightarrow> filter (\<lambda>rows. rows \<noteq> []) (map (take m) xss) = map (take m) (filter (\<lambda>rows. rows \<noteq> []) xss)"
  by (induction xss) auto

lemma mergeAll_limited:
  assumes "m > 0"
  shows "take m (mergeAll b (filter (\<lambda>rows. rows \<noteq> []) (map (take m) xss))) = take m (mergeAll b (filter (\<lambda>rows. rows \<noteq> []) xss))"
  unfolding filter_take [OF assms] by (rule take_mergeAll) (simp add: list_all2_map1 list.rel_refl)

lemma page_map: "page q (map f xs) = map f (page q xs)"
  by (simp add: page_def Let_def drop_map take_map)

lemma page_prefix:
  assumes "sint (Limit q) \<ge> 0" "take (nat (sint (Offset q)) + nat (sint (Limit q))) xs = take (nat (sint (Offset q)) + nat (sint (Limit q))) ys"
  shows "page q xs = page q ys"
  using arg_cong [OF assms(2), of "drop (nat (sint (Offset q)))"] assms(1)
  by (simp add: page_def Let_def drop_take)

lemma scanIndex_page:
  assumes For: "For q defs rdy = Some plan" and serve: "index_serves q plan db"
    and off: "sint (Offset q) \<ge> 0" and lim: "Limit q \<noteq> 0 \<or> length (Ranges plan) \<le> 1"
  shows "scanIndex q plan db = page q (fullScan plan db)"
proof (cases "Ranges plan")
  case Nil
  then show ?thesis
    by (simp add: scanIndex_def fullScan_def scanAll_def mergeAll.simps page_def)
next
  case (Cons r rs)
  note ranges = Cons
  show ?thesis
  proof (cases rs)
    case Nil
    have one: "mergeAll b [st] = st" for b and st :: "indexRow list"
    proof (induction st)
      case (Cons row st)
      then show ?case by (subst mergeAll.simps) (simp add: popStream_def)
    qed (simp add: mergeAll.simps)
    have "mergeAll b [] = []" for b by (simp add: mergeAll.simps)
    with one have "scanAll plan db = rangeRows plan db r" by (simp add: scanAll_def ranges Nil)
    moreover have "distinct (map ir_name (rangeRows plan db r))" by (rule rangeNames_distinct [OF For serve]) (simp add: ranges)
    moreover have "distinct ns \<Longrightarrow> set ns \<inter> set seen = {} \<Longrightarrow> firsts seen ns = ns" for ns seen
      by (induction ns arbitrary: seen) auto
    ultimately have "fullScan plan db = map ir_name (rangeRows plan db r)" by (simp add: fullScan_def Let_def)
    moreover have "scanIndex q plan db = map ir_name (page q (rangeRows plan db r))"
      by (simp add: scanIndex_def ranges Nil scanRange_rows rangeRows_def page_def Let_def)
    ultimately show ?thesis by (simp add: page_map)
  next
    case (Cons r' rs')
    with lim ranges have "Limit q \<noteq> 0" by simp
    then have lim: "sint (Limit q) \<noteq> 0" by (simp add: signed_eq_0_iff)
    define per where "per = (if sint (Limit q) \<ge> 0 \<and> \<not> Dedup plan then Limit q + Offset q else - 1)"
    define sts where "sts = filter (\<lambda>rows. rows \<noteq> []) (map (\<lambda>r. scanRange plan r per 0 db) (Ranges plan))"
    define ns where "ns = map ir_name (mergeAll (Reversed plan) sts)"
    have "scanIndex q plan db = mergeRanges sts (Reversed plan) (Limit q) (Offset q) (Dedup plan)"
      unfolding scanIndex_def ranges Cons sts_def per_def Let_def by simp
    also have "\<dots> = page q (if Dedup plan then firsts [] ns else ns)"
      unfolding mergeRanges_page [OF lim] page_def ns_def Let_def by simp
    also have "\<dots> = page q (fullScan plan db)"
    proof (cases "sint per \<ge> 0")
      case False
      then have "sts = filter (\<lambda>rows. rows \<noteq> []) (map (rangeRows plan db) (Ranges plan))"
        by (simp add: sts_def scanRange_rows rangeRows_def [abs_def] Let_def)
      then show ?thesis by (simp add: fullScan_def scanAll_def ns_def Let_def)
    next
      case True
      then have nd: "\<not> Dedup plan" "sint (Limit q) \<ge> 0" by (auto simp: per_def split: if_splits)
      then have per: "per = Limit q + Offset q" by (simp add: per_def)
      with per_range [OF nd(2) off] True have m: "nat (sint per) = nat (sint (Offset q)) + nat (sint (Limit q))" using nd(2) off by simp
      then have pos: "nat (sint per) > 0" using nd(2) lim by simp
      have lim': "sts = filter (\<lambda>rows. rows \<noteq> []) (map (take (nat (sint per))) (map (rangeRows plan db) (Ranges plan)))"
        using True by (simp add: sts_def scanRange_rows rangeRows_def [abs_def] Let_def comp_def)
      have "take (nat (sint per)) (mergeAll (Reversed plan) sts) = take (nat (sint per)) (scanAll plan db)"
        unfolding lim' scanAll_def by (rule mergeAll_limited [OF pos])
      then have "take (nat (sint per)) ns = take (nat (sint per)) (map ir_name (scanAll plan db))" by (simp add: ns_def take_map)
      from page_prefix [OF nd(2) this [unfolded m]] nd(1) show ?thesis by (simp add: fullScan_def)
    qed
    finally show ?thesis .
  qed
qed

section \<open>Answering from an index\<close>

lemma deliverNames_docs:
  assumes "\<And>n. n \<in> set ns \<Longrightarrow> map_of docs n = Some (f n) \<and> Matches q (d_Name (f n)) (d_Fields (f n))"
  shows "deliverNames q docs ns = (map f ns, None)"
  using assms by (induction ns) auto

lemma page_subset: "set (page q xs) \<subseteq> set xs"
  unfolding page_def Let_def by (auto dest: in_set_takeD in_set_dropD)

lemma runIndexed_reference:
  assumes For: "For q defs rdy = Some plan" and serve: "index_serves q plan db"
    and off: "sint (Offset q) \<ge> 0" and lim: "Limit q \<noteq> 0 \<or> length (Ranges plan) \<le> 1"
  shows "runIndexed q plan db = (reference q db, None)"
proof -
  have wf: "wf_db valid_value db" using serve by (simp add: index_serves_def)
  define ns where "ns = scanIndex q plan db"
  have ns: "ns = page q (fullScan plan db)" unfolding ns_def by (rule scanIndex_page [OF assms])
  have ref: "map (the_doc db) ns = reference q db"
    unfolding ns page_map [symmetric] fullScan_reference [OF For serve] reference_def ..
  have doc: "docOf db n = Some (the_doc db n) \<and> Matches q (d_Name (the_doc db n)) (d_Fields (the_doc db n))" if "n \<in> set ns" for n
  proof -
    have "set (fullScan plan db) = scanNames plan db"
      using scanAll_names [of plan db] by (simp add: fullScan_def Let_def firsts_set)
    with that page_subset [of q "fullScan plan db"] ns have "n \<in> scanNames plan db" by blast
    then obtain d where d: "d \<in> set (selectedDocs q db)" "d_Name d = n" unfolding scanNames_selected [OF For serve] by blast
    then show ?thesis unfolding in_selectedDocs [OF serve] by (auto simp: selects_def)
  qed
  show ?thesis
  proof (cases "ns = []")
    case True
    with ref show ?thesis by (simp add: runIndexed_def ns_def)
  next
    case False
    obtain docs where docs: "scanDocs (filter (\<lambda>r. r_name r \<in> set ns) (documents db)) = Inr docs"
      "\<And>n. map_of docs n = (if n \<in> set ns then docOf db n else None)" by (rule scanDocs_rows [OF wf]) blast
    have "deliverNames q docs ns = (map (the_doc db) ns, None)" by (rule deliverNames_docs) (use docs(2) doc in simp)
    with False docs(1) ref show ?thesis by (simp add: runIndexed_def GetDocuments_def Let_def flip: ns_def)
  qed
qed

end
