(* ===== verification/NameOrder.thy ===== *)
theory NameOrder
  imports StoreQuery
begin

text \<open>
  The name-ordered path (\<^verbatim>\<open>runNameOrdered\<close> of \<^verbatim>\<open>store/query.go\<close>): where the database's byte order of names
  is the query's order of references, the rows come sorted, cursor bounds can be pushed into the
  scan and, without filters, so can the limit. Within one collection the two orders agree; across the
  collections of a group they need not, and then the answer comes in the wrong order.
\<close>

section \<open>Names of one collection\<close>

definition in_collection :: "Query \<Rightarrow> string \<Rightarrow> bool" where
  "in_collection q n \<longleftrightarrow> butlast (splitOn CHR ''/'' n) = splitOn CHR ''/'' (Parent q) @ [CollectionID q]"

lemma joinWith_snoc: "ss \<noteq> [] \<Longrightarrow> joinWith c (ss @ [s]) = joinWith c ss @ c # s"
  by (induction c ss rule: joinWith.induct) auto

lemma in_collection_split:
  assumes "in_collection q n"
  obtains i where "splitOn CHR ''/'' n = splitOn CHR ''/'' (Parent q) @ [CollectionID q, i]"
    "n = joinWith CHR ''/'' (splitOn CHR ''/'' (Parent q) @ [CollectionID q]) @ CHR ''/'' # i"
proof -
  let ?p = "splitOn CHR ''/'' (Parent q) @ [CollectionID q]"
  have "butlast (splitOn CHR ''/'' n) @ [last (splitOn CHR ''/'' n)] = splitOn CHR ''/'' n" by (rule append_butlast_last_id) simp
  then have s: "splitOn CHR ''/'' n = ?p @ [last (splitOn CHR ''/'' n)]"
    unfolding assms [unfolded in_collection_def] by (rule sym)
  have "n = joinWith CHR ''/'' (?p @ [last (splitOn CHR ''/'' n)])" using s joinWith_splitOn [of "CHR ''/''" n] by metis
  also have "\<dots> = joinWith CHR ''/'' ?p @ CHR ''/'' # last (splitOn CHR ''/'' n)" by (rule joinWith_snoc) simp
  finally show thesis using s by (intro that [of "last (splitOn CHR ''/'' n)"]) simp_all
qed

lemma cmp3_same_prefix: "cmp3 (p @ x) (p @ y) = cmp3 x (y :: string)"
  unfolding bytes_Compare_bytes_of [symmetric] by simp

lemma compareSegments_prefix: "compareSegments (ss @ xs) (ss @ ys) = compareSegments xs ys"
  by (induction ss) simp_all

lemma CompareResourceNames_siblings:
  assumes "in_collection q a" "in_collection q b"
  shows "CompareResourceNames a b = cmp3 a b"
proof -
  obtain i where a: "splitOn CHR ''/'' a = splitOn CHR ''/'' (Parent q) @ [CollectionID q, i]"
    "a = joinWith CHR ''/'' (splitOn CHR ''/'' (Parent q) @ [CollectionID q]) @ CHR ''/'' # i"
    by (rule in_collection_split [OF assms(1)])
  obtain j where b: "splitOn CHR ''/'' b = splitOn CHR ''/'' (Parent q) @ [CollectionID q, j]"
    "b = joinWith CHR ''/'' (splitOn CHR ''/'' (Parent q) @ [CollectionID q]) @ CHR ''/'' # j"
    by (rule in_collection_split [OF assms(2)])
  have "CompareResourceNames a b = cmp3 i j"
    unfolding CompareResourceNames_def a(1) b(1) compareSegments_prefix by (simp add: cmpInt_def)
  also have "\<dots> = cmp3 ([CHR ''/''] @ i) ([CHR ''/''] @ j)" by (rule cmp3_same_prefix [symmetric])
  also have "\<dots> = cmp3 a b"
    by (subst a(2), subst b(2)) (simp add: cmp3_same_prefix)
  finally show ?thesis .
qed

lemma row_in_collection:
  assumes "row_ok P r" "baseConditions q r" "\<not> AllDescendants q"
  shows "in_collection q (r_name r)"
proof -
  define segs where "segs = splitOn CHR ''/'' (r_name r)"
  from assms(1) obtain p where p: "ParseDocumentName (r_name r) = Inr p"
    and row: "r_parent_path r = dp_ParentPath p" "r_collection_id r = dp_CollectionID p"
    by (auto simp: row_ok_def split: sum.splits)
  from p have len: "7 \<le> length segs" and parts: "dp_ParentPath p = joinWith CHR ''/'' (take (length segs - 2) segs)"
      "dp_CollectionID p = segs ! (length segs - 2)"
    by (auto simp: ParseDocumentName_def segs_def Let_def split: if_splits)
  have "Parent q = joinWith CHR ''/'' (take (length segs - 2) segs)" "CollectionID q = segs ! (length segs - 2)"
    using assms(2,3) row parts by (simp_all add: baseConditions_def)
  moreover have "splitOn CHR ''/'' (joinWith CHR ''/'' (take (length segs - 2) segs)) = take (length segs - 2) segs"
    using len splitOn_segments by (intro splitOn_joinWith) (auto simp: segs_def dest!: in_set_takeD)
  moreover have "butlast segs = take (Suc (length segs - 2)) segs" using len by (simp add: butlast_conv_take Suc_diff_Suc numeral_2_eq_2)
  moreover have "take (Suc (length segs - 2)) segs = take (length segs - 2) segs @ [segs ! (length segs - 2)]"
    using len by (intro take_Suc_conv_app_nth) simp
  ultimately show ?thesis by (simp add: in_collection_def segs_def)
qed

section \<open>Cursors\<close>

definition cursor_refs :: "Cursor option \<Rightarrow> string set" where
  "cursor_refs co = (case co of None \<Rightarrow> {} | Some c \<Rightarrow> {r. Values c = [ReferenceValue r]})"

definition ref_cursor :: "Cursor option \<Rightarrow> bool" where
  "ref_cursor co \<longleftrightarrow> co \<noteq> None \<longrightarrow> (\<exists>r \<in> cursor_refs co. r \<noteq> [])"

text \<open>The names a query compares: of the rows in its collections, and of its cursors.\<close>

definition name_scope :: "Query \<Rightarrow> DB \<Rightarrow> string set" where
  "name_scope q db = r_name ` {r \<in> set (documents db). baseConditions q r} \<union> cursor_refs (Start q) \<union> cursor_refs (End q)"

definition orders_agree :: "string set \<Rightarrow> bool" where
  "orders_agree N \<longleftrightarrow> (\<forall>a \<in> N. \<forall>b \<in> N. CompareResourceNames a b = cmp3 a b)"

lemma ref_cursorE:
  assumes "ref_cursor co"
  obtains "co = None" | c r where "co = Some c" "Values c = [ReferenceValue r]" "r \<noteq> []" "r \<in> cursor_refs co"
  using assms by (cases co) (auto simp: ref_cursor_def cursor_refs_def)

definition name_ordered :: "Query \<Rightarrow> Direction \<Rightarrow> DB \<Rightarrow> bool" where
  "name_ordered q dir db \<longleftrightarrow> NameOnlyOrder q = (dir, True) \<and> ref_cursor (Start q) \<and> ref_cursor (End q) \<and>
     orders_agree (name_scope q db)"

lemma name_orderedE:
  assumes "NameOnlyOrder q = (dir, True)"
  obtains o1 where "Order q = [o1]" "IsName o1" "Dir o1 = dir"
  using assms by (auto simp: NameOnlyOrder_def split: list.splits if_splits)

lemma name_order_wf: "NameOnlyOrder q = (dir, True) \<Longrightarrow> wf_order (Order q)"
  by (erule name_orderedE) (simp add: wf_order_def)

lemma name_dcmp:
  assumes "NameOnlyOrder q = (dir, True)" "CompareResourceNames (d_Name a) (d_Name b) = cmp3 (d_Name a) (d_Name b)"
  shows "dcmp q a b = cmp3 (d_Name a) (d_Name b) * dir_int dir"
  using assms(1)
  by (rule name_orderedE)
     (simp add: dcmp_def doc_cmp_def doc_key_def CompareKeys_def OrderKey_def orderValue_def
       assms(2))

lemma local_not_empty: "in_collection q r \<Longrightarrow> r \<noteq> []"
  by (rule in_collection_split, assumption) auto

text \<open>A query of one collection, with cursors in it if there are any, meets the condition.\<close>

lemma collection_name_ordered:
  assumes "wf_db P db" "NameOnlyOrder q = (dir, True)" "\<not> AllDescendants q"
    and "\<forall>co \<in> {Start q, End q}. co \<noteq> None \<longrightarrow> (\<exists>r \<in> cursor_refs co. in_collection q r)"
  shows "name_ordered q dir db"
proof -
  have refs: "in_collection q r" if "r \<in> cursor_refs co" "co \<in> {Start q, End q}" for r co
    using that assms(4) by (fastforce simp: cursor_refs_def split: option.splits)
  have "in_collection q n" if "n \<in> name_scope q db" for n
    using that refs assms(1) row_in_collection [OF _ _ assms(3)] by (auto simp: name_scope_def wf_db_def)
  then have "orders_agree (name_scope q db)" using CompareResourceNames_siblings [of q] by (simp add: orders_agree_def)
  moreover have "ref_cursor co" if "co \<in> {Start q, End q}" for co
    using that assms(4) local_not_empty by (fastforce simp: ref_cursor_def)
  ultimately show ?thesis using assms(2) by (simp add: name_ordered_def)
qed

lemma nameBounds_cursor:
  assumes "name_ordered q dir db" "n \<in> name_scope q db"
  shows "InCursorRange q (OrderKey q n f) \<longleftrightarrow> nameBounds q dir n"
proof -
  have no: "NameOnlyOrder q = (dir, True)" and cur: "ref_cursor (Start q)" "ref_cursor (End q)"
    and agree: "orders_agree (name_scope q db)"
    using assms(1) by (simp_all add: name_ordered_def)
  obtain o1 where o1: "Order q = [o1]" "IsName o1" "Dir o1 = dir" by (rule name_orderedE [OF no])
  have c: "compareToCursor q (OrderKey q n f) c = cmp3 n r * dir_int dir"
    if "Values c = [ReferenceValue r]" "r \<in> cursor_refs (Start q) \<union> cursor_refs (End q)" for c r
  proof -
    have "CompareResourceNames n r = cmp3 n r" using agree assms(2) that(2) by (auto simp: orders_agree_def name_scope_def)
    with that(1) show ?thesis by (simp add: compareToCursor_def OrderKey_def orderValue_def o1)
  qed
  have s: "(case Start q of None \<Rightarrow> False
          | Some s \<Rightarrow> let c = compareToCursor q (OrderKey q n f) s in c < 0 \<or> (c = 0 \<and> \<not> Before s)) \<longleftrightarrow>
      \<not> (case Start q of None \<Rightarrow> True | Some c \<Rightarrow> boundOK dir (Before c) (GetReferenceValue (hd (Values c))) n)"
    by (rule ref_cursorE [OF cur(1)]; cases dir) (auto simp: c boundOK_def)
  have e: "(case End q of None \<Rightarrow> False
          | Some e \<Rightarrow> let c = compareToCursor q (OrderKey q n f) e in c > 0 \<or> (c = 0 \<and> Before e)) \<longleftrightarrow>
      \<not> (case End q of None \<Rightarrow> True | Some c \<Rightarrow> boundOK (flipDir dir) (\<not> Before c) (GetReferenceValue (hd (Values c))) n)"
    by (rule ref_cursorE [OF cur(2)]; cases dir) (auto simp: c boundOK_def)
  have "nameBounds q dir n \<longleftrightarrow>
      (case Start q of None \<Rightarrow> True | Some c \<Rightarrow> boundOK dir (Before c) (GetReferenceValue (hd (Values c))) n) \<and>
      (case End q of None \<Rightarrow> True | Some c \<Rightarrow> boundOK (flipDir dir) (\<not> Before c) (GetReferenceValue (hd (Values c))) n)"
    by (rule ref_cursorE [OF cur(1)]; rule ref_cursorE [OF cur(2)])
       (simp_all add: nameBounds_def NameCursorBounds_def nameCursor_def)
  with s e show ?thesis unfolding InCursorRange_def by simp
qed

section \<open>Rows in name order\<close>

lemma nameRows_eq:
  assumes "\<forall>r \<in> set rs. row_ok P r" "0 \<le> skipped" "skipped \<le> sint (Offset q) \<or> sint (Offset q) < 0" "0 \<le> emitted"
    "sint (Limit q) < 0 \<or> emitted \<le> sint (Limit q)"
  shows "nameRows q skipped emitted rs =
    ((let ys = drop (nat (sint (Offset q) - skipped)) (filter (selects q) (successes (map scanDoc rs)))
      in if sint (Limit q) \<ge> 0 then take (nat (sint (Limit q) - emitted)) ys else ys), None)"
  using assms
proof (induction rs arbitrary: skipped emitted)
  case (Cons r rs)
  from Cons.prems(1) obtain doc where doc: "scanDoc r = Inr doc" using row_ok_scan [of P r] by auto
  show ?case
  proof (cases "selects q doc")
    case False
    with doc Cons show ?thesis by (auto simp: selects_def)
  next
    case True
    then have m: "Matches q (d_Name doc) (d_Fields doc)" "InCursorRange q (OrderKey q (d_Name doc) (d_Fields doc))"
      by (simp_all add: selects_def)
    show ?thesis
    proof (cases "skipped < sint (Offset q)")
      case skip: True
      then have "nat (sint (Offset q) - skipped) = Suc (nat (sint (Offset q) - (skipped + 1)))" by simp
      with skip m True doc Cons.IH [of "skipped + 1" emitted] Cons.prems show ?thesis by simp
    next
      case False
      then have d: "nat (sint (Offset q) - skipped) = 0" by simp
      show ?thesis
      proof (cases "sint (Limit q) \<ge> 0 \<and> emitted \<ge> sint (Limit q)")
        case stop: True
        with Cons.prems have "nat (sint (Limit q) - emitted) = 0" by simp
        with stop False m True doc d show ?thesis by simp
      next
        case go: False
        then have "sint (Limit q) \<ge> 0 \<Longrightarrow> nat (sint (Limit q) - emitted) = Suc (nat (sint (Limit q) - (emitted + 1)))" by simp
        with go False m True doc d Cons.IH [of skipped "emitted + 1"] Cons.prems show ?thesis by (auto simp: Let_def)
      qed
    qed
  qed
qed simp

lemma nameRows_page:
  assumes "\<forall>r \<in> set rs. row_ok P r"
  shows "nameRows q 0 0 rs = (page q (filter (selects q) (successes (map scanDoc rs))), None)"
proof -
  have "0 \<le> sint (Offset q) \<or> sint (Offset q) < 0" "sint (Limit q) < 0 \<or> 0 \<le> sint (Limit q)" by linarith+
  from nameRows_eq [OF assms order.refl this(1) order.refl this(2)] show ?thesis by (simp add: page_def Let_def)
qed

lemma successes_mset: "mset xs = mset ys \<Longrightarrow> mset (successes (map scanDoc xs)) = mset (successes (map scanDoc ys))"
proof -
  have "successes (map scanDoc xs) = concat (map (\<lambda>r. case scanDoc r of Inl _ \<Rightarrow> [] | Inr d \<Rightarrow> [d]) xs)" for xs
  proof (induction xs)
    case (Cons r xs)
    then show ?case by (cases "scanDoc r") auto
  qed simp
  moreover have "mset (concat (map f xs)) = (\<Sum>x \<in># mset xs. mset (f x))" for f :: "DocRow \<Rightarrow> Doc list" and xs
    by (induction xs) auto
  moreover assume "mset xs = mset ys"
  ultimately show ?thesis by simp
qed

text \<open>The rows the scan reads, before a limit.\<close>

definition nameScan :: "(JSON \<Rightarrow> JSON \<Rightarrow> bool) \<Rightarrow> Query \<Rightarrow> Direction \<Rightarrow> DB \<Rightarrow> DocRow list" where
  "nameScan contains q dir db =
     (let rows = sort_key r_name (filter (\<lambda>r. nameBounds q dir (r_name r)) (candidates contains q db))
      in case dir of Asc \<Rightarrow> rows | Desc \<Rightarrow> rev rows)"

lemma nameScan_mset: "mset (nameScan contains q dir db) = mset (filter (\<lambda>r. nameBounds q dir (r_name r)) (candidates contains q db))"
  by (simp add: nameScan_def Let_def split: Direction.split)

lemma nameScan_set: "set (nameScan contains q dir db) = {r \<in> set (candidates contains q db). nameBounds q dir (r_name r)}"
  using arg_cong [OF nameScan_mset [of contains q dir db], of set_mset] by simp

lemma nameScan_rows:
  assumes "wf_db valid_value db" "r \<in> set (nameScan contains q dir db)"
  shows "row_ok valid_value r" "r_name r \<in> name_scope q db"
  using assms by (auto simp: nameScan_set candidates_def wf_db_def name_scope_def)

lemma nameScan_names:
  assumes "wf_db valid_value db"
  shows "map d_Name (successes (map scanDoc (nameScan contains q dir db))) = map r_name (nameScan contains q dir db)"
  by (rule successes_names) (use nameScan_rows(1) [OF assms] in blast)

lemma nameScan_collection:
  assumes "wf_db valid_value db" "d \<in> set (successes (map scanDoc (nameScan contains q dir db)))"
  shows "d_Name d \<in> name_scope q db"
proof -
  have "d_Name d \<in> r_name ` set (nameScan contains q dir db)"
    using arg_cong [OF nameScan_names [OF assms(1), of contains q dir], of set] assms(2) by auto
  with nameScan_rows(2) [OF assms(1)] show ?thesis by auto
qed

lemma nameScan_sorted:
  assumes wf: "wf_db valid_value db" and no: "NameOnlyOrder q = (dir, True)" "orders_agree (name_scope q db)"
  shows "sorted_wrt (\<lambda>a b. dcmp q a b \<le> 0) (successes (map scanDoc (nameScan contains q dir db)))"
proof (rule sorted_wrt_mono_rel)
  have "sorted (map r_name (sort_key r_name rs))" for rs :: "DocRow list" by simp
  then have "sorted_wrt (\<lambda>a b. cmp3 a b * dir_int dir \<le> 0) (map r_name (nameScan contains q dir db))"
    by (cases dir) (simp_all add: nameScan_def sorted_wrt_rev flip: rev_map)
  then show "sorted_wrt (\<lambda>a b. cmp3 (d_Name a) (d_Name b) * dir_int dir \<le> 0) (successes (map scanDoc (nameScan contains q dir db)))"
    unfolding nameScan_names [OF wf, symmetric] sorted_wrt_map .
  fix a b assume ab: "a \<in> set (successes (map scanDoc (nameScan contains q dir db)))" "b \<in> set (successes (map scanDoc (nameScan contains q dir db)))"
  assume "cmp3 (d_Name a) (d_Name b) * dir_int dir \<le> 0"
  moreover have "CompareResourceNames (d_Name a) (d_Name b) = cmp3 (d_Name a) (d_Name b)"
    using no(2) nameScan_collection [OF wf ab(1)] nameScan_collection [OF wf ab(2)] by (simp add: orders_agree_def)
  ultimately show "dcmp q a b \<le> 0" by (simp add: name_dcmp [OF no(1)])
qed

text \<open>The documents it selects are the selected documents, in query order.\<close>

lemma nameScan_selected:
  assumes wf: "wf_db valid_value db" and sound: "narrowing_sound contains q db" and no: "name_ordered q dir db"
  shows "filter (selects q) (successes (map scanDoc (nameScan contains q dir db))) = SliceStable (docLess q) (selectedDocs q db)"
proof (rule reference_unique [OF wf])
  have no': "NameOnlyOrder q = (dir, True)" "orders_agree (name_scope q db)" using no by (simp_all add: name_ordered_def)
  show "wf_order (Order q)" by (rule name_order_wf [OF no'(1)])
  show "sorted_wrt (\<lambda>a b. dcmp q a b \<le> 0) (filter (selects q) (successes (map scanDoc (nameScan contains q dir db))))"
    by (rule sorted_wrt_filter [OF nameScan_sorted [OF wf no']])
  let ?rows = "candidates contains q db"
  have bounds: "nameBounds q dir (r_name r)" if "r \<in> set ?rows" "scanDoc r = Inr d" "selects q d" for r d
  proof -
    have "r_name r \<in> name_scope q db" using that(1) by (auto simp: candidates_def name_scope_def)
    with that(3) nameBounds_cursor [OF no, of "r_name r" "d_Fields d"] scan_facts [OF that(2)] show ?thesis by (simp add: selects_def)
  qed
  have "mset (filter (selects q) (successes (map scanDoc (nameScan contains q dir db)))) =
      mset (filter (selects q) (successes (map scanDoc (filter (\<lambda>r. True \<and> nameBounds q dir (r_name r)) ?rows))))"
    unfolding mset_filter using successes_mset [OF nameScan_mset] by simp
  also have "\<dots> = mset (filter (selects q) (successes (map scanDoc (filter (\<lambda>r. True) ?rows))))"
    by (subst successes_filter) (use bounds in auto)
  also have "\<dots> = mset (selectedDocs q db)" using candidates_selected [OF sound] by simp
  finally show "mset (filter (selects q) (successes (map scanDoc (nameScan contains q dir db)))) = mset (selectedDocs q db)" .
qed

lemma successes_take: "\<forall>r \<in> set rs. row_ok P r \<Longrightarrow> successes (map scanDoc (take n rs)) = take n (successes (map scanDoc rs))"
proof (induction rs arbitrary: n)
  case (Cons r rs)
  then show ?case using row_ok_scan [of P r] by (cases n) auto
qed simp

text \<open>Without filters no row is dropped, so the limit may be applied before the rows are read.\<close>

lemma nameScan_all:
  assumes wf: "wf_db valid_value db" and no: "name_ordered q dir db" and "Where q = None"
    and d: "d \<in> set (successes (map scanDoc (nameScan contains q dir db)))"
  shows "selects q d"
proof -
  have no': "NameOnlyOrder q = (dir, True)" "orders_agree (name_scope q db)" using no by (simp_all add: name_ordered_def)
  have m: "Matches q (d_Name d) (d_Fields d)"
    by (rule name_orderedE [OF no'(1)]) (use assms(3) in \<open>simp add: Matches_def\<close>)
  from d obtain r where r: "r \<in> set (nameScan contains q dir db)" "scanDoc r = Inr d" by (auto simp: successes_set)
  then have "nameBounds q dir (d_Name d)" using scan_facts [OF r(2)] by (simp add: nameScan_set)
  with nameBounds_cursor [OF no nameScan_collection [OF wf d], of "d_Fields d"] m show ?thesis by (simp add: selects_def)
qed

lemma runNameOrdered_reference:
  assumes wf: "wf_db valid_value db" and sound: "narrowing_sound contains q db" and no: "name_ordered q dir db"
  shows "runNameOrdered contains q dir db = (reference q db, None)"
proof -
  let ?rows = "nameScan contains q dir db" and ?l = "nat (sint (Limit q))"
  have run: "runNameOrdered contains q dir db =
      nameRows q 0 0 (if Where q = None \<and> Offset q = 0 \<and> sint (Limit q) \<ge> 0 then take ?l ?rows else ?rows)"
    by (simp only: runNameOrdered_def nameScan_def Let_def)
  have ok: "\<forall>r \<in> set ?rows. row_ok valid_value r" using nameScan_rows(1) [OF wf] by blast
  note ref = nameScan_selected [OF wf sound no]
  show ?thesis
  proof (cases "Where q = None \<and> Offset q = 0 \<and> sint (Limit q) \<ge> 0")
    case False
    with run have "runNameOrdered contains q dir db = nameRows q 0 0 ?rows" by (simp only: if_False)
    with nameRows_page [OF ok, of q] ref show ?thesis by (simp add: reference_def)
  next
    case True
    with run have "runNameOrdered contains q dir db = nameRows q 0 0 (take ?l ?rows)" by simp
    also have "\<dots> = (page q (filter (selects q) (take ?l (successes (map scanDoc ?rows)))), None)"
      using nameRows_page [of "take ?l ?rows" valid_value q] ok successes_take [OF ok, of ?l] by (auto dest: in_set_takeD)
    also have "filter (selects q) (take ?l (successes (map scanDoc ?rows))) = take ?l (filter (selects q) (successes (map scanDoc ?rows)))"
    proof -
      have "filter (selects q) xs = xs" if "set xs \<subseteq> set (successes (map scanDoc ?rows))" for xs
        by (rule filter_True) (use that nameScan_all [OF wf no conjunct1 [OF True]] in blast)
      then show ?thesis by (simp add: set_take_subset)
    qed
    also have "page q (take ?l (filter (selects q) (successes (map scanDoc ?rows)))) = reference q db"
      unfolding ref reference_def using True by (simp add: page_def)
    finally show ?thesis .
  qed
qed

end
