(* ===== verification/Narrowing.thy ===== *)
theory Narrowing
  imports StoreQuery
begin

text \<open>
  The jsonb probes of \<^verbatim>\<open>store/query.go\<close> (\<^verbatim>\<open>containmentProbes\<close>, \<^verbatim>\<open>equalityProbes\<close>) never exclude a document
  the query selects, for operands that are scalars. Of Postgres' operator the proof uses three
  documented facts: a value contains itself, an object contains an object whose entries it has,
  an array contains an array whose elements it has.
\<close>

section \<open>Containment\<close>

definition jsonb_laws :: "(JSON \<Rightarrow> JSON \<Rightarrow> bool) \<Rightarrow> bool" where
  "jsonb_laws contains \<longleftrightarrow>
     (\<forall>j. contains j j) \<and>
     (\<forall>kvs ps. (\<forall>(k, p) \<in> set ps. \<exists>j. (k, j) \<in> set kvs \<and> contains j p) \<longrightarrow> contains (JObj kvs) (JObj ps)) \<and>
     (\<forall>js ps. (\<forall>p \<in> set ps. \<exists>j \<in> set js. contains j p) \<longrightarrow> contains (JArr js) (JArr ps))"

lemma jsonb_obj: "jsonb_laws contains \<Longrightarrow> (k, j) \<in> set kvs \<Longrightarrow> contains j p \<Longrightarrow> contains (JObj kvs) (JObj [(k, p)])"
  unfolding jsonb_laws_def by (elim conjE allE [where x = kvs] allE [where x = "[(k, p)]"]) auto

lemma jsonb_arr: "jsonb_laws contains \<Longrightarrow> j \<in> set js \<Longrightarrow> contains j p \<Longrightarrow> contains (JArr js) (JArr [p])"
  unfolding jsonb_laws_def by (elim conjE allE [where x = js] allE [where x = "[p]"]) auto

text \<open>A function with these laws.\<close>

function jsonb_contains :: "JSON \<Rightarrow> JSON \<Rightarrow> bool" where
  "jsonb_contains (JObj kvs) (JObj ps) \<longleftrightarrow>
     list_all (\<lambda>kp. list_ex (\<lambda>kj. fst kj = fst kp \<and> jsonb_contains (snd kj) (snd kp)) kvs) ps"
| "jsonb_contains (JArr js) (JArr ps) \<longleftrightarrow> list_all (\<lambda>p. list_ex (\<lambda>j. jsonb_contains j p) js) ps"
| "(\<nexists>kvs ps. j = JObj kvs \<and> p = JObj ps) \<Longrightarrow> (\<nexists>js ps. j = JArr js \<and> p = JArr ps) \<Longrightarrow> jsonb_contains j p \<longleftrightarrow> j = p"
  by auto (metis old.prod.exhaust)
termination
  by (relation "measure (\<lambda>(j, p). size p)")
     (auto dest: size_list_elem [of _ _ size] size_list_elem [of _ _ "size_prod (\<lambda>_. 0) size"])

lemma jsonb_contains_refl: "jsonb_contains j j"
proof (induction j)
  case (JArr js)
  then show ?case by (auto simp: list_all_iff list_ex_iff)
next
  case (JObj kvs)
  then show ?case by (fastforce simp: list_all_iff list_ex_iff)
qed (subst jsonb_contains.simps(3); simp)+

lemma jsonb_contains_laws: "jsonb_laws jsonb_contains"
  unfolding jsonb_laws_def
proof (intro conjI allI impI)
  fix kvs ps :: "(string \<times> JSON) list"
  assume "\<forall>(k, p) \<in> set ps. \<exists>j. (k, j) \<in> set kvs \<and> jsonb_contains j p"
  then have "\<exists>kj \<in> set kvs. fst kj = fst kp \<and> jsonb_contains (snd kj) (snd kp)" if "kp \<in> set ps" for kp
    using that by (cases kp) force
  then show "jsonb_contains (JObj kvs) (JObj ps)" by (simp add: list_all_iff list_ex_iff)
next
  fix js ps :: "JSON list"
  assume "\<forall>p \<in> set ps. \<exists>j \<in> set js. jsonb_contains j p"
  then show "jsonb_contains (JArr js) (JArr ps)" by (simp add: list_all_iff list_ex_iff)
qed (rule jsonb_contains_refl)

section \<open>Equal scalars are encoded alike\<close>

lemma bit_len_unique: "2 ^ k \<le> m \<Longrightarrow> m < 2 ^ Suc k \<Longrightarrow> bit_len m = Suc k"
proof -
  assume m: "2 ^ k \<le> m" "m < 2 ^ Suc k"
  then have "0 < m" by (metis gr0I power_eq_0_iff le_zero_eq zero_neq_numeral)
  with bit_len_bounds [of m] have b: "2 ^ (bit_len m - 1) \<le> m" "m < 2 ^ bit_len m" by simp_all
  from bit_len_le [OF m(2)] have "bit_len m \<le> Suc k" .
  moreover from m(1) b(2) have "(2 :: nat) ^ k < 2 ^ bit_len m" by (rule le_less_trans)
  then have "k < bit_len m" by (rule power_less_imp_less_exp [rotated]) simp
  ultimately show ?thesis by simp
qed

lemma round_low_mag:
  assumes "n \<le> 2047 * 2 ^ 52"
  shows "round_mag (low_mag n) = n"
proof (cases "n div 2 ^ 52 = 0")
  case True
  then have n: "low_mag n = n" "n < 2 ^ 52" by (simp_all add: low_mag_def div_eq_0_iff)
  then have "bit_len n - 53 = 0" using bit_len_le [of n 52] by simp
  then show ?thesis using assms n(1) by (simp add: round_mag_def Let_def)
next
  case False
  then obtain e where e: "n div 2 ^ 52 = Suc e" using not0_implies_Suc by blast
  have "2 ^ (52 + e) \<le> low_mag n" "low_mag n < 2 ^ Suc (52 + e)"
    using low_mag_lower [of n] low_mag_upper [of n] e by (simp_all add: add.commute)
  from bit_len_unique [OF this] have len: "bit_len (low_mag n) - 53 = e" by simp
  have m: "low_mag n = (2 ^ 52 + n mod 2 ^ 52) * 2 ^ e" unfolding low_mag_def e by (simp only: nat.distinct if_False diff_Suc_1)
  have "e * 2 ^ 52 + (2 ^ 52 + n mod 2 ^ 52) = n" 
    using div_mult_mod_eq [of n "2 ^ 52"] unfolding e by (simp only: mult_Suc add.assoc add.left_commute)
  then show ?thesis using assms unfolding round_mag_def Let_def len by (simp add: m)
qed

lemma float_of_scaled_exact:
  assumes "\<not> float_IsNaN f" "float_scaled f \<noteq> 0"
  shows "float_of_scaled (float_scaled f < 0) (nat \<bar>float_scaled f\<bar>) = f"
proof -
  have low: "float_low f \<le> 2047 * 2 ^ 52" using assms(1) by (simp only: not_NaN_low)
  have "nat \<bar>float_scaled f\<bar> = low_mag (float_low f)" by (simp add: float_scaled_def)
  moreover have "float_scaled f < 0 \<longleftrightarrow> float_sign f" using assms(2) by (auto simp: float_scaled_def)
  ultimately have "float_of_scaled (float_scaled f < 0) (nat \<bar>float_scaled f\<bar>) = word_of_nat (unat f)"
    using round_low_mag [OF low] unat_float [of f] by (simp add: float_of_scaled_def)
  then show ?thesis by simp
qed

lemma float_zero_cases:
  assumes "float_scaled f = 0"
  shows "f = 0 \<or> f = negZero"
proof -
  have "float_low f = 0" using assms by (simp add: float_scaled_0_iff)
  then have "unat f = 0 \<or> unat f = 2 ^ 63" using unat_float [of f] by auto
  moreover have "unat negZero = 2 ^ 63" by (simp add: negZero_def)
  ultimately have "unat f = unat (0 :: float64) \<or> unat f = unat negZero" by simp
  then show ?thesis by (simp only: word_unat_eq_iff)
qed

lemma float_scaled_inj:
  assumes "\<not> float_IsNaN f" "\<not> float_IsNaN g" "float_scaled f = float_scaled g" "float_scaled g \<noteq> 0"
  shows "f = g"
proof -
  have "float_scaled f \<noteq> 0" using assms(3,4) by simp
  from float_of_scaled_exact [OF assms(1) this] float_of_scaled_exact [OF assms(2,4)] show ?thesis unfolding assms(3) by (rule trans [OF sym])
qed

lemma int_scaled_ulps: "int_scaled i = sint i * int ulps"
  by (simp only: int_scaled_def ulps_def of_nat_power of_nat_numeral)

lemma int64_of_float_scaled:
  assumes "float_scaled f = int_scaled i"
  shows "int64_of_float f = i"
proof -
  have u: "int ulps > 0" by simp
  have "sgn (sint i * int ulps) * (\<bar>sint i * int ulps\<bar> div int ulps) = sint i"
    using u by (simp add: sgn_mult abs_mult sgn_mult_abs)
  then show ?thesis unfolding int64_of_float_def assms int_scaled_ulps by simp
qed

lemma float_of_int64_scaled:
  assumes "\<not> float_IsNaN f" "float_scaled f = int_scaled i" "i \<noteq> 0"
  shows "float_of_int64 i = f"
proof -
  have "sint i \<noteq> 0" using assms(3) by (simp add: signed_eq_0_iff)
  then have nz: "float_scaled f \<noteq> 0" unfolding assms(2) int_scaled_ulps by simp
  have "sint i < 0 \<longleftrightarrow> float_scaled f < 0"
    unfolding assms(2) int_scaled_ulps by (simp add: mult_less_0_iff)
  with float_of_scaled_exact [OF assms(1) nz] show ?thesis unfolding float_of_int64_def assms(2) [symmetric] by simp
qed

lemma int64_range: "- (2 ^ 63) * int ulps \<le> int_scaled i" "int_scaled i < 2 ^ 63 * int ulps"
proof -
  have "- (2 ^ 63) \<le> sint i" "sint i < 2 ^ 63" using sint_ge [of i] sint_lt [of i] by simp_all
  then show "- (2 ^ 63) * int ulps \<le> int_scaled i" "int_scaled i < 2 ^ 63 * int ulps"
    unfolding int_scaled_ulps by (simp_all only: mult_right_mono mult_strict_right_mono of_nat_0_le_iff of_nat_0_less_iff ulps_pos)
qed

lemma scaled_not_Inf:
  assumes "float_scaled f = int_scaled i"
  shows "\<not> float_IsInf f"
proof
  assume "float_IsInf f"
  then have "2 ^ 52 * 2047 \<le> float_low f" using div_mult_mod_eq [of "float_low f" "2 ^ 52"]
    by (simp add: float_IsInf_def float_exp_def float_frac_def)
  then have "low_mag (2 ^ 52 * 2047) \<le> low_mag (float_low f)" using low_mag_less_iff [of "float_low f" "2 ^ 52 * 2047"] by linarith
  moreover have "2 ^ 63 * ulps < low_mag (2 ^ 52 * 2047)"
  proof -
    have "low_mag (2 ^ 52 * 2047) = 2 ^ 52 * 2 ^ 2046" by (simp add: low_mag_def)
    moreover have "(2 :: nat) ^ 63 * ulps < 2 ^ 52 * 2 ^ 2046"
      unfolding ulps_def power_add [symmetric] by (rule power_strict_increasing) simp_all
    ultimately show ?thesis by simp
  qed
  ultimately have "int (2 ^ 63 * ulps) < \<bar>float_scaled f\<bar>" by (simp add: float_scaled_def)
  moreover have "\<bar>float_scaled f\<bar> \<le> int (2 ^ 63 * ulps)" using int64_range [of i] unfolding assms by simp
  ultimately show False by simp
qed

fun scalar :: "Value \<Rightarrow> bool" where
  "scalar (GeoPointValue _ _) = False"
| "scalar (ArrayValue _) = False"
| "scalar (MapValue _) = False"
| "scalar UnknownValue = False"
| "scalar _ = True"

text \<open>Whatever equals a scalar operand is the operand or one of its alternatives.\<close>

lemma equal_alternatives:
  assumes "scalar operand" "\<not> IsNaN operand" "Compare v operand = 0"
  shows "v \<in> set (operand # alternatives operand)"
proof -
  have t: "TypeOrder v = TypeOrder operand"
    using assms(3) Compare_types [of v operand] by (cases "TypeOrder v = TypeOrder operand") auto
  show ?thesis
  proof (cases "TypeOrder operand = orderNumber")
    case False
    with t assms show ?thesis
      by (cases operand; cases v) (auto simp: IsNaN_def bytes_Compare_cmp3 intro: signed_word_eqI split: if_splits)
  next
    case True
    with t have tv: "TypeOrder v = orderNumber" by simp
    have n: "num_scaled v = num_scaled operand" using Compare_number [OF tv True] assms(3) by simp
    show ?thesis
      using tv
    proof (rule number_cases)
      fix x assume v: "v = IntegerValue x"
      show ?thesis
        using True
      proof (rule number_cases)
        fix i assume o1: "operand = IntegerValue i"
        with v n have "x = i" by (intro signed_word_eqI) (simp add: int_scaled_def)
        with o1 v show ?thesis by simp
      next
        fix g assume o1: "operand = DoubleValue g" "\<not> float_IsNaN g"
        with v n have g: "float_scaled g = int_scaled x" by simp
        then have "integral g" "in_int64 g"
          using o1(2) scaled_not_Inf [OF g] int64_range [of x]
          by (simp_all add: integral_def in_int64_def) (simp add: int_scaled_ulps)
        with o1 v int64_of_float_scaled [OF g] show ?thesis by (simp add: alternatives_def)
      qed
    next
      fix f assume v: "v = DoubleValue f" "\<not> float_IsNaN f"
      show ?thesis
        using True
      proof (rule number_cases)
        fix i assume o1: "operand = IntegerValue i"
        with v n have f: "float_scaled f = int_scaled i" by simp
        show ?thesis
        proof (cases "i = 0")
          case True
          have "float_of_int64 0 = 0" by (simp add: float_of_int64_def int_scaled_def float_of_scaled_def round_mag_def)
          moreover have "int64_of_float 0 = 0" by (simp add: int64_of_float_def)
          moreover have "float_scaled f = 0" using f True by (simp add: int_scaled_def)
          ultimately show ?thesis using float_zero_cases [of f] o1 v True by (auto simp: alternatives_def)
        next
          case False
          have "float_scaled f \<noteq> 2 ^ 63 * int ulps" using int64_range(2) [of i] f by simp
          with False o1 v float_of_int64_scaled [OF v(2) f False] int64_of_float_scaled [OF f] show ?thesis
            by (simp add: alternatives_def)
        qed
      next
        fix g assume o1: "operand = DoubleValue g" "\<not> float_IsNaN g"
        with v n have s: "float_scaled f = float_scaled g" by simp
        show ?thesis
        proof (cases "float_scaled g = 0")
          case True
          with o1 v s float_zero_cases [of f] show ?thesis by (auto simp: alternatives_def float_eq_def)
        next
          case False
          from float_scaled_inj [OF v(2) o1(2) s False] o1 v show ?thesis by simp
        qed
      qed
    qed
  qed
qed

section \<open>Probes match the stored encoding\<close>

lemma canon_map_of: "map_of (canonFields f) k = map_option canonValue (map_of f k)"
  by (induction f) (auto simp: canonFields_def)

lemma canonValue_Map: "canonValue v = MapValue m \<longleftrightarrow> (\<exists>m'. v = MapValue m' \<and> m = canonFields m')"
  by (cases v) (auto simp: tsOf_def canonFields_def)

lemma canonValue_Array: "canonValue v = ArrayValue vs \<longleftrightarrow> (\<exists>vs'. v = ArrayValue vs' \<and> vs = map canonValue vs')"
  by (cases v) (auto simp: tsOf_def)

lemma canon_GetField:
  "GetField (canonFields f) path = Some v \<Longrightarrow> \<exists>v'. GetField f path = Some v' \<and> v = canonValue v'"
proof (induction f path rule: GetField.induct)
  case (2 f seg)
  then show ?case by (auto simp: canon_map_of)
next
  case (3 f seg s rest)
  from "3.prems" obtain m where m: "map_of (canonFields f) seg = Some (MapValue m)" "GetField m (s # rest) = Some v"
    by (auto split: option.splits Value.splits)
  then obtain w where w: "map_of f seg = Some w" "canonValue w = MapValue m" by (auto simp: canon_map_of)
  then obtain m' where m': "w = MapValue m'" "m = canonFields m'" by (auto simp: canonValue_Map)
  from "3.IH" [OF w(1) m'(1)] m(2) m'(2) obtain v' where "GetField m' (s # rest) = Some v'" "v = canonValue v'" by auto
  with w(1) m'(1) show ?case by simp
qed simp

lemma scalar_encode:
  assumes "encodable v" "scalar (canonValue v)" "\<not> IsNaN (canonValue v)"
  shows "encode (canonValue v) = encode v"
proof (cases v)
  case (TimestampValue s n)
  with assms(1) have r: "zeroTime \<le> AsTime s n" "AsTime s n \<le> maxTimestamp" by simp_all
  then show ?thesis using Truncate_us_range [of "AsTime s n"] TimestampValue
    by (simp add: tsOf_def formatTimestamp_def AsTime_tsOf Let_def)
next
  case (DoubleValue d)
  with assms(3) show ?thesis by (auto simp: canonNaN_def IsNaN_def float_NaN_def float_IsNaN_def float_exp_def float_frac_def float_low_def)
qed (use assms in auto)

lemma mapResult_mem: "mapResult f xs = Inr ys \<Longrightarrow> x \<in> set xs \<Longrightarrow> \<exists>y \<in> set ys. f x = Inr y"
  by (induction xs arbitrary: ys) (auto simp: bind_result_Inr)

lemma payload_entry:
  assumes "encodeMapPayload f = Inr obj" "map_of f k = Some v"
  shows "\<exists>j. encode v = Inr j \<and> (k, j) \<in> set obj"
proof -
  from mapResult_mem [OF assms(1) [unfolded encodeMapPayload.simps] map_of_SomeD [OF assms(2)]]
  show ?thesis by (auto simp: bind_result_Inr split: if_splits)
qed

lemma nest_contains:
  assumes "jsonb_laws contains"
  shows "GetField f path = Some v \<Longrightarrow> encodeMapPayload f = Inr obj \<Longrightarrow> encode v = Inr j \<Longrightarrow> contains j leaf \<Longrightarrow>
    contains (JObj obj) (nestPath path leaf)"
proof (induction f path arbitrary: obj rule: GetField.induct)
  case (2 f seg)
  from payload_entry [OF 2(2), of seg v] 2(1,3) have "(seg, j) \<in> set obj" by auto
  with 2(4) jsonb_obj [OF assms] show ?case by simp
next
  case (3 f seg s rest)
  from 3(2) obtain m where m: "map_of f seg = Some (MapValue m)" "GetField m (s # rest) = Some v"
    by (auto split: option.splits Value.splits)
  from payload_entry [OF 3(3) m(1)] obtain obj' where e: "encodeMapPayload m = Inr obj'" "(seg, JObj [(''m'', JObj obj')]) \<in> set obj"
    by (auto simp: bind_result_Inr)
  have "contains (JObj obj') (nestPath (s # rest) leaf)" using "3.IH" [OF m(1) refl m(2) e(1) 3(4,5)] .
  then have "contains (JObj [(''m'', JObj obj')]) (JObj [(''m'', nestPath (s # rest) leaf)])" by (intro jsonb_obj [OF assms]) auto
  then show ?case using jsonb_obj [OF assms e(2)] by simp
qed simp

lemma encodable_GetField: "encodable (MapValue f) \<Longrightarrow> GetField f path = Some v \<Longrightarrow> encodable v"
proof (induction f path rule: GetField.induct)
  case (2 f seg)
  then show ?case by (auto dest!: map_of_SomeD)
next
  case (3 f seg s rest)
  then obtain m where m: "map_of f seg = Some (MapValue m)" "GetField m (s # rest) = Some v"
    by (auto split: option.splits Value.splits)
  from map_of_SomeD [OF m(1)] 3(2) have "encodable (MapValue m)" by force
  from "3.IH" [OF m(1) refl this m(2)] show ?case .
qed simp

lemma successes_mem: "f x = Inr y \<Longrightarrow> x \<in> set xs \<Longrightarrow> y \<in> set (successes (map f xs))"
  by (force simp: successes_set image_iff)

lemma equality_group:
  assumes grp: "equalityProbes path operand build = Some grp" and s: "scalar operand"
    and eq: "Compare (canonValue v) operand = 0" and v: "encodable v" "encode v = Inr j"
    and build: "\<And>w. encode w = Inr j \<Longrightarrow> build path w = Inr p" and has: "contains data p"
  shows "list_ex (contains data) grp"
proof -
  from grp have nan: "\<not> IsNaN operand" and g: "grp = successes (map (build path) (operand # alternatives operand))"
    by (auto simp: equalityProbes_def Let_def split: if_splits)
  have mem: "canonValue v \<in> set (operand # alternatives operand)" by (rule equal_alternatives [OF s nan eq])
  have t: "TypeOrder (canonValue v) = TypeOrder operand"
    using eq Compare_types [of "canonValue v" operand] by (cases "TypeOrder (canonValue v) = TypeOrder operand") auto
  have "scalar (canonValue v)" "\<not> IsNaN (canonValue v)"
    using t s nan by (cases operand; cases "canonValue v"; auto simp: IsNaN_def split: if_splits)+
  from scalar_encode [OF v(1) this] v(2) have "build path (canonValue v) = Inr p" by (intro build) simp
  with mem have "p \<in> set grp" unfolding g by (intro successes_mem)
  with has show ?thesis by (auto simp: list_ex_iff)
qed

lemma field_probes:
  assumes laws: "jsonb_laws contains" and f: "encodable (MapValue f)" "encodeMapPayload f = Inr obj"
    and eval: "evalFieldFilter fpath op operand name (canonFields f)" and s: "op = EQUAL \<or> op = ARRAY_CONTAINS \<longrightarrow> scalar operand"
  shows "list_all (list_ex (contains (JObj obj))) (fieldProbes fpath op operand)"
proof (cases "fieldProbes fpath op operand = []")
  case False
  then obtain path where p: "fpath \<noteq> ''__name__''" "ParseFieldPath fpath = Inr path"
    by (auto simp: fieldProbes_def split: if_splits sum.splits)
  with eval obtain v where v: "GetField (canonFields f) path = Some v" "evalOp op v operand"
    by (auto simp: evalFieldFilter_def split: option.splits)
  from canon_GetField [OF v(1)] obtain v' where v': "GetField f path = Some v'" "v = canonValue v'" by blast
  have enc: "encodable v'" by (rule encodable_GetField [OF f(1) v'(1)])
  then obtain j where j: "encode v' = Inr j" using decode_encode by blast
  from False p consider (eq) grp where "op = EQUAL" "equalityProbes path operand ContainmentJSON = Some grp" "fieldProbes fpath op operand = [grp]"
    | (contains) grp where "op = ARRAY_CONTAINS" "equalityProbes path operand ArrayContainmentJSON = Some grp" "fieldProbes fpath op operand = [grp]"
    by (cases op) (auto simp: fieldProbes_def split: option.splits)
  then show ?thesis
  proof cases
    case (eq grp)
    have "contains (JObj obj) (nestPath path j)"
      by (rule nest_contains [OF laws v'(1) f(2) j]) (use laws in \<open>simp add: jsonb_laws_def\<close>)
    moreover have "Compare (canonValue v') operand = 0" using v(2) v'(2) eq(1) by (simp add: evalOp_def)
    ultimately have "list_ex (contains (JObj obj)) grp"
      using equality_group [OF eq(2) _ _ enc j, of "nestPath path j"] s eq(1) by (simp add: ContainmentJSON_def)
    with eq(3) show ?thesis by simp
  next
    case (contains grp)
    from v(2) contains(1) obtain ms m where m: "v = ArrayValue ms" "m \<in> set ms" "Compare m operand = 0"
      by (auto simp: evalOp_def arrayContains_def list_ex_iff split: Value.splits if_splits)
    with v'(2) obtain ms' where ms': "v' = ArrayValue ms'" "ms = map canonValue ms'" using canonValue_Array [of v' ms] by auto
    with m(2) obtain m' where m': "m' \<in> set ms'" "m = canonValue m'" by auto
    from j ms'(1) obtain js where js: "mapResult encode ms' = Inr js" "j = JObj [(''a'', JArr js)]" by (auto simp: bind_result_Inr)
    from mapResult_mem [OF js(1) m'(1)] obtain e where e: "e \<in> set js" "encode m' = Inr e" by blast
    have "contains (JArr js) (JArr [e])" by (rule jsonb_arr [OF laws e(1)]) (use laws in \<open>simp add: jsonb_laws_def\<close>)
    then have "contains j (JObj [(''a'', JArr [e])])" unfolding js(2) by (intro jsonb_obj [OF laws]) auto
    then have "contains (JObj obj) (nestPath path (JObj [(''a'', JArr [e])]))" by (rule nest_contains [OF laws v'(1) f(2) j])
    moreover have "encodable m'" using enc ms'(1) m'(1) by simp
    moreover have "Compare (canonValue m') operand = 0" using m(3) m'(2) by simp
    ultimately have "list_ex (contains (JObj obj)) grp"
      using equality_group [OF contains(2) _ _ _ e(2), of "nestPath path (JObj [(''a'', JArr [e])])"] s contains(1)
      by (simp add: ArrayContainmentJSON_def)
    with contains(3) show ?thesis by simp
  qed
qed simp

text \<open>The operands that are probed are scalars.\<close>

fun scalar_probes :: "Filter \<Rightarrow> bool" where
  "scalar_probes (CompositeFilter op fs) \<longleftrightarrow> op \<noteq> CompositeAnd \<or> (\<forall>f \<in> set fs. scalar_probes f)"
| "scalar_probes (FieldFilter fpath op operand) \<longleftrightarrow> (op = EQUAL \<or> op = ARRAY_CONTAINS \<longrightarrow> scalar operand)"
| "scalar_probes _ \<longleftrightarrow> True"

lemma filter_probes:
  assumes laws: "jsonb_laws contains" and f: "encodable (MapValue f)" "encodeMapPayload f = Inr obj"
  shows "containmentProbes flt = Some probes \<Longrightarrow> evalFilter flt name (canonFields f) \<Longrightarrow> scalar_probes flt \<Longrightarrow>
      list_all (list_ex (contains (JObj obj))) probes"
    and "probesAll flts = Some probes' \<Longrightarrow> \<forall>g \<in> set flts. evalFilter g name (canonFields f) \<and> scalar_probes g \<Longrightarrow>
      list_all (list_ex (contains (JObj obj))) probes'"
proof (induction flt and flts arbitrary: probes and probes' rule: containmentProbes_probesAll.induct)
  case (1 op fs)
  then show ?case by (auto simp: list_all_iff split: if_splits)
next
  case (2 fpath op operand)
  then show ?case using field_probes [OF laws f, of fpath op operand name] by auto
next
  case (6 g fs)
  then show ?case by (auto split: option.splits)
qed auto

lemma narrowing_scalar:
  assumes laws: "jsonb_laws contains" and wf: "wf_db P db"
    and s: "\<forall>f. Where q = Some f \<longrightarrow> scalar_probes f"
  shows "narrowing_sound contains q db"
  unfolding narrowing_sound_def
proof (intro ballI allI impI)
  fix r d assume r: "r \<in> set (documents db)" and d: "scanDoc r = Inr d" "selects q d"
  from wf r obtain f where f: "encodable (MapValue f)" "MarshalFields f = Inr (r_data r)"
    by (auto simp: wf_db_def row_ok_def encoded_row_def)
  with Unmarshal_Marshal [OF f(1)] scan_facts [OF d(1)] have flds: "d_Fields d = canonFields f" by auto
  from f(2) obtain obj where obj: "encodeMapPayload f = Inr obj" "r_data r = JObj obj" by (auto simp: MarshalFields_def bind_result_Inr)
  show "narrowed contains q r"
  proof (cases "Where q")
    case (Some g)
    with d(2) flds have "evalFilter g (d_Name d) (canonFields f)" by (simp add: selects_def Matches_def split: if_splits)
    with filter_probes(1) [OF laws f(1) obj(1), of g _ "d_Name d"] s Some show ?thesis
      by (simp add: narrowed_def obj(2) split: option.split)
  qed (simp add: narrowed_def)
qed

end
