(* ===== verification/QueryAnswer.thy ===== *)
theory QueryAnswer
  imports IndexAnswer NameOrder Narrowing
begin

text \<open>
  What \<^verbatim>\<open>RunQuery\<close> and \<^verbatim>\<open>RunCount\<close> of \<^verbatim>\<open>store/query.go\<close> return: whichever of the three ways a query runs,
  the answer is the reference answer; and the inputs on which a way differs from it.
\<close>

section \<open>All three ways\<close>

definition planned :: "indexRegistry \<Rightarrow> Query \<Rightarrow> Plan option" where
  "planned reg q =
     (if forCollection reg (CollectionID q) = [] then None
      else For q (forCollection reg (CollectionID q)) (\<lambda>i. i \<in> set (reg_ready reg)))"

text \<open>
  The queries all three ways agree on: an offset that is not negative; scalar operands where narrowing
  probes; from an index, a plan within \<open>plan_ok\<close>, one parent for the collection id, and a limit other
  than zero for several ranges; in name order, names whose byte order is their segment order. What is
  left out is answered wrongly, as theorems below and in \<open>PlanLimits\<close> and \<open>QueryLimits\<close> show.
\<close>

definition servable :: "indexRegistry \<Rightarrow> Query \<Rightarrow> DB \<Rightarrow> bool" where
  "servable reg q db \<longleftrightarrow> 0 \<le> sint (Offset q) \<and>
     (case Where q of None \<Rightarrow> True | Some f \<Rightarrow> scalar_probes f) \<and>
     (case planned reg q of
        Some plan \<Rightarrow> index_serves q plan db \<and> (Limit q \<noteq> 0 \<or> length (Ranges plan) \<le> 1)
      | None \<Rightarrow> snd (NameOnlyOrder q) \<longrightarrow> name_ordered q (fst (NameOnlyOrder q)) db)"

lemma planned_For: "planned reg q = Some plan \<Longrightarrow> For q (forCollection reg (CollectionID q)) (\<lambda>i. i \<in> set (reg_ready reg)) = Some plan"
  by (simp add: planned_def split: if_splits)

lemma RunQuery_reference:
  assumes wf: "wf_db valid_value db" and laws: "jsonb_laws contains" and q: "servable reg q db"
  shows "RunQuery contains reg q db = (reference q db, None)"
proof -
  obtain dir name where no: "NameOnlyOrder q = (dir, name)" by (cases "NameOnlyOrder q")
  have off: "0 \<le> sint (Offset q)" and scalars: "\<forall>f. Where q = Some f \<longrightarrow> scalar_probes f"
    using q by (auto simp: servable_def split: option.splits)
  note sound = narrowing_scalar [OF laws wf scalars]
  have run: "RunQuery contains reg q db =
      (case planned reg q of Some plan \<Rightarrow> runIndexed q plan db
       | None \<Rightarrow> if name then runNameOrdered contains q dir db else runGeneral contains q db)"
    by (simp add: RunQuery_def planned_def no)
  show ?thesis
  proof (cases "planned reg q")
    case (Some plan)
    with q have "index_serves q plan db" "Limit q \<noteq> 0 \<or> length (Ranges plan) \<le> 1" by (simp_all add: servable_def)
    from runIndexed_reference [OF planned_For [OF Some] this(1) off this(2)] Some run show ?thesis by simp
  next
    case None
    show ?thesis
    proof (cases name)
      case True
      with q None no have "name_ordered q dir db" by (simp add: servable_def)
      from runNameOrdered_reference [OF wf sound this] None run True show ?thesis by simp
    next
      case False
      with runGeneral_reference [OF wf sound off] None run show ?thesis by simp
    qed
  qed
qed

section \<open>Counting\<close>

text \<open>The planner does not look at the limit.\<close>

lemma limit_irrelevant [simp]:
  "collectWhere (q\<lparr>Limit := l\<rparr>) = collectWhere q" "splitFilters (q\<lparr>Limit := l\<rparr>) = splitFilters q"
  "containsPath (q\<lparr>Limit := l\<rparr>) = containsPath q" "bounds d n p r (q\<lparr>Limit := l\<rparr>) = bounds d n p r q"
  "rangeFor d n p r (q\<lparr>Limit := l\<rparr>) = rangeFor d n p r q"
proof -
  show 1: "collectWhere (q\<lparr>Limit := l\<rparr>) = collectWhere q" by (simp add: collectWhere_def)
  then show 2: "splitFilters (q\<lparr>Limit := l\<rparr>) = splitFilters q" by (simp add: splitFilters_def cong: option.case_cong)
  show "containsPath (q\<lparr>Limit := l\<rparr>) = containsPath q" by (simp add: containsPath_def 1)
  show 3: "bounds d n p r (q\<lparr>Limit := l\<rparr>) = bounds d n p r q"
  proof -
    have "startBounds d n p r (q\<lparr>Limit := l\<rparr>) = startBounds d n p r q" "endBounds d n p r (q\<lparr>Limit := l\<rparr>) = endBounds d n p r q"
      by (simp_all add: fun_eq_iff startBounds_def endBounds_def cong: option.case_cong)
    then show ?thesis unfolding bounds_def 2 by (simp only:)
  qed
  show "rangeFor d n p r (q\<lparr>Limit := l\<rparr>) = rangeFor d n p r q" by (simp add: rangeFor_def 3)
qed

lemma planned_limit [simp]: "planned reg (q\<lparr>Limit := l\<rparr>) = planned reg q"
proof -
  have "inRanges d eq c p (q\<lparr>Limit := l\<rparr>) seen rs rv vs = inRanges d eq c p q seen rs rv vs" for d eq c p seen rs rv vs
    by (induction vs arbitrary: seen rs rv) (simp_all add: Let_def split: option.split)
  then have "tryDefs (q\<lparr>Limit := l\<rparr>) eq inl rdy ds = tryDefs q eq inl rdy ds" for eq inl rdy ds
    by (induction ds) (simp_all add: planRanges_def split: option.split)
  then show ?thesis by (simp add: planned_def For_def Eligible_def cong: option.case_cong)
qed

lemma servable_limit:
  assumes "servable reg q db" "l \<noteq> 0"
  shows "servable reg (q\<lparr>Limit := l\<rparr>) db"
proof -
  have "index_serves (q\<lparr>Limit := l\<rparr>) plan db = index_serves q plan db" for plan
    by (simp add: index_serves_def plan_ok_def baseConditions_def [abs_def] cursor_ok_def valid_where_def cong: option.case_cong)
  moreover have "NameOnlyOrder (q\<lparr>Limit := l\<rparr>) = NameOnlyOrder q" by (simp add: NameOnlyOrder_def)
  moreover have "name_ordered (q\<lparr>Limit := l\<rparr>) dir db = name_ordered q dir db" for dir
    by (simp add: name_ordered_def NameOnlyOrder_def name_scope_def baseConditions_def [abs_def])
  ultimately show ?thesis using assms by (simp add: servable_def split: option.splits)
qed

lemma docLess_limit [simp]: "docLess (q\<lparr>Limit := l\<rparr>) = docLess q"
  by (simp add: docLess_def [abs_def] CompareKeys_def OrderKey_def)

lemma selects_limit [simp]: "selects (q\<lparr>Limit := l\<rparr>) = selects q"
proof -
  have "compareToCursor (q\<lparr>Limit := l\<rparr>) = compareToCursor q" by (simp add: fun_eq_iff compareToCursor_def)
  moreover have "OrderKey (q\<lparr>Limit := l\<rparr>) = OrderKey q" by (simp add: fun_eq_iff OrderKey_def)
  ultimately have "InCursorRange (q\<lparr>Limit := l\<rparr>) = InCursorRange q" by (simp add: fun_eq_iff InCursorRange_def cong: option.case_cong)
  with \<open>OrderKey (q\<lparr>Limit := l\<rparr>) = OrderKey q\<close> show ?thesis by (simp add: fun_eq_iff selects_def Matches_def cong: option.case_cong)
qed

lemma selectedDocs_limit [simp]: "selectedDocs (q\<lparr>Limit := l\<rparr>) db = selectedDocs q db"
  by (simp add: selectedDocs_def baseConditions_def [abs_def])

lemma length_page:
  "int (length (page q xs)) =
     (let n = int (length xs) - min (int (length xs)) (max 0 (sint (Offset q)))
      in if sint (Limit q) \<ge> 0 then min n (sint (Limit q)) else n)"
proof (cases "sint (Offset q) \<ge> 0")
  case True
  then have "int (length xs - nat (sint (Offset q))) = int (length xs) - min (int (length xs)) (max 0 (sint (Offset q)))" by linarith
  then show ?thesis by (simp add: page_def Let_def of_nat_min)
qed (simp add: page_def Let_def of_nat_min)

text \<open>The number of documents of an answer, cut at \<open>upTo\<close> when that is positive.\<close>

definition countUpTo :: "int64 \<Rightarrow> 'a list \<Rightarrow> int" where
  "countUpTo upTo xs = (if sint upTo > 0 then min (int (length xs)) (sint upTo) else int (length xs))"

lemma ucast_upTo:
  fixes upTo :: int64
  assumes "0 < sint upTo" "sint upTo < 2 ^ 31"
  shows "sint (ucast upTo :: int32) = sint upTo"
proof -
  have "(ucast upTo :: int32) = word_of_int (sint upTo)" by (rule bit_word_eqI) (auto simp: bit_simps)
  then show ?thesis using assms by (simp only: sint_sbintrunc') (simp add: signed_take_bit_int_eq_self)
qed

text \<open>
  The counts that are exact: a query without filter, cursor and offset is counted by its rows, so
  every document of its collections must have the fields of the order; any other is run with
  \<open>upTo\<close> as a limit of 32 bits, so that must fit.
\<close>

definition countsRows :: "Query \<Rightarrow> bool" where
  "countsRows q \<longleftrightarrow> Where q = None \<and> Start q = None \<and> End q = None \<and> Offset q = 0"

definition order_present :: "Query \<Rightarrow> DB \<Rightarrow> bool" where
  "order_present q db \<longleftrightarrow> (\<forall>r \<in> set (documents db). \<forall>d. baseConditions q r \<longrightarrow> scanDoc r = Inr d \<longrightarrow>
     (\<forall>o1 \<in> set (Order q). IsName o1 \<or> GetField (d_Fields d) (Path o1) \<noteq> None))"

definition countable :: "Query \<Rightarrow> int64 \<Rightarrow> DB \<Rightarrow> bool" where
  "countable q upTo db \<longleftrightarrow> (if countsRows q then order_present q db else sint upTo < 2 ^ 31)"

lemma RunCount_reference:
  assumes wf: "wf_db valid_value db" and laws: "jsonb_laws contains" and q: "servable reg q db"
    and countable: "countable q upTo db"
  shows "RunCount contains reg q upTo db = (countUpTo upTo (reference q db), None)"
proof (cases "Where q = None \<and> Start q = None \<and> End q = None \<and> Offset q = 0")
  case True
  with countable have present: "order_present q db" by (simp add: countable_def countsRows_def)
  let ?rs = "filter (baseConditions q) (documents db)"
  have ok: "\<forall>r \<in> set ?rs. row_ok valid_value r" using wf by (simp add: wf_db_def)
  have "selects q d" if "d \<in> set (successes (map scanDoc ?rs))" for d
  proof -
    from that obtain r where "r \<in> set (documents db)" "baseConditions q r" "scanDoc r = Inr d" by (auto simp: successes_set)
    with present have "\<forall>o1 \<in> set (Order q). IsName o1 \<or> GetField (d_Fields d) (Path o1) \<noteq> None" unfolding order_present_def by blast
    with True show ?thesis by (simp add: selects_def Matches_def InCursorRange_def list_all_iff)
  qed
  then have "selectedDocs q db = successes (map scanDoc ?rs)" by (simp add: selectedDocs_def)
  then have "length (selectedDocs q db) = length ?rs"
    using arg_cong [OF successes_names [OF ok], of length] by simp
  then show ?thesis using True
    by (simp add: RunCount_def reference_def length_page countUpTo_def Let_def min_def)
next
  case False
  with countable have upTo: "sint upTo < 2 ^ 31" by (auto simp: countable_def countsRows_def)
  define bounded where "bounded = (if sint upTo > 0 \<and> (sint (Limit q) < 0 \<or> sint upTo < sint (Limit q)) then q\<lparr>Limit := ucast upTo\<rparr> else q)"
  have "servable reg bounded db"
  proof (cases "sint upTo > 0")
    case True
    from ucast_upTo [OF True upTo] True have "(ucast upTo :: int32) \<noteq> 0" by auto
    with servable_limit [OF q] q show ?thesis by (simp add: bounded_def)
  qed (use q in \<open>simp add: bounded_def\<close>)
  from RunQuery_reference [OF wf laws this] False
  have "RunCount contains reg q upTo db = (int (length (reference bounded db)), None)"
    unfolding RunCount_def Let_def bounded_def [symmetric] by (simp only: if_False prod.case)
  moreover have "int (length (reference bounded db)) = countUpTo upTo (reference q db)"
  proof (cases "sint upTo > 0 \<and> (sint (Limit q) < 0 \<or> sint upTo < sint (Limit q))")
    case True
    then show ?thesis
      using ucast_upTo [of upTo] upTo
      by (simp add: bounded_def reference_def length_page countUpTo_def Let_def min_def) linarith
  next
    case no: False
    then show ?thesis by (auto simp: bounded_def countUpTo_def reference_def length_page Let_def min_def)
  qed
  ultimately show ?thesis by simp
qed

section \<open>A stored document\<close>

definition sample_row :: DocRow where
  "sample_row = \<lparr>r_name = sample_name, r_parent_path = ''projects/p/databases/d/documents'', r_collection_id = ''c'',
     r_doc_id = ''x'', r_data = JObj [(''a'', JObj [(''z'', JNull)])], r_create_time = 1000, r_update_time = 1000\<rparr>"

definition sample_doc :: Doc where
  "sample_doc = \<lparr>d_Name = sample_name, d_Fields = [(''a'', NullValue)], d_CreateTime = 1000, d_UpdateTime = 1000\<rparr>"

definition stored_db :: DB where
  "stored_db = empty_db\<lparr>documents := [sample_row], index_entries := entriesOf a_index sample_name [(''a'', NullValue)]\<rparr>"

definition ready_registry :: indexRegistry where
  "ready_registry = \<lparr>byColl = [(''c'', [a_index])], reg_ready = [ID a_index]\<rparr>"

definition by_a :: "string \<Rightarrow> Query" where
  "by_a parent = (a_query None)\<lparr>Parent := parent\<rparr>"

lemma sample_data: "encodable (MapValue [(''a'', NullValue)])" "MarshalFields [(''a'', NullValue)] = Inr (r_data sample_row)"
  "UnmarshalFields (r_data sample_row) = Inr [(''a'', NullValue)]"
proof -
  show e: "encodable (MapValue [(''a'', NullValue)])" by (simp add: hasNUL_def)
  show m: "MarshalFields [(''a'', NullValue)] = Inr (r_data sample_row)"
    by (simp add: MarshalFields_def encodeMapPayload.simps hasNUL_def sample_row_def)
  show "UnmarshalFields (r_data sample_row) = Inr [(''a'', NullValue)]"
    using Unmarshal_Marshal [OF e] m by (simp add: canonFields_def)
qed

lemma sample_scan: "scanDoc sample_row = Inr sample_doc"
  using sample_data(3) by (simp add: scanDoc_def sample_doc_def) (simp add: sample_row_def)

lemma stored_wf: "wf_db valid_value stored_db"
proof -
  have "encoded_row sample_row" unfolding encoded_row_def using sample_data(1,2) by (intro exI [of _ "[(''a'', NullValue)]"] conjI)
  then show ?thesis
    using sample_data(3) sample_path by (simp add: wf_db_def stored_db_def row_ok_def) (simp add: sample_row_def)
qed

lemma stored_rowOf: "rowOf stored_db n = (if n = sample_name then Some sample_row else None)"
  by (simp add: rowOf_def stored_db_def sample_row_def)

lemma stored_complete: "index_complete a_index stored_db"
  unfolding index_complete_def in_docEntries stored_rowOf
  using sample_data(3)
  by (auto simp: stored_db_def in_entriesOf entriesOf_def a_index_def sample_row_def split: if_splits)

lemma by_a_planned:
  assumes "forCollection reg ''c'' = [a_index]" "ID a_index \<in> set (reg_ready reg)"
  shows "planned reg (by_a parent) =
    Some \<lparr>pDef = a_index, Ranges = [rangeFor a_index 0 [] False (by_a parent)], Reversed = False, Dedup = False\<rparr>"
proof -
  have f: "splitFilters (by_a parent) = splitFilters (a_query None)" "containsPath (by_a parent) = containsPath (a_query None)"
      "Order (by_a parent) = Order (a_query None)"
    by (simp_all add: by_a_def splitFilters_def containsPath_def collectWhere_def a_query_def cong: option.case_cong)
  have c: "forCollection reg (CollectionID (by_a parent)) = [a_index]"
      "dCollectionID a_index = CollectionID (by_a parent)" "dGroup a_index = AllDescendants (by_a parent)"
    using assms(1) by (simp_all add: by_a_def a_query_def a_index_def)
  show ?thesis
    using c assms(2) unfolding planned_def For_def Eligible_def f a_split by (simp add: planRanges_def f a_split a_match)
qed

lemma by_a_For: "planned ready_registry (by_a parent) =
    Some \<lparr>pDef = a_index, Ranges = [rangeFor a_index 0 [] False (by_a parent)], Reversed = False, Dedup = False\<rparr>"
  by (rule by_a_planned) (simp_all add: forCollection_def ready_registry_def)

lemma by_a_ok: "plan_ok (by_a parent) a_index"
  using a_plan_ok [of None]
  by (simp add: plan_ok_def by_a_def cursor_ok_def valid_where_def splitFilters_def containsPath_def collectWhere_def a_query_def cong: option.case_cong)

lemma sample_Keys: obtains k where "Keys a_index sample_name [(''a'', NullValue)] = [k]"
  by (simp add: Keys_def a_index_def keysStep_def parse_a)

lemma stored_docOf: "docOf stored_db n = (if n = sample_name then Some sample_doc else None)"
  by (simp add: docOf_def stored_rowOf sample_scan)

lemma sample_answer:
  assumes "documents db = [sample_row]"
  shows "reference (by_a ''projects/p/databases/d/documents'') db = [sample_doc]"
proof -
  let ?q = "by_a ''projects/p/databases/d/documents''"
  have "baseConditions ?q sample_row" by (simp add: baseConditions_def by_a_def a_query_def sample_row_def)
  moreover have "selects ?q sample_doc"
    by (simp add: selects_def Matches_def InCursorRange_def by_a_def a_query_def sample_doc_def)
  moreover have "Limit ?q = - 1" "Offset ?q = 0" by (simp_all add: by_a_def a_query_def)
  ultimately show ?thesis by (simp add: reference_def selectedDocs_def assms sample_scan page_def)
qed

lemma by_a_answer:
  shows "RunQuery contains ready_registry (by_a parent) stored_db = ([sample_doc], None)"
proof -
  let ?q = "by_a parent" and ?r = "rangeFor a_index 0 [] False (by_a parent)"
  let ?plan = "\<lparr>pDef = a_index, Ranges = [?r], Reversed = False, Dedup = False\<rparr>"
  have F: "For ?q (forCollection ready_registry (CollectionID ?q)) (\<lambda>i. i \<in> set (reg_ready ready_registry)) = Some ?plan"
    by (rule planned_For [OF by_a_For])
  obtain k where k: "Keys a_index sample_name [(''a'', NullValue)] = [k]" by (rule sample_Keys)
  have m: "Matches ?q sample_name [(''a'', NullValue)]" "InCursorRange ?q (OrderKey ?q sample_name [(''a'', NullValue)])"
    by (simp_all add: by_a_def a_query_def Matches_def InCursorRange_def)
  have v: "valid_fields [(''a'', NullValue)]" by (simp add: valid_fields_def)
  from plan_selects [OF F _ v, of sample_name] by_a_ok m k have rng: "in_range (Lo ?r, Hi ?r) k" by simp
  have lo: "Lo ?r \<noteq> None" using range_Lo [OF F, of ?r] by simp
  have entries: "index_entries stored_db = [\<lparr>e_index_id = ID a_index, e_key = k, e_doc_name = sample_name\<rparr>]"
    by (simp add: stored_db_def entriesOf_def k)
  have "scanRange ?plan ?r (- 1) 0 stored_db = [\<lparr>ir_name = sample_name, ir_suffix = drop (SuffixFrom ?r) k\<rparr>]"
    using rng lo by (auto simp: scanRange_def entries in_range_def split: option.splits)
  moreover have "Limit ?q = - 1" "Offset ?q = 0" by (simp_all add: by_a_def a_query_def)
  ultimately have names: "scanIndex ?q ?plan stored_db = [sample_name]" by (simp add: scanIndex_def)
  obtain docs where docs: "scanDocs (filter (\<lambda>r. r_name r \<in> {sample_name}) (documents stored_db)) = Inr docs"
    "\<And>n. map_of docs n = (if n \<in> {sample_name} then docOf stored_db n else None)" by (rule scanDocs_rows [OF stored_wf]) blast
  have "deliverNames ?q docs [sample_name] = ([sample_doc], None)"
    using docs(2) [of sample_name] m by (simp add: stored_docOf) (simp add: sample_doc_def)
  with docs(1) names have "runIndexed ?q ?plan stored_db = ([sample_doc], None)"
    by (simp add: runIndexed_def GetDocuments_def)
  moreover have "forCollection ready_registry (CollectionID ?q) \<noteq> []"
    by (simp add: by_a_def forCollection_def ready_registry_def a_query_def)
  ultimately show ?thesis using F by (simp add: RunQuery_def split: prod.split)
qed

text \<open>
  C30: an index of a collection holds the documents of every collection with that id, and a query
  it serves does not look at the parent: a document of another parent is delivered.
\<close>
theorem index_ignores_parent:
  "wf_db valid_value stored_db \<and> index_complete a_index stored_db \<and>
   RunQuery contains ready_registry (by_a ''projects/p/databases/d/documents/o/1'') stored_db = ([sample_doc], None) \<and>
   d_Name sample_doc = ''projects/p/databases/d/documents/c/x'' \<and>
   reference (by_a ''projects/p/databases/d/documents/o/1'') stored_db = []"
proof -
  have "\<not> baseConditions (by_a ''projects/p/databases/d/documents/o/1'') sample_row"
    by (simp add: baseConditions_def by_a_def a_query_def sample_row_def)
  then have "reference (by_a ''projects/p/databases/d/documents/o/1'') stored_db = []"
    by (simp add: reference_def selectedDocs_def stored_db_def page_def)
  then show ?thesis using stored_wf stored_complete by_a_answer by (simp add: sample_doc_def sample_name_def)
qed

text \<open>
  Merging ranges checks the limit after a row is taken: with a limit of zero the first row of
  all ranges is returned.
\<close>
theorem merge_limit_zero:
  "\<exists>n. mergeRanges ((row # st) # sts) reversed 0 0 False = [n]"
proof -
  have "pickStream reversed 0 None ((row # st) # sts) \<noteq> None" unfolding pickStream_None by auto
  then obtain i x where "pickStream reversed 0 None ((row # st) # sts) = Some (i, x)" by auto
  then show ?thesis by (simp add: mergeRanges_def mergeLoop.simps)
qed

text \<open>
  A negative offset is not rejected; loading and sorting then slices out of range and the
  server panics, whatever the query and the stored documents are.
\<close>
theorem negative_offset_panics:
  assumes "wf_db valid_value db" "sint (Offset q) < 0"
  shows "runGeneral contains q db = ([], Some Panic)"
proof -
  have "\<forall>r \<in> set (candidates contains q db). row_ok valid_value r" using assms(1) by (simp add: candidates_def wf_db_def)
  from generalEntries_eq [OF this, of q] assms(2) show ?thesis by (simp add: runGeneral_def Let_def)
qed

text \<open>
  A count with \<open>up_to\<close> of \<open>2 ^ 32\<close> and a filter is cut to a limit of zero.
\<close>
theorem count_upTo_wraps:
  assumes "wf_db valid_value db" "jsonb_laws contains" "servable reg (q\<lparr>Limit := 0\<rparr>) db" "Where q = Some f" "sint (Limit q) < 0"
  shows "RunCount contains reg q (2 ^ 32) db = (0, None)"
proof -
  define upTo :: int64 where "upTo = 2 ^ 32"
  have u: "(ucast upTo :: int32) = 0" "sint upTo > 0" by (simp_all add: upTo_def)
  have "RunCount contains reg q upTo db = (case RunQuery contains reg (q\<lparr>Limit := 0\<rparr>) db of (docs, e) \<Rightarrow> (int (length docs), e))"
    using assms(4,5) u by (simp add: RunCount_def)
  also have "\<dots> = (0, None)"
    using RunQuery_reference [OF assms(1,2,3)] by (simp add: reference_def page_def)
  finally show ?thesis by (simp only: upTo_def)
qed

text \<open>
  A count without filter counts the rows of the collection, also those without a field of the
  order, which the same query does not return.
\<close>
theorem count_ignores_order:
  "RunCount contains no_indexes ((by_a ''projects/p/databases/d/documents'')\<lparr>Order := [\<lparr>Path = [''b''], IsName = False, Dir = Asc\<rparr>, \<lparr>Path = [], IsName = True, Dir = Asc\<rparr>]\<rparr>) 0 stored_db = (1, None) \<and>
   RunQuery contains no_indexes ((by_a ''projects/p/databases/d/documents'')\<lparr>Order := [\<lparr>Path = [''b''], IsName = False, Dir = Asc\<rparr>, \<lparr>Path = [], IsName = True, Dir = Asc\<rparr>]\<rparr>) stored_db = ([], None)"
  by (simp add: RunCount_def RunQuery_def by_a_def a_query_def no_indexes_def forCollection_def stored_db_def NameOnlyOrder_def
     runGeneral_def candidates_def narrowed_def baseConditions_def sample_scan Matches_def)
    (simp add: sample_row_def sample_doc_def)

section \<open>Properties of queries\<close>

text \<open>
  C12: narrowing may over-include and never excludes. For every containment operator with the three
  laws, every database of encoded rows and every query whose probed operands are scalars, a row
  whose document the query selects satisfies all probe groups: equal numbers are found across
  integers and doubles and across both zeros.
\<close>
theorem narrowing_never_excludes:
  assumes "jsonb_laws contains" "wf_db P db" "Where q = Some f" "scalar_probes f"
    and "r \<in> set (documents db)" "scanDoc r = Inr d" "selects q d"
  shows "r \<in> set (candidates contains q db) \<longleftrightarrow> baseConditions q r"
proof -
  have "narrowing_sound contains q db" by (rule narrowing_scalar [OF assms(1,2)]) (use assms(3,4) in simp)
  with assms(5-7) show ?thesis by (auto simp: narrowing_sound_def candidates_def)
qed

text \<open>
  C13: on the queries \<open>servable\<close> names (those all three ways of running answer with the reference
  answer, see there), a count is the number of documents the query returns, cut at \<open>up_to\<close> when
  that is positive, whether it is answered by counting rows or by running the query with the
  smaller of both limits. A query without filter, cursor and offset is counted by rows, and then
  every document of its collections must have the fields of the order; otherwise \<open>up_to\<close> must be
  below \<open>2 ^ 31\<close>, where the code makes it a limit of 32 bits. The counts outside both conditions are wrong,
  as the two theorems on counts above show.
\<close>
theorem count_answers:
  assumes "wf_db valid_value db" "jsonb_laws contains" "servable reg q db" "countable q upTo db"
  shows "RunCount contains reg q upTo db = (countUpTo upTo (fst (RunQuery contains reg q db)), None)"
  using RunCount_reference [OF assms] RunQuery_reference [OF assms(1-3)] by simp

lemma by_a_servable: "servable ready_registry (by_a ''projects/p/databases/d/documents'') stored_db"
proof -
  let ?q = "by_a ''projects/p/databases/d/documents''"
  have "index_serves ?q \<lparr>pDef = a_index, Ranges = [rangeFor a_index 0 [] False ?q], Reversed = False, Dedup = False\<rparr> stored_db"
    unfolding index_serves_def
  proof (intro conjI)
    show "distinct (index_entries stored_db)" by (rule sample_Keys) (simp add: stored_db_def entriesOf_def)
    show "\<forall>r \<in> set (documents stored_db). r_collection_id r = CollectionID ?q \<longrightarrow> baseConditions ?q r"
      by (simp add: stored_db_def) (simp add: baseConditions_def by_a_def a_query_def sample_row_def)
  qed (simp_all add: by_a_ok stored_complete stored_wf)
  then show ?thesis
    unfolding servable_def by_a_For by (simp add: by_a_def a_query_def)
qed

theorem count_answers_witness:
  "RunCount jsonb_contains ready_registry (by_a ''projects/p/databases/d/documents'') 5 stored_db = (1, None)"
proof -
  have "countable (by_a ''projects/p/databases/d/documents'') 5 stored_db"
    unfolding countable_def order_present_def
    by (simp add: stored_db_def sample_scan) (simp add: sample_doc_def by_a_def a_query_def)
  from count_answers [OF stored_wf jsonb_contains_laws by_a_servable this] by_a_answer
  show ?thesis by (simp add: countUpTo_def)
qed

theorem negative_offset_panics_witness:
  "runGeneral jsonb_contains ((by_a ''p'')\<lparr>Offset := - 1\<rparr>) stored_db = ([], Some Panic)"
  by (rule negative_offset_panics [OF stored_wf]) simp

definition a_is_null :: Query where
  "a_is_null = (by_a ''projects/p/databases/d/documents'')\<lparr>Where := Some (FieldFilter ''a'' EQUAL NullValue)\<rparr>"

theorem narrowing_never_excludes_witness: "sample_row \<in> set (candidates jsonb_contains a_is_null stored_db)"
proof -
  have f: "Where a_is_null = Some (FieldFilter ''a'' EQUAL NullValue)" "scalar_probes (FieldFilter ''a'' EQUAL NullValue)"
    by (simp_all add: a_is_null_def)
  have "selects a_is_null sample_doc"
    by (simp add: selects_def Matches_def InCursorRange_def a_is_null_def by_a_def a_query_def sample_doc_def
        evalFieldFilter_def parse_a evalOp_def)
  moreover have "sample_row \<in> set (documents stored_db)" by (simp add: stored_db_def)
  moreover have "baseConditions a_is_null sample_row"
    by (simp add: baseConditions_def a_is_null_def by_a_def a_query_def sample_row_def)
  ultimately show ?thesis
    using narrowing_never_excludes [OF jsonb_contains_laws stored_wf f _ sample_scan] by blast
qed

end
