(* ===== verification/System.thy ===== *)
theory System
  imports QueryAnswer
begin

text \<open>
  The store over time: the states that commits, backfills and dropped collections lead to, and
  the invariant that makes every ready index answer queries.
\<close>

section \<open>States and steps\<close>

text \<open>The tables, the index registry and the latest time of the server's clock.\<close>

type_synonym system = "DB \<times> indexRegistry \<times> time"

text \<open>
  A failed commit, backfill or drop leaves the tables as they were and is no step. Values are
  exact (timestamps in whole microseconds), since index entries are computed before they are
  stored; a backfill runs without a commit between its scan and its load. A commit's clock reading
  is taken at the step and does not go back. The code reads the clock before it waits for its locks, so
  two commits can land in the other order than their readings; the last theorem of this theory
  shows what is stored then.
\<close>

inductive reachable :: "system \<Rightarrow> bool" where
  start: "SetIndexes defs empty_db = Inr (db, reg) \<Longrightarrow> inj_on ID (set defs) \<Longrightarrow> reachable (db, reg, t)"
| commit: "reachable (db, reg, t) \<Longrightarrow> t \<le> now \<Longrightarrow> \<forall>w \<in> set ws. write_ok exact_shape w \<Longrightarrow>
    applyCommit reg xid now ws extraLocks verify db = Inr (db', results, ct) \<Longrightarrow> reachable (db', reg, now)"
| backfill: "reachable (db, reg, t) \<Longrightarrow> d \<in> set (forCollection reg (dCollectionID d)) \<Longrightarrow>
    BackfillIndex d (db, reg) = Inr ((db', reg'), n) \<Longrightarrow> reachable (db', reg', t)"
| drop: "reachable (db, reg, t) \<Longrightarrow> DropCollection coll batch db = Inr (db', n) \<Longrightarrow> reachable (db', reg, t)"

definition ready_complete :: "indexRegistry \<Rightarrow> DB \<Rightarrow> bool" where
  "ready_complete reg db \<longleftrightarrow>
     (\<forall>c. \<forall>d \<in> set (forCollection reg c). ID d \<in> set (reg_ready reg) \<longrightarrow> index_complete d db)"

definition store_ok :: "system \<Rightarrow> bool" where
  "store_ok = (\<lambda>(db, reg, t). wf_db exact_shape db \<and> clock_ok (Truncate_us t) db \<and> distinct (index_entries db) \<and>
     registry_ok reg \<and> ready_complete reg db)"

section \<open>Every step keeps the invariant\<close>

lemma forCollection_filed: "set (forCollection reg c) = filed (byColl reg) c"
  by (simp add: forCollection_def filed_def split: option.split)

lemma start_ok:
  assumes "SetIndexes defs empty_db = Inr (db, reg)" "inj_on ID (set defs)"
  shows "store_ok (db, reg, t)"
proof -
  have fold: "documents (fold registerDef defs s) = documents s \<and> index_entries (fold registerDef defs s) = index_entries s \<and>
      (filter i_ready (index_defs s) = [] \<longrightarrow> filter i_ready (index_defs (fold registerDef defs s)) = [])" for s
    by (induction defs arbitrary: s) (simp_all add: registerDef_def)
  have db: "db = fold registerDef defs empty_db" and reg: "byColl reg = fold addDef defs []" "reg_ready reg = ReadyIndexes db"
    using assms(1) by (auto simp: SetIndexes_def Let_def split: if_splits)
  have docs: "documents db = []" "index_entries db = []" using fold [of empty_db] db by (simp_all add: empty_db_def)
  have "reg_ready reg = []"
    using fold [of empty_db] db reg(2) by (simp add: ReadyIndexes_def empty_db_def)
  moreover have "set (forCollection reg c) = {d \<in> set defs. dCollectionID d = c}" for c
    by (simp add: forCollection_filed reg(1) filed_fold)
  then have "registry_ok reg" using assms(2) by (auto simp: registry_ok_def intro: inj_on_subset)
  ultimately show ?thesis
    using docs by (simp add: store_ok_def wf_db_def clock_ok_def rowOf_def ready_complete_def)
qed

lemma distinct_insertEntry: "distinct (index_entries db) \<Longrightarrow> distinct (index_entries (fold insertEntry es db))"
  by (induction es arbitrary: db) (auto simp: insertEntry_def)

lemma distinct_refresh:
  assumes "distinct (index_entries db)"
  shows "distinct (index_entries (refreshIndexEntries reg n c f del db))"
proof -
  have "distinct (index_entries (fold (\<lambda>d. fold insertEntry (g d)) ds db))" if "distinct (index_entries db)" for g and ds :: "Def list" and db
    using that by (induction ds arbitrary: db) (simp_all add: distinct_insertEntry)
  with assms show ?thesis by (simp add: refreshIndexEntries_def Let_def)
qed

lemma distinct_persistAll:
  "persistAll reg xid now paths states names db = Inr db' \<Longrightarrow> distinct (index_entries db) \<Longrightarrow> distinct (index_entries db')"
proof (induction names arbitrary: db)
  case (Cons n ns)
  then obtain db1 where db1: "persistDoc reg xid now paths states n db = Inr db1" "persistAll reg xid now paths states ns db1 = Inr db'"
    by (auto simp: bind_result_Inr)
  have "distinct (index_entries db1)"
    using db1(1) Cons.prems(2)
    by (auto simp: persistDoc_def Let_def intro!: distinct_refresh split: if_splits sum.splits)
  with Cons.IH [OF db1(2)] show ?case .
qed simp

lemma commit_ok:
  assumes "store_ok (db, reg, t)" "t \<le> now" "\<forall>w \<in> set ws. write_ok exact_shape w"
    and commit: "applyCommit reg xid now ws extraLocks verify db = Inr (db', results, ct)"
  shows "store_ok (db', reg, now)"
proof -
  have s: "wf_db exact_shape db" "clock_ok (Truncate_us t) db" "distinct (index_entries db)" "registry_ok reg" "ready_complete reg db"
    using assms(1) by (simp_all add: store_ok_def)
  have "Truncate_us t \<le> Truncate_us now"
    using zdiv_mono1 [OF assms(2), of 1000] by (simp add: Truncate_us_def minus_mod_eq_mult_div)
  with s(2) have clock: "clock_ok (Truncate_us now) db" by (fastforce simp: clock_ok_def intro: order_trans)
  from exact_commit.commit_stored [OF s(1) clock refl assms(3) commit]
  have db': "wf_db exact_shape db'" "clock_ok ct db'" "ct = Truncate_us now" by metis+
  have "index_complete d db'" if d: "d \<in> set (forCollection reg c)" "ID d \<in> set (reg_ready reg)" for c d
  proof -
    have "dCollectionID d = c" using s(4) d(1) by (simp add: registry_ok_def)
    moreover have "index_complete d db" using s(5) d by (simp add: ready_complete_def)
    ultimately show ?thesis using commit_index [OF s(1) clock assms(3) commit s(4), of d] d(1) by simp
  qed
  then have "ready_complete reg db'" by (simp add: ready_complete_def)
  moreover have "distinct (index_entries db')"
    using commit s(3) by (auto simp: applyCommit_def Let_def bind_result_Inr intro: distinct_persistAll split: prod.splits if_splits)
  ultimately show ?thesis using db' s(4) by (simp add: store_ok_def)
qed

lemma backfill_keeps_complete:
  assumes names: "distinct (map r_name (documents db))" and bf: "BackfillIndex d (db, reg) = Inr ((db', reg'), n)"
    and c: "index_complete d' db" and ids: "ID d' \<noteq> ID d"
  shows "index_complete d' db'"
  unfolding index_complete_def
proof (intro allI impI)
  fix e :: IndexEntry assume e: "e_index_id e = ID d'"
  from backfill_outcome [OF names, of d reg] bf have out: "documents db' = documents db"
    "\<forall>e. e_index_id e \<noteq> ID d \<longrightarrow> (e \<in> set (index_entries db') \<longleftrightarrow> e \<in> set (index_entries db))" by simp_all
  have "docEntries d' db' (e_doc_name e) = docEntries d' db (e_doc_name e)" unfolding docEntries_def rowOf_cong [OF out(1)] ..
  with index_completeD [OF c e] out(2) e ids show "e \<in> set (index_entries db') \<longleftrightarrow> e \<in> docEntries d' db' (e_doc_name e)" by simp
qed

lemma backfill_ok:
  assumes "store_ok (db, reg, t)" and d: "d \<in> set (forCollection reg (dCollectionID d))"
    and bf: "BackfillIndex d (db, reg) = Inr ((db', reg'), n)"
  shows "store_ok (db', reg', t)"
proof -
  have s: "wf_db exact_shape db" "clock_ok (Truncate_us t) db" "distinct (index_entries db)" "registry_ok reg" "ready_complete reg db"
    using assms(1) by (simp_all add: store_ok_def)
  from s(1) have names: "distinct (map r_name (documents db))" by (simp add: wf_db_def)
  from backfill_outcome [OF names, of d reg] bf
  have out: "index_complete d db'" "documents db' = documents db"
    "\<forall>e. e_index_id e \<noteq> ID d \<longrightarrow> (e \<in> set (index_entries db') \<longleftrightarrow> e \<in> set (index_entries db))" by simp_all
  from bf obtain batch where "backfillLoad d batch (db, reg) = ((db', reg'), n)" by (auto simp: BackfillIndex_def bind_result_Inr)
  then have l: "byColl reg' = byColl reg" "set (reg_ready reg') = insert (ID d) (set (reg_ready reg))"
      "index_entries db' = index_entries (fold insertEntry batch (db\<lparr>index_entries := filter (\<lambda>e. e_index_id e \<noteq> ID d) (index_entries db)\<rparr>))"
    by (auto simp: backfillLoad_def MarkIndexReady_def markReady_def Let_def)
  have fc: "forCollection reg' c = forCollection reg c" for c by (simp add: forCollection_def l(1))
  have "index_complete d' db'" if d': "d' \<in> set (forCollection reg c)" "ID d' \<in> set (reg_ready reg')" for c d'
  proof (cases "ID d' = ID d")
    case True
    have "d' = d" by (rule inj_onD [OF conjunct2 [OF s(4) [unfolded registry_ok_def]] True]) (use d d'(1) in blast)+
    with out(1) show ?thesis by simp
  next
    case False
    with d' l(2) s(5) have "index_complete d' db" by (auto simp: ready_complete_def)
    then show ?thesis by (rule backfill_keeps_complete [OF names bf _ False])
  qed
  then have "ready_complete reg' db'" by (simp add: ready_complete_def fc)
  moreover have "registry_ok reg'" using s(4) by (simp add: registry_ok_def fc)
  moreover have "distinct (index_entries db')" unfolding l(3) by (rule distinct_insertEntry) (simp add: s(3))
  ultimately show ?thesis using s(1,2) rowOf_cong [OF out(2)] by (simp add: store_ok_def wf_db_def clock_ok_def out(2))
qed

lemma drop_ok:
  assumes "store_ok (db, reg, t)" and drop: "DropCollection coll batch db = Inr (db', n)"
  shows "store_ok (db', reg, t)"
proof -
  have s: "wf_db exact_shape db" "clock_ok (Truncate_us t) db" "distinct (index_entries db)" "registry_ok reg" "ready_complete reg db"
    using assms(1) by (simp_all add: store_ok_def)
  from s(1) have names: "distinct (map r_name (documents db))" by (simp add: wf_db_def)
  from drop have "coll \<noteq> []" by (auto simp: DropCollection_def)
  from drop_outcome [OF names this, of batch] drop obtain
    docs: "documents db' = filter (\<lambda>r. r_collection_id r \<noteq> coll) (documents db)"
    and entries: "index_entries db' = filter (\<lambda>e. e_doc_name e \<notin> collectionNames coll db) (index_entries db)"
    and complete: "\<forall>d. index_complete d db \<longrightarrow> index_complete d db'" by auto
  have wf: "wf_db exact_shape db'" using s(1) by (simp add: wf_db_def docs distinct_map_filter)
  have "rowOf db n = Some r" if "rowOf db' n = Some r" for n r
    using rowOf_Some [OF that] row_iff [OF names, of r] docs by auto
  then have "clock_ok (Truncate_us t) db'" using s(2) unfolding clock_ok_def by blast
  with wf s complete entries show ?thesis by (simp add: store_ok_def ready_complete_def)
qed

lemma reachable_ok: "reachable s \<Longrightarrow> store_ok s"
  by (induction rule: reachable.induct) (erule start_ok commit_ok backfill_ok drop_ok; assumption)+

section \<open>Queries on reachable states\<close>

text \<open>Arrays shorter than \<open>2 ^ 32\<close>, as in every document that fits a message.\<close>

definition short_db :: "DB \<Rightarrow> bool" where
  "short_db db \<longleftrightarrow> (\<forall>r \<in> set (documents db). \<forall>f. UnmarshalFields (r_data r) = Inr f \<longrightarrow> short_arrays (MapValue f))"

text \<open>
  The queries that get the reference answer. Of those the code accepts this leaves out, each
  for a wrong answer shown elsewhere in the development:
    \<^item> negative offsets (\<open>QueryAnswer.negative_offset_panics\<close>);
    \<^item> equality and array-contains filters whose operand is a map, an array or a geopoint
      (\<open>QueryLimits.nested_operand_excluded\<close>);
    \<^item> served from an index: what \<open>plan_ok\<close> leaves out (see there: array-contains components in the
      ordering part, array filters on two paths, definitions that repeat a path or have the name inside,
      cursors that are empty or reach the name);
      collections with the queried id below other parents, whose documents the index holds too; and a
      limit of zero where several ranges are merged (\<open>QueryAnswer.merge_limit_zero\<close>);
    \<^item> in name order: names that bytes and segments order differently, which happens in collection groups
      only (\<open>QueryLimits.group_name_order\<close>; within one collection \<open>collection_name_ordered\<close> has
      the condition for every query), and cursors that are not one reference (\<open>QueryLimits.pushed_limit_cuts_page\<close>).
\<close>

definition query_ok :: "indexRegistry \<Rightarrow> Query \<Rightarrow> DB \<Rightarrow> bool" where
  "query_ok reg q db \<longleftrightarrow> 0 \<le> sint (Offset q) \<and>
     (case Where q of None \<Rightarrow> True | Some f \<Rightarrow> scalar_probes f) \<and>
     (case planned reg q of
        Some plan \<Rightarrow> plan_ok q (pDef plan) \<and> (Limit q \<noteq> 0 \<or> length (Ranges plan) \<le> 1) \<and>
          (\<forall>r \<in> set (documents db). r_collection_id r = CollectionID q \<longrightarrow> baseConditions q r)
      | None \<Rightarrow> snd (NameOnlyOrder q) \<longrightarrow> name_ordered q (fst (NameOnlyOrder q)) db)"

lemma reachable_wf:
  assumes "store_ok (db, reg, t)" "short_db db"
  shows "wf_db valid_value db"
proof -
  have "row_ok valid_value r" if "row_ok exact_shape r" "\<forall>f. UnmarshalFields (r_data r) = Inr f \<longrightarrow> short_arrays (MapValue f)" for r
    using that by (auto simp: row_ok_def exact_shape_def valid_value_iff split: sum.splits)
  with assms show ?thesis by (simp add: store_ok_def wf_db_def short_db_def)
qed

lemma reachable_servable:
  assumes "store_ok (db, reg, t)" "short_db db" "query_ok reg q db"
  shows "servable reg q db"
proof (cases "planned reg q")
  case None
  with assms(3) show ?thesis by (simp add: query_ok_def servable_def)
next
  case (Some plan)
  from planned_For [OF Some] obtain eq io inl where
    "tryDefs q eq inl (\<lambda>i. i \<in> set (reg_ready reg)) (forCollection reg (CollectionID q)) = Some plan" by (rule For_Some)
  from tryDefs_Some [OF this] have "pDef plan \<in> set (forCollection reg (CollectionID q))" "ID (pDef plan) \<in> set (reg_ready reg)" by simp_all
  with assms(1) have "index_complete (pDef plan) db" by (auto simp: store_ok_def ready_complete_def)
  with Some assms(1,3) reachable_wf [OF assms(1,2)] show ?thesis
    by (simp add: servable_def query_ok_def index_serves_def store_ok_def)
qed

section \<open>A run of the store\<close>

lemma sample_commit_any:
  assumes "documents db = []" "verifyReads verify []"
  obtains db' where "applyCommit reg 7 1000 [sample_write NullValue] extra verify db =
      Inr (db', [\<lparr>wr_UpdateTime = 1000, wr_TransformResults = []\<rparr>], 1000)" "documents db' = [sample_row]"
proof -
  have st: "ds_Dirty (sample_state NullValue)" "ds_Exists (sample_state NullValue)" "stateFields (sample_state NullValue) = [(''a'', NullValue)]"
      "ds_CreateTime (sample_state NullValue) = 1000" "ds_UpdateTime (sample_state NullValue) = 1000"
    by (simp_all add: sample_state_def stateFields_def)
  have row: "\<lparr>r_name = sample_name, r_parent_path = ''projects/p/databases/d/documents'', r_collection_id = ''c'', r_doc_id = ''x'',
      r_data = r_data sample_row, r_create_time = 1000, r_update_time = 1000\<rparr> = sample_row" by (simp add: sample_row_def)
  have "upsertDocument sample_row db = db\<lparr>documents := [sample_row]\<rparr>" using assms by (simp add: upsertDocument_def)
  then show thesis
    using that assms sample_data(2)
    by (simp add: applyCommit_def Truncate_1000 sample_target sample_path sample_Apply scanDocs_def
        persistDoc_def st Let_def pathOf_def row)
qed

lemma sample_run:
  obtains db reg t where "reachable (db, reg, t)" "documents db = [sample_row]"
    "forCollection reg ''c'' = [a_index]" "ID a_index \<in> set (reg_ready reg)"
proof -
  obtain db0 reg0 where s0: "SetIndexes [a_index] empty_db = Inr (db0, reg0)" by (simp add: SetIndexes_def a_index_def Let_def)
  then have r0: "reachable (db0, reg0, 0)" by (rule reachable.start) simp
  have fc: "forCollection reg0 ''c'' = [a_index]" and "documents db0 = []"
    using s0 by (auto simp: SetIndexes_def a_index_def Let_def registerDef_def empty_db_def forCollection_def addDef_def)
  moreover have "verifyReads [] []" by (simp add: verifyReads_def)
  ultimately obtain db1 results where
    c: "applyCommit reg0 7 1000 [sample_write NullValue] [] [] db0 = Inr (db1, results, 1000)" "documents db1 = [sample_row]" by (metis sample_commit_any)
  have "exact_shape NullValue" by (simp add: exact_shape_def)
  from reachable.commit [OF r0 _ sample_write_ok(1) [OF this] c(1)] have r1: "reachable (db1, reg0, 1000)" by simp
  have "distinct (map r_name (documents db1))" by (simp add: c(2))
  from backfill_outcome [OF this, of a_index reg0] sample_data(3) c(2) obtain db2 reg2 n where
    b: "BackfillIndex a_index (db1, reg0) = Inr ((db2, reg2), n)" "ID a_index \<in> set (reg_ready reg2)" "documents db2 = documents db1"
    by (auto split: sum.splits)
  have f: "forCollection reg2 c = forCollection reg0 c" for c
    using b(1) by (auto simp: BackfillIndex_def bind_result_Inr backfillLoad_def MarkIndexReady_def markReady_def forCollection_def Let_def)
  have "a_index \<in> set (forCollection reg0 (dCollectionID a_index))"
    using fc by (simp add: a_index_def)
  from reachable.backfill [OF r1 this b(1)] b c(2) f fc show thesis by (intro that) simp_all
qed

section \<open>Commit times\<close>

text \<open>
  The commit time is read before the locks are taken, so a commit that waited for one with a later
  reading stores an update time before the creation of the document.
\<close>

theorem earlier_commit_time:
  "\<exists>db' results. applyCommit no_indexes 8 0 [sample_write NullValue] [] [] (empty_db\<lparr>documents := [sample_row]\<rparr>) = Inr (db', results, 0) \<and>
     documents db' = [sample_row\<lparr>r_update_time := 0\<rparr>] \<and> r_update_time (sample_row\<lparr>r_update_time := 0\<rparr>) < r_create_time sample_row"
proof -
  have t: "Truncate_us 0 = 0" by (simp add: Truncate_us_def)
  let ?st = "(sample_state NullValue)\<lparr>ds_UpdateTime := 0\<rparr>" and ?db = "empty_db\<lparr>documents := [sample_row]\<rparr>"
  have s: "d_Name sample_doc = sample_name" "d_Fields sample_doc = [(''a'', NullValue)]" "d_CreateTime sample_doc = 1000"
    "r_name sample_row = sample_name" by (simp_all add: sample_doc_def sample_row_def)
  have app: "Apply (loadState [(sample_name, sample_doc)] sample_name) (sample_write NullValue) 0 = Inr (?st, \<lparr>wr_UpdateTime = 0, wr_TransformResults = []\<rparr>)"
    by (simp add: loadState_def s sample_write_def sample_state_def Apply_def checkPrecondition_def applyOperation_def
        applyUpdate_def updatedFields_def applyUpdateTransforms_def isDelete_def cloneFields_def baseFields_def)
  have st: "ds_Dirty ?st" "ds_Exists ?st" "stateFields ?st = [(''a'', NullValue)]" "ds_CreateTime ?st = 1000" "ds_UpdateTime ?st = 0"
    by (simp_all add: sample_state_def stateFields_def)
  have "documents (upsertDocument \<lparr>r_name = sample_name, r_parent_path = p, r_collection_id = c, r_doc_id = i,
      r_data = r_data sample_row, r_create_time = x, r_update_time = 0\<rparr> ?db) = [sample_row\<lparr>r_update_time := 0\<rparr>]" for p c i x
    by (simp add: upsertDocument_def sample_row_def)
  then show ?thesis
    using sample_data(2)
    by (simp add: applyCommit_def t sample_target sample_path app scanDocs_def s sample_scan verifyReads_def persistDoc_def st Let_def pathOf_def lockSet_def)
       (simp add: sample_row_def)
qed

end
