(* ===== verification/Server.thy ===== *)
theory Server
  imports System
begin

text \<open>
  Package \<^verbatim>\<open>rpc\<close>, files \<^verbatim>\<open>server.go\<close> and \<^verbatim>\<open>logging.go\<close>: the handlers of the Firestore service on top of
  the store, and the counters the interceptors keep. A request is a record with the fields the handler reads, a stream the list of
  messages sent; clock readings, transaction identifiers of Postgres and random bytes are
  arguments. The last part runs the handlers interleaved and shows what transactions
  guarantee to their clients.
\<close>

section \<open>Messages\<close>

type_synonym Timestamp = "int64 \<times> int32"

definition timestamppb_New :: "time \<Rightarrow> Timestamp" where
  "timestamppb_New t = (word_of_int (t div 1000000000), word_of_int (t mod 1000000000))"

record Document =
  pb_Name :: string
  pb_Fields :: Fields
  pb_CreateTime :: Timestamp
  pb_UpdateTime :: Timestamp

definition docProto :: "Doc \<Rightarrow> Document" where
  "docProto d = \<lparr>pb_Name = d_Name d, pb_Fields = d_Fields d,
     pb_CreateTime = timestamppb_New (d_CreateTime d), pb_UpdateTime = timestamppb_New (d_UpdateTime d)\<rparr>"

text \<open>The code of a status message; an error without a code of its own has \<open>UnknownError\<close> already.\<close>

datatype rpcStatus = OK | Failed grpc_code

definition statusProto :: "grpc_code option \<Rightarrow> rpcStatus" where
  "statusProto e = (case e of None \<Rightarrow> OK | Some c \<Rightarrow> Failed c)"

text \<open>How a read is to be consistent: the oneof of the read requests.\<close>

datatype consistency = Unset | Transaction bytes | NewTransaction | ReadTime time

record BatchGetDocumentsResponse =
  bg_Transaction :: "bytes option"
  bg_ReadTime :: Timestamp
  bg_Result :: "string + Document" \<comment> \<open>missing or found\<close>

record RunQueryResponse =
  rq_Document :: "Document option"
  rq_ReadTime :: Timestamp

datatype aggregator = CountAgg "int64 option" | OtherAgg

record Aggregation =
  ag_Alias :: string
  ag_Operator :: aggregator

section \<open>Writing\<close>

type_synonym stored_state = "txnRegistry \<times> DB"

definition Server_Commit ::
  "indexRegistry \<Rightarrow> nat \<Rightarrow> time \<Rightarrow> bytes \<Rightarrow> Write list \<Rightarrow> stored_state \<Rightarrow>
    stored_state \<times> (fault + WriteResult list \<times> Timestamp)" where
  "Server_Commit reg xid now txn ws = (\<lambda>(txns, db).
     (case (if txn \<noteq> [] then CommitTxn reg xid now txn ws (txns, db) else (txns, Commit reg xid now ws db)) of
        (txns', Inl e) \<Rightarrow> ((txns', db), Inl e)
      | (txns', Inr (db', results, commitTime)) \<Rightarrow> ((txns', db'), Inr (results, timestamppb_New commitTime))))"

definition BeginTransaction :: "bytes \<Rightarrow> time \<Rightarrow> stored_state \<Rightarrow> stored_state \<times> bytes" where
  "BeginTransaction rnd now = (\<lambda>(txns, db). case begin_txn rnd now txns of (i, txns') \<Rightarrow> ((txns', db), i))"

definition Rollback :: "bytes \<Rightarrow> stored_state \<Rightarrow> stored_state" where
  "Rollback txn = (\<lambda>(txns, db). (drop_txn txn txns, db))"

text \<open>
  One commit per write; \<open>run\<close> has the transaction identifier and the clock of each. \<open>results[0]\<close> of
  an empty list panics.
\<close>

fun BatchWrite ::
  "indexRegistry \<Rightarrow> (nat \<Rightarrow> nat \<times> time) \<Rightarrow> Write list \<Rightarrow> DB \<Rightarrow> WriteResult list \<Rightarrow> rpcStatus list \<Rightarrow>
    fault + DB \<times> WriteResult list \<times> rpcStatus list" where
  "BatchWrite reg run [] db results statuses = Inr (db, results, statuses)"
| "BatchWrite reg run (w # ws) db results statuses =
     (case Commit reg (fst (run 0)) (snd (run 0)) [w] db of
        Inl Panic \<Rightarrow> Inl Panic
      | Inl (Status c) \<Rightarrow> BatchWrite reg (run \<circ> Suc) ws db
          (results @ [\<lparr>wr_UpdateTime = zeroTime, wr_TransformResults = []\<rparr>]) (statuses @ [statusProto (Some c)])
      | Inr (db', rs, _) \<Rightarrow> (case rs of [] \<Rightarrow> Inl Panic
          | r # _ \<Rightarrow> BatchWrite reg (run \<circ> Suc) ws db' (results @ [r]) (statuses @ [statusProto None])))"

section \<open>Reading documents\<close>

text \<open>The versions a transaction is told; the zero time stands for a missing document.\<close>

definition readAt :: "(string \<times> Doc) list \<Rightarrow> string \<Rightarrow> time" where
  "readAt docs name = (case map_of docs name of None \<Rightarrow> zeroTime | Some d \<Rightarrow> d_UpdateTime d)"

definition versionsRead :: "string list \<Rightarrow> (string \<times> Doc) list \<Rightarrow> (string \<times> time) list" where
  "versionsRead names docs = map (\<lambda>n. (n, readAt docs n)) names"

definition recordIf :: "bytes \<Rightarrow> (string \<times> time) list \<Rightarrow> txnRegistry \<Rightarrow> fault + txnRegistry" where
  "recordIf txn reads txns = (if txn \<noteq> [] then record_txn txn reads txns else Inr txns)"

definition GetDocument :: "consistency \<Rightarrow> string \<Rightarrow> stored_state \<Rightarrow> stored_state \<times> (fault + Document)" where
  "GetDocument sel name = (\<lambda>(txns, db).
     (case sel of
        ReadTime _ \<Rightarrow> ((txns, db), Inl (Status Unimplemented))
      | _ \<Rightarrow>
        (case GetDocuments [name] db of
           Inl e \<Rightarrow> ((txns, db), Inl e)
         | Inr docs \<Rightarrow>
            (case recordIf (case sel of Transaction i \<Rightarrow> i | _ \<Rightarrow> []) (versionsRead [name] docs) txns of
               Inl e \<Rightarrow> ((txns, db), Inl e)
             | Inr txns' \<Rightarrow>
                 ((txns', db), (case map_of docs name of
                    None \<Rightarrow> Inl (Status NotFound) | Some d \<Rightarrow> Inr (docProto d)))))))"

fun batchResponses :: "bytes option \<Rightarrow> Timestamp \<Rightarrow> (string \<times> Doc) list \<Rightarrow> string list \<Rightarrow> BatchGetDocumentsResponse list" where
  "batchResponses newTxn readTime docs [] = []"
| "batchResponses newTxn readTime docs (name # names) =
     \<lparr>bg_Transaction = newTxn, bg_ReadTime = readTime,
      bg_Result = (case map_of docs name of None \<Rightarrow> Inl name | Some d \<Rightarrow> Inr (docProto d))\<rparr>
       # batchResponses None readTime docs names"

text \<open>The clock is read when a new transaction begins and again for the responses.\<close>

definition BatchGetDocuments ::
  "bytes \<Rightarrow> time \<Rightarrow> time \<Rightarrow> consistency \<Rightarrow> string list \<Rightarrow> stored_state \<Rightarrow>
    stored_state \<times> (fault + BatchGetDocumentsResponse list)" where
  "BatchGetDocuments rnd now now' sel names = (\<lambda>(txns, db).
     (case sel of
        ReadTime _ \<Rightarrow> ((txns, db), Inl (Status Unimplemented))
      | _ \<Rightarrow>
        let (newTxn, txnID, txns1) =
              (case sel of
                 NewTransaction \<Rightarrow> (case begin_txn rnd now txns of (i, txns') \<Rightarrow> (Some i, i, txns'))
               | Transaction i \<Rightarrow> (None, i, txns)
               | _ \<Rightarrow> (None, [], txns))
        in (case GetDocuments names db of
              Inl e \<Rightarrow> ((txns1, db), Inl e)
            | Inr docs \<Rightarrow>
                (case recordIf txnID (versionsRead names docs) txns1 of
                   Inl e \<Rightarrow> ((txns1, db), Inl e)
                 | Inr txns2 \<Rightarrow>
                     ((txns2, db), Inr (batchResponses newTxn (timestamppb_New (Truncate_us now')) docs names))))))"

definition ListCollectionIds :: "string \<Rightarrow> DB \<Rightarrow> string list" where
  "ListCollectionIds parent db = sort (map snd (filter (\<lambda>(p, c). p = parent) (collections db)))"

section \<open>Queries\<close>

definition projected :: "Query \<Rightarrow> Doc \<Rightarrow> Document" where
  "projected q d = (let p = docProto d in p\<lparr>pb_Fields := ApplyProjection q (pb_Fields p)\<rparr>)"

text \<open>A stream is what was sent and the error it ended with.\<close>

definition Server_RunQuery ::
  "(JSON \<Rightarrow> JSON \<Rightarrow> bool) \<Rightarrow> indexRegistry \<Rightarrow> time \<Rightarrow> consistency \<Rightarrow> string \<Rightarrow> StructuredQuery option \<Rightarrow> DB \<Rightarrow>
    RunQueryResponse list \<times> fault option" where
  "Server_RunQuery contains reg now sel parent sq db =
     (if sel \<noteq> Unset then ([], Some (Status Unimplemented))
      else case Parse parent sq of
        Inl c \<Rightarrow> ([], Some (Status c))
      | Inr q \<Rightarrow>
          let readTime = timestamppb_New (Truncate_us now);
              (docs, e) = RunQuery contains reg q db;
              sent = map (\<lambda>d. \<lparr>rq_Document = Some (projected q d), rq_ReadTime = readTime\<rparr>) docs
          in if e \<noteq> None then (sent, e)
             else if sent = [] then ([\<lparr>rq_Document = None, rq_ReadTime = readTime\<rparr>], None)
             else (sent, None))"

fun aggregationLoop :: "int64 \<Rightarrow> string list \<Rightarrow> Aggregation list \<Rightarrow> fault + int64 \<times> string list" where
  "aggregationLoop upTo aliases [] = Inr (upTo, aliases)"
| "aggregationLoop upTo aliases (agg # aggs) =
     (case ag_Operator agg of
        OtherAgg \<Rightarrow> Inl (Status Unimplemented)
      | CountAgg v \<Rightarrow>
          aggregationLoop
            (case v of None \<Rightarrow> upTo | Some n \<Rightarrow> if upTo = 0 \<or> sint n > sint upTo then n else upTo)
            (aliases @ [ag_Alias agg]) aggs)"

definition RunAggregationQuery ::
  "(JSON \<Rightarrow> JSON \<Rightarrow> bool) \<Rightarrow> indexRegistry \<Rightarrow> time \<Rightarrow> consistency \<Rightarrow> string \<Rightarrow> StructuredQuery option \<Rightarrow> Aggregation list \<Rightarrow> DB \<Rightarrow>
    fault + (string \<times> Value) list \<times> Timestamp" where
  "RunAggregationQuery contains reg now sel parent sq aggs db =
     (if sel \<noteq> Unset then Inl (Status Unimplemented)
      else case Parse parent sq of
        Inl c \<Rightarrow> Inl (Status c)
      | Inr q \<Rightarrow>
          bind_result (aggregationLoop 0 [] aggs) (\<lambda>(upTo, aliases).
            case RunCount contains reg q upTo db of
              (n, Some e) \<Rightarrow> Inl e
            | (n, None) \<Rightarrow>
                Inr (fold (\<lambda>alias. AList.update alias (IntegerValue (word_of_int n))) aliases [],
                     timestamppb_New (Truncate_us now))))"

section \<open>Counters\<close>

text \<open>\<^verbatim>\<open>logging.go\<close>: calls and failed calls per method since the last report.\<close>

record rpcStats =
  counts :: "(string \<times> int64) list"
  errors :: "(string \<times> int64) list"

definition bump :: "string \<Rightarrow> (string \<times> int64) list \<Rightarrow> (string \<times> int64) list" where
  "bump m cs = AList.update m ((case map_of cs m of None \<Rightarrow> 0 | Some n \<Rightarrow> n) + 1) cs"

definition recordStat :: "string \<Rightarrow> fault option \<Rightarrow> rpcStats \<Rightarrow> rpcStats" where
  "recordStat m err s =
     (let s1 = s\<lparr>counts := bump m (counts s)\<rparr>
      in if err \<noteq> None then s1\<lparr>errors := bump m (errors s1)\<rparr> else s1)"

definition snapshotAndReset :: "rpcStats \<Rightarrow> rpcStats \<times> rpcStats" where
  "snapshotAndReset s = (s, \<lparr>counts = [], errors = []\<rparr>)"


section \<open>Batches of writes\<close>

lemma applyWrites_length: "applyWrites s rs ws t = Inr (s', rs') \<Longrightarrow> length rs' = length rs + length ws"
  by (induction ws arbitrary: s rs) (fastforce simp: bind_result_Inr)+

lemma Commit_outcome:
  assumes "store_ok (db, reg, t)" "t \<le> now" "\<forall>w \<in> set ws. write_ok exact_shape w"
  obtains (failed) c where "Commit reg xid now ws db = Inl (Status c)"
  | (committed) db' rs ct where "Commit reg xid now ws db = Inr (db', rs, ct)" "length rs = length ws"
proof (cases "Commit reg xid now ws db")
  case (Inl e)
  have "wf_db exact_shape db" "clock_ok (Truncate_us t) db" using assms(1) by (simp_all add: store_ok_def)
  moreover have "Truncate_us t \<le> Truncate_us now"
    using zdiv_mono1 [OF assms(2), of 1000] by (simp add: Truncate_us_def minus_mod_eq_mult_div)
  ultimately have "clock_ok (Truncate_us now) db" by (fastforce simp: clock_ok_def intro: order_trans)
  from exact_commit.applyCommit_no_panic [OF \<open>wf_db exact_shape db\<close> this refl assms(3), of reg xid "[]" "[]"] Inl
  show thesis using failed by (cases e) (auto simp: Commit_def)
next
  case (Inr x)
  obtain db' rs ct where x: "x = (db', rs, ct)" by (cases x)
  with Inr have "\<exists>s s'. applyWrites s [] ws (Truncate_us now) = Inr (s', rs)"
    by (auto simp: Commit_def applyCommit_def Let_def bind_result_Inr split: if_splits)
  then show thesis using committed Inr x applyWrites_length by fastforce
qed

definition batch_step :: "indexRegistry \<Rightarrow> nat \<times> time \<Rightarrow> Write \<Rightarrow> DB \<Rightarrow> DB \<Rightarrow> WriteResult \<Rightarrow> rpcStatus \<Rightarrow> bool" where
  "batch_step reg run w db db' r st \<longleftrightarrow>
     (case Commit reg (fst run) (snd run) [w] db of
        Inl e \<Rightarrow> db' = db \<and> (\<exists>c. e = Status c \<and> st = Failed c)
      | Inr (db1, rs, _) \<Rightarrow> db' = db1 \<and> rs = [r] \<and> st = OK)"

text \<open>The writes one by one, each from the state the one before it has left.\<close>

definition one_by_one ::
  "indexRegistry \<Rightarrow> (nat \<Rightarrow> nat \<times> time) \<Rightarrow> Write list \<Rightarrow> DB \<Rightarrow> DB list \<Rightarrow> WriteResult list \<Rightarrow> rpcStatus list \<Rightarrow> bool" where
  "one_by_one reg run ws db states rs ss \<longleftrightarrow>
     length rs = length ws \<and> length ss = length ws \<and> length states = length ws \<and>
     (\<forall>i < length ws. batch_step reg (run i) (ws ! i) ((db # states) ! i) (states ! i) (rs ! i) (ss ! i))"

lemma one_by_one_Cons:
  assumes "batch_step reg (run 0) w db db1 r st" "one_by_one reg (run \<circ> Suc) ws db1 states rs ss"
  shows "one_by_one reg run (w # ws) db (db1 # states) (r # rs) (st # ss)"
  unfolding one_by_one_def
proof (intro conjI allI impI)
  fix i assume "i < length (w # ws)"
  then show "batch_step reg (run i) ((w # ws) ! i) ((db # db1 # states) ! i) ((db1 # states) ! i) ((r # rs) ! i) ((st # ss) ! i)"
    using assms by (cases i) (simp_all add: one_by_one_def)
qed (use assms(2) in \<open>simp_all add: one_by_one_def\<close>)

lemma BatchWrite_spec:
  assumes "reachable (db, reg, t)" "t \<le> snd (run 0)" "\<And>i. snd (run i) \<le> snd (run (Suc i))" "\<forall>w \<in> set ws. write_ok exact_shape w"
  shows "\<exists>states rs ss. BatchWrite reg run ws db results statuses = Inr (last (db # states), results @ rs, statuses @ ss) \<and>
     one_by_one reg run ws db states rs ss \<and> (\<forall>s \<in> set states. \<exists>t. reachable (s, reg, t))"
  using assms
proof (induction ws arbitrary: run db t results statuses)
  case (Cons w ws)
  let ?run = "run \<circ> Suc"
  have step: ?case
    if one: "batch_step reg (run 0) w db db1 r st" and r1: "reachable (db1, reg, t1)" "t1 \<le> snd (run 1)"
      and eq: "BatchWrite reg run (w # ws) db results statuses = BatchWrite reg ?run ws db1 (results @ [r]) (statuses @ [st])" for db1 t1 r st
  proof -
    have "\<exists>states rs ss. BatchWrite reg ?run ws db1 (results @ [r]) (statuses @ [st]) =
          Inr (last (db1 # states), (results @ [r]) @ rs, (statuses @ [st]) @ ss) \<and>
        one_by_one reg ?run ws db1 states rs ss \<and> (\<forall>s \<in> set states. \<exists>t. reachable (s, reg, t))"
      by (rule Cons.IH [OF r1(1)]) (use r1(2) Cons.prems(3,4) in simp_all)
    then obtain states rs ss where
      m: "BatchWrite reg ?run ws db1 (results @ [r]) (statuses @ [st]) = Inr (last (db1 # states), (results @ [r]) @ rs, (statuses @ [st]) @ ss)"
      "one_by_one reg ?run ws db1 states rs ss" "\<forall>s \<in> set states. \<exists>t. reachable (s, reg, t)" by blast
    with one_by_one_Cons [OF one m(2)] r1(1) eq show ?thesis
      by (intro exI [of _ "db1 # states"] exI [of _ "r # rs"] exI [of _ "st # ss"]) auto
  qed
  have ok: "store_ok (db, reg, t)" "\<forall>w \<in> set [w]. write_ok exact_shape w" using reachable_ok [OF Cons.prems(1)] Cons.prems(4) by simp_all
  show ?case
  proof (cases rule: Commit_outcome [OF ok(1) Cons.prems(2) ok(2), of "fst (run 0)"])
    case (1 c)
    have "t \<le> snd (run 1)" using Cons.prems(2) Cons.prems(3) [of 0] by simp
    with Cons.prems(1) 1 show ?thesis
      by (intro step [of db "\<lparr>wr_UpdateTime = zeroTime, wr_TransformResults = []\<rparr>" "Failed c" t]) (simp_all add: batch_step_def statusProto_def)
  next
    case (2 db' rs ct)
    then obtain r where r: "rs = [r]" by (auto simp: length_Suc_conv)
    have "reachable (db', reg, snd (run 0))"
      using reachable.commit [OF Cons.prems(1,2) ok(2)] 2(1) by (simp add: Commit_def)
    moreover have "snd (run 0) \<le> snd (run 1)" using Cons.prems(3) [of 0] by simp
    ultimately show ?thesis using 2 r by (intro step [of db' r OK "snd (run 0)"]) (simp_all add: batch_step_def statusProto_def)
  qed
qed (simp add: one_by_one_def)

section \<open>Collections\<close>

text \<open>Every stored document's collection is registered, once.\<close>

definition collections_ok :: "DB \<Rightarrow> bool" where
  "collections_ok db \<longleftrightarrow> distinct (collections db) \<and>
     (\<forall>r \<in> set (documents db). (r_parent_path r, r_collection_id r) \<in> set (collections db))"

lemma collections_simps [simp]:
  "collections (insertEntry e db) = collections db" "collections (appendChange x t n c k db) = collections db"
  "collections (upsertDocument row db) = collections db" "collections (deleteDocument n db) = collections db"
  "collections (fold insertEntry es db) = collections db" "collections (registerDef d db) = collections db"
  "collections (refreshIndexEntries reg n c f del db) = collections db"
proof -
  show ins: "collections (insertEntry e db) = collections db" for e db by (simp add: insertEntry_def)
  have ents: "collections (fold insertEntry es db) = collections db" for es db by (induction es arbitrary: db) (simp_all add: ins)
  then show "collections (fold insertEntry es db) = collections db" .
  have "collections (fold (\<lambda>d. fold insertEntry (g d)) ds db) = collections db" for g and ds :: "Def list" and db
    by (induction ds arbitrary: db) (simp_all add: ents)
  then show "collections (refreshIndexEntries reg n c f del db) = collections db" by (simp add: refreshIndexEntries_def Let_def)
qed (simp_all add: appendChange_def upsertDocument_def deleteDocument_def registerDef_def)

lemma collections_upsert:
  assumes "collections_ok db"
  shows "collections_ok (registerCollection (r_parent_path row) (r_collection_id row) (upsertDocument row db))"
  using assms by (auto simp: collections_ok_def registerCollection_def upsertDocument_def)

lemma collections_cong: "documents db' = documents db \<Longrightarrow> collections db' = collections db \<Longrightarrow> collections_ok db' = collections_ok db"
  by (simp add: collections_ok_def)

lemma collections_persistDoc:
  assumes "persistDoc reg xid now paths states n db = Inr db'" "collections_ok db"
  shows "collections_ok db'"
proof -
  have del: "collections_ok (deleteDocument n db)" using assms(2) by (auto simp: collections_ok_def deleteDocument_def)
  note ups = collections_upsert [OF assms(2)]
  have keep: "collections_ok (appendChange x a m c k (refreshIndexEntries reg m c f del db1)) = collections_ok db1" for x a m c k f del db1
    by (rule collections_cong) simp_all
  show ?thesis
    using assms del ups [of "\<lparr>r_name = n, r_parent_path = p, r_collection_id = c, r_doc_id = i, r_data = dt, r_create_time = ct, r_update_time = ut\<rparr>" for p c i dt ct ut]
    by (auto simp: persistDoc_def Let_def keep split: if_splits sum.splits)
qed

lemma collections_persistAll:
  "persistAll reg xid now paths states names db = Inr db' \<Longrightarrow> collections_ok db \<Longrightarrow> collections_ok db'"
  by (induction names arbitrary: db) (auto simp: bind_result_Inr dest: collections_persistDoc)

lemma backfill_collections:
  assumes "BackfillIndex d (db, reg) = Inr ((db', reg'), n)"
  shows "collections db' = collections db"
  using assms by (auto simp: BackfillIndex_def bind_result_Inr backfillLoad_def MarkIndexReady_def Let_def)

lemma reachable_collections: "reachable s \<Longrightarrow> collections_ok (fst s)"
proof (induction rule: reachable.induct)
  case (start defs db reg t)
  have "documents (fold registerDef defs s) = documents s \<and> collections (fold registerDef defs s) = collections s" for s
    by (induction defs arbitrary: s) (simp_all add: registerDef_def)
  with start(1) show ?case
    by (auto simp: SetIndexes_def Let_def collections_ok_def empty_db_def split: if_splits)
next
  case (commit db reg t now ws xid extraLocks verify db' results ct)
  then show ?case
    by (auto simp: applyCommit_def Let_def bind_result_Inr intro: collections_persistAll split: prod.splits if_splits)
next
  case (backfill db reg t d db' reg' n)
  have "distinct (map r_name (documents db))" using reachable_ok [OF backfill(1)] by (simp add: store_ok_def wf_db_def)
  from backfill_outcome [OF this, of d reg] backfill(3) have "documents db' = documents db" by simp
  with backfill collections_cong [OF this] backfill_collections show ?case by simp
next
  case (drop db reg t coll batch db' n)
  have names: "distinct (map r_name (documents db))" using reachable_ok [OF drop(1)] by (simp add: store_ok_def wf_db_def)
  have "coll \<noteq> []" using drop(2) by (auto simp: DropCollection_def)
  from drop_outcome [OF names this, of batch] drop(2,3) show ?case by (auto simp: collections_ok_def)
qed

lemma ListCollectionIds_exact:
  assumes "collections_ok db"
  shows "sorted (ListCollectionIds parent db) \<and> distinct (ListCollectionIds parent db) \<and>
    (\<forall>r \<in> set (documents db). r_parent_path r = parent \<longrightarrow> r_collection_id r \<in> set (ListCollectionIds parent db))"
proof -
  have "inj_on snd {x \<in> set (collections db). fst x = parent}" by (rule inj_onI) (auto simp: prod_eq_iff)
  then have "distinct (map snd (filter (\<lambda>(p, c). p = parent) (collections db)))"
    using assms by (simp add: distinct_map collections_ok_def split_def)
  with assms show ?thesis by (force simp: ListCollectionIds_def collections_ok_def)
qed

section \<open>Handlers interleaved\<close>

text \<open>
  A read that belongs to a transaction first fetches documents and then records their versions;
  other handlers may run in between. \<open>sv_fetched\<close> holds the reads that have fetched and not yet
  recorded, \<open>sv_answers\<close> what each transaction has been told first about each document.
\<close>

record server =
  sv_db :: DB
  sv_reg :: indexRegistry
  sv_clock :: time
  sv_txns :: txnRegistry
  sv_fetched :: "(bytes \<times> string list \<times> (string \<times> Doc) list) list"
  sv_answers :: "bytes \<Rightarrow> string \<rightharpoonup> Doc option"

text \<open>
  Commits happen in different microseconds, and in the order of their clock readings: the reading belongs
  to the step, where the code takes it before it waits for its locks.
\<close>

inductive serving :: "server \<Rightarrow> bool" where
  boot: "SetIndexes defs empty_db = Inr (db, reg) \<Longrightarrow> inj_on ID (set defs) \<Longrightarrow> zeroTime \<le> Truncate_us t \<Longrightarrow>
    serving \<lparr>sv_db = db, sv_reg = reg, sv_clock = t, sv_txns = [], sv_fetched = [], sv_answers = (\<lambda>_. Map.empty)\<rparr>"
| begins: "serving s \<Longrightarrow> begin_txn rnd now (sv_txns s) = (i, txns') \<Longrightarrow>
    serving (s\<lparr>sv_txns := txns', sv_answers := (sv_answers s)(i := Map.empty)\<rparr>)"
| fetch: "serving s \<Longrightarrow> GetDocuments names (sv_db s) = Inr docs \<Longrightarrow>
    serving (s\<lparr>sv_fetched := (i, names, docs) # sv_fetched s\<rparr>)"
| answer: "serving s \<Longrightarrow> (i, names, docs) \<in> set (sv_fetched s) \<Longrightarrow>
    record_txn i (versionsRead names docs) (sv_txns s) = Inr txns' \<Longrightarrow>
    serving (s\<lparr>sv_txns := txns', sv_fetched := remove1 (i, names, docs) (sv_fetched s),
       sv_answers := (sv_answers s)(i := (\<lambda>n. if n \<in> set names then Some (map_of docs n) else None) ++ sv_answers s i)\<rparr>)"
| rollback: "serving s \<Longrightarrow> Rollback i (sv_txns s, sv_db s) = (txns', db') \<Longrightarrow> serving (s\<lparr>sv_txns := txns', sv_db := db'\<rparr>)"
| commit: "serving s \<Longrightarrow> Truncate_us (sv_clock s) < Truncate_us now \<Longrightarrow> \<forall>w \<in> set ws. write_ok exact_shape w \<Longrightarrow>
    Server_Commit (sv_reg s) xid now i ws (sv_txns s, sv_db s) = ((txns', db'), r) \<Longrightarrow>
    serving (s\<lparr>sv_txns := txns', sv_db := db', sv_clock := now\<rparr>)"
| backfill: "serving s \<Longrightarrow> d \<in> set (forCollection (sv_reg s) (dCollectionID d)) \<Longrightarrow>
    BackfillIndex d (sv_db s, sv_reg s) = Inr ((db', reg'), n) \<Longrightarrow> serving (s\<lparr>sv_db := db', sv_reg := reg'\<rparr>)"
| drop: "serving s \<Longrightarrow> DropCollection coll batch (sv_db s) = Inr (db', n) \<Longrightarrow> serving (s\<lparr>sv_db := db'\<rparr>)"

definition versionOf :: "Doc option \<Rightarrow> time" where
  "versionOf od = (case od of None \<Rightarrow> zeroTime | Some d \<Rightarrow> d_UpdateTime d)"

text \<open>
  A document as it was observed: as long as its version is current, it is the stored one.
\<close>

definition observed :: "DB \<Rightarrow> time \<Rightarrow> string \<Rightarrow> Doc option \<Rightarrow> bool" where
  "observed db t n od \<longleftrightarrow> versionOf od \<le> Truncate_us t \<and> (od \<noteq> None \<longrightarrow> zeroTime < versionOf od) \<and>
     (version db n = versionOf od \<longrightarrow> docOf db n = od)"

definition versions_ok :: "DB \<Rightarrow> time \<Rightarrow> bool" where
  "versions_ok db t \<longleftrightarrow> zeroTime \<le> Truncate_us t \<and>
     (\<forall>n r. rowOf db n = Some r \<longrightarrow> zeroTime < r_update_time r \<and> r_update_time r \<le> Truncate_us t)"

definition serving_ok :: "server \<Rightarrow> bool" where
  "serving_ok s \<longleftrightarrow> reachable (sv_db s, sv_reg s, sv_clock s) \<and> versions_ok (sv_db s) (sv_clock s) \<and>
     distinct (map fst (sv_txns s)) \<and>
     (\<forall>(i, names, docs) \<in> set (sv_fetched s). \<forall>n \<in> set names. observed (sv_db s) (sv_clock s) n (map_of docs n)) \<and>
     (\<forall>i e n. map_of (sv_txns s) i = Some e \<longrightarrow> map_of (t_reads e) n = map_option versionOf (sv_answers s i n) \<and>
        (\<forall>od. sv_answers s i n = Some od \<longrightarrow> observed (sv_db s) (sv_clock s) n od))"

lemma version_docOf: "wf_db P db \<Longrightarrow> version db n = versionOf (docOf db n)"
  by (rule stateOf_cases [of P db n]) (auto simp: version_def versionOf_def docOf_def scanDoc_def)

text \<open>The rows of later tables: untouched, removed, or written at a later time.\<close>

definition later_rows :: "DB \<Rightarrow> time \<Rightarrow> DB \<Rightarrow> time \<Rightarrow> bool" where
  "later_rows db t db' t' \<longleftrightarrow> Truncate_us t \<le> Truncate_us t' \<and>
     (\<forall>n. rowOf db' n = rowOf db n \<or> rowOf db' n = None \<or>
        (\<exists>r. rowOf db' n = Some r \<and> Truncate_us t < r_update_time r \<and> r_update_time r \<le> Truncate_us t'))"

lemma observed_later:
  assumes "observed db t n od" "later_rows db t db' t'" "zeroTime \<le> Truncate_us t"
  shows "observed db' t' n od"
proof -
  from assms(2) have "rowOf db' n = rowOf db n \<or> rowOf db' n = None \<or> (\<exists>r. rowOf db' n = Some r \<and> Truncate_us t < r_update_time r \<and> r_update_time r \<le> Truncate_us t')"
    by (simp add: later_rows_def)
  then have "version db' n = versionOf od \<longrightarrow> docOf db' n = od"
  proof (elim disjE exE conjE)
    assume "rowOf db' n = rowOf db n"
    then show ?thesis using assms(1) by (simp add: observed_def version_def docOf_def)
  next
    assume "rowOf db' n = None"
    then show ?thesis using assms(1) by (auto simp: observed_def version_def docOf_def)
  next
    fix r assume "rowOf db' n = Some r" "Truncate_us t < r_update_time r"
    then show ?thesis using assms(1) by (simp add: observed_def version_def)
  qed
  moreover have "Truncate_us t \<le> Truncate_us t'" using assms(2) by (simp add: later_rows_def)
  ultimately show ?thesis using assms(1) by (auto simp: observed_def)
qed

lemma versions_later: "versions_ok db t \<Longrightarrow> later_rows db t db' t' \<Longrightarrow> versions_ok db' t'"
  unfolding versions_ok_def later_rows_def by (smt (verit) option.distinct(1) option.inject)

lemma serving_later:
  assumes "serving_ok s" "later_rows (sv_db s) (sv_clock s) db' t'" "reachable (db', reg', t')"
    "distinct (map fst txns')" "\<And>i e. map_of txns' i = Some e \<Longrightarrow> map_of (sv_txns s) i = Some e"
  shows "serving_ok (s\<lparr>sv_txns := txns', sv_db := db', sv_reg := reg', sv_clock := t'\<rparr>)"
proof -
  have v: "versions_ok (sv_db s) (sv_clock s)" "zeroTime \<le> Truncate_us (sv_clock s)"
    using assms(1) by (simp_all add: serving_ok_def versions_ok_def)
  note keep = observed_later [OF _ assms(2) v(2)]
  show ?thesis
    using assms(1,3-5) versions_later [OF v(1) assms(2)] unfolding serving_ok_def
    by (fastforce intro: keep)
qed

lemma later_same: "documents db' = documents db \<Longrightarrow> later_rows db t db' t"
  by (simp add: later_rows_def rowOf_cong [of db' db])

lemma later_commit:
  assumes "reachable (db, reg, t)" "Truncate_us t < Truncate_us now" "\<forall>w \<in> set ws. write_ok exact_shape w"
    and commit: "applyCommit reg xid now ws extraLocks verify db = Inr (db', results, ct)"
  shows "later_rows db t db' now"
proof -
  have s: "wf_db exact_shape db" "clock_ok (Truncate_us t) db" using reachable_ok [OF assms(1)] by (simp_all add: store_ok_def)
  then have "clock_ok (Truncate_us now) db" using assms(2) by (fastforce simp: clock_ok_def)
  from exact_commit.commit_stored [OF s(1) this refl assms(3) commit] obtain S where S: "ct = Truncate_us now"
    "\<And>n. n \<in> writeNames ws \<Longrightarrow> stored (S n) (rowOf db' n)" "\<And>n. n \<in> writeNames ws \<Longrightarrow> ds_Exists (S n) \<Longrightarrow> ds_UpdateTime (S n) = ct"
    "\<And>n. n \<notin> writeNames ws \<Longrightarrow> rowOf db' n = rowOf db n" by metis
  have "rowOf db' n = rowOf db n \<or> rowOf db' n = None \<or> (\<exists>r. rowOf db' n = Some r \<and> Truncate_us t < r_update_time r \<and> r_update_time r \<le> Truncate_us now)" for n
    using S(2) [of n] S(3) [of n] S(4) [of n] assms(2) S(1) by (cases "n \<in> writeNames ws") (auto simp: stored_def split: if_splits)
  with assms(2) show ?thesis by (simp add: later_rows_def)
qed

lemma later_drop:
  assumes "reachable (db, reg, t)" "DropCollection coll batch db = Inr (db', n)"
  shows "later_rows db t db' t"
proof -
  have names: "distinct (map r_name (documents db))" using reachable_ok [OF assms(1)] by (simp add: store_ok_def wf_db_def)
  have "coll \<noteq> []" using assms(2) by (auto simp: DropCollection_def)
  from drop_outcome [OF names this, of batch] assms(2)
  have docs: "documents db' = filter (\<lambda>r. r_collection_id r \<noteq> coll) (documents db)" by auto
  have "rowOf db m = Some r" if "rowOf db' m = Some r" for m r
    using rowOf_Some [OF that] row_iff [OF names, of r] docs by auto
  then have "rowOf db' m = rowOf db m \<or> rowOf db' m = None" for m by (cases "rowOf db' m") auto
  then have "rowOf db' m = rowOf db m \<or> rowOf db' m = None \<or>
      (\<exists>r. rowOf db' m = Some r \<and> Truncate_us t < r_update_time r \<and> r_update_time r \<le> Truncate_us t)" for m by blast
  then show ?thesis by (simp add: later_rows_def)
qed

lemma later_backfill:
  assumes "reachable (db, reg, t)" "BackfillIndex d (db, reg) = Inr ((db', reg'), n)"
  shows "later_rows db t db' t"
proof -
  have "distinct (map r_name (documents db))" using reachable_ok [OF assms(1)] by (simp add: store_ok_def wf_db_def)
  from backfill_outcome [OF this, of d reg] assms(2) show ?thesis by (simp add: later_same)
qed

lemma fetch_observed:
  assumes "serving_ok s" "GetDocuments names (sv_db s) = Inr docs" "n \<in> set names"
  shows "map_of docs n = docOf (sv_db s) n \<and> observed (sv_db s) (sv_clock s) n (map_of docs n)"
proof -
  have wf: "wf_db exact_shape (sv_db s)" using assms(1) reachable_ok by (fastforce simp: serving_ok_def store_ok_def)
  obtain docs' where d: "scanDocs (filter (\<lambda>r. r_name r \<in> set names) (documents (sv_db s))) = Inr docs'"
    "\<And>m. map_of docs' m = (if m \<in> set names then docOf (sv_db s) m else None)" by (rule scanDocs_rows [OF wf, where S = "set names"], rule that)
  with assms(2,3) have eq: "map_of docs n = docOf (sv_db s) n" by (auto simp: GetDocuments_def split: if_splits)
  have "zeroTime < r_update_time r \<and> r_update_time r \<le> Truncate_us (sv_clock s)" if "rowOf (sv_db s) n = Some r" for r
    using assms(1) that by (simp add: serving_ok_def versions_ok_def)
  moreover have "zeroTime \<le> Truncate_us (sv_clock s)" using assms(1) by (simp add: serving_ok_def versions_ok_def)
  ultimately have "observed (sv_db s) (sv_clock s) n (docOf (sv_db s) n)"
    using version_docOf [OF wf, of n]
    by (auto simp: observed_def version_def docOf_def versionOf_def scanDoc_def split: option.splits sum.splits)
  with eq show ?thesis by simp
qed

lemma delete_keeps: "map_of (AList.delete i m) k = Some e \<Longrightarrow> map_of m k = Some e"
  by (simp add: delete_conv' split: if_splits)

lemma readAt_version: "readAt docs n = versionOf (map_of docs n)"
  by (simp add: readAt_def versionOf_def)

lemma serving_invariant: "serving s \<Longrightarrow> serving_ok s"
proof (induction rule: serving.induct)
  case (boot defs db reg t)
  have "reachable (db, reg, t)" using boot(1,2) by (rule reachable.start)
  moreover have "documents (fold registerDef defs d) = documents d" for d
    by (induction defs arbitrary: d) (simp_all add: registerDef_def)
  then have "documents db = []" using boot(1) by (auto simp: SetIndexes_def Let_def empty_db_def split: if_splits)
  ultimately show ?case using boot(3) by (simp add: serving_ok_def versions_ok_def rowOf_def)
next
  case (begins s rnd now i txns')
  have i: "i = rnd" and t': "txns' = snd (begin_txn rnd now (sv_txns s))" using begins(2) by (auto simp: begin_txn_def)
  have d: "distinct (map fst (sv_txns s))" using begins(3) by (simp add: serving_ok_def)
  have "distinct (map fst txns')" using d by (simp add: t' begin_txn_def distinct_update distinct_map_filter)
  with begins(3) begin_expires [OF d, of rnd now] show ?case
    unfolding serving_ok_def t' i by (fastforce split: if_splits option.splits)
next
  case (fetch s names docs i)
  have "\<forall>n \<in> set names. observed (sv_db s) (sv_clock s) n (map_of docs n)" using fetch_observed [OF fetch(3,2)] by blast
  with fetch(3) show ?case by (simp add: serving_ok_def)
next
  case (answer s i names docs txns')
  have obs: "observed (sv_db s) (sv_clock s) n (map_of docs n)" if "n \<in> set names" for n
    using answer(2,4) that by (auto simp: serving_ok_def)
  from answer(3) obtain e where e: "map_of (sv_txns s) i = Some e"
    "txns' = AList.update i (e\<lparr>t_reads := recordReads (t_reads e) (versionsRead names docs)\<rparr>) (sv_txns s)"
    by (auto simp: record_txn_def split: option.splits)
  have reads: "map_of (versionsRead names docs) n = (if n \<in> set names then Some (versionOf (map_of docs n)) else None)" for n
    by (induction names) (auto simp: versionsRead_def readAt_version)
  have old: "map_of (t_reads e) n = map_option versionOf (sv_answers s i n)" for n
    using answer(4) e(1) by (simp add: serving_ok_def)
  let ?a = "(\<lambda>n. if n \<in> set names then Some (map_of docs n) else None) ++ sv_answers s i"
  have new: "map_of (recordReads (t_reads e) (versionsRead names docs)) n = map_option versionOf (?a n) \<and>
      (\<forall>od. ?a n = Some od \<longrightarrow> observed (sv_db s) (sv_clock s) n od)" for n
    using obs answer(4) e(1) by (auto simp: recordReads_first reads old map_add_def serving_ok_def split: option.splits)
  have "distinct (map fst txns')" using answer(4) e(2) by (simp add: serving_ok_def distinct_update)
  moreover have "\<forall>(i, names, docs) \<in> set (remove1 (i, names, docs) (sv_fetched s)). \<forall>n \<in> set names. observed (sv_db s) (sv_clock s) n (map_of docs n)"
    using answer(4) set_remove1_subset [of "(i, names, docs)" "sv_fetched s"] unfolding serving_ok_def by blast
  ultimately show ?case
    using answer(4) new unfolding serving_ok_def e(2) by (auto simp: update_conv')
next
  case (rollback s i txns' db')
  have r: "txns' = AList.delete i (sv_txns s)" "db' = sv_db s" using rollback(2) by (simp_all add: Rollback_def drop_txn_def)
  have "reachable (sv_db s, sv_reg s, sv_clock s)" "distinct (map fst (sv_txns s))" using rollback(3) by (simp_all add: serving_ok_def)
  from serving_later [OF rollback(3) later_same [OF refl] this(1) distinct_delete [OF this(2), of i] delete_keeps] show ?case
    by (simp add: r)
next
  case (commit s now ws xid i txns' db' r)
  have s: "reachable (sv_db s, sv_reg s, sv_clock s)" "distinct (map fst (sv_txns s))" using commit(5) by (simp_all add: serving_ok_def)
  have "sv_clock s \<le> now"
  proof (rule ccontr)
    assume "\<not> ?thesis"
    then have "now div 1000 \<le> sv_clock s div 1000" by (simp add: zdiv_mono1)
    with commit(2) show False by (simp add: Truncate_us_def minus_mod_eq_mult_div)
  qed
  note le = this
  have txns: "txns' = sv_txns s \<or> txns' = AList.delete i (sv_txns s)"
    using commit(4) by (auto simp: Server_Commit_def CommitTxn_def take_txn_def split: if_splits sum.splits option.splits)
  consider "db' = sv_db s" | extra verify res ct where
    "applyCommit (sv_reg s) xid now ws extra verify (sv_db s) = Inr (db', res, ct)"
    using commit(4) by (auto simp: Server_Commit_def CommitTxn_def Commit_def take_txn_def split: if_splits sum.splits option.splits)
  then have "later_rows (sv_db s) (sv_clock s) db' now \<and> reachable (db', sv_reg s, now)"
  proof cases
    case 1
    have "applyCommit (sv_reg s) 0 now [] [] [] (sv_db s) = Inr (sv_db s, [], Truncate_us now)"
      by (simp add: applyCommit_def lockSet_def scanDocs_def verifyReads_def)
    from reachable.commit [OF s(1) le _ this] 1 commit(2) show ?thesis by (simp add: later_rows_def)
  next
    case 2
    from later_commit [OF s(1) commit(2,3) this] reachable.commit [OF s(1) le commit(3) this] show ?thesis by simp
  qed
  note later = this
  have "distinct (map fst txns')" "\<And>k e. map_of txns' k = Some e \<Longrightarrow> map_of (sv_txns s) k = Some e"
    using txns s(2) delete_keeps distinct_delete by metis+
  from serving_later [OF commit(5) conjunct1 [OF later] conjunct2 [OF later] this] show ?case by simp
next
  case (backfill s d db' reg' n)
  have s: "reachable (sv_db s, sv_reg s, sv_clock s)" "distinct (map fst (sv_txns s))" using backfill(4) by (simp_all add: serving_ok_def)
  from serving_later [OF backfill(4) later_backfill [OF s(1) backfill(3)] reachable.backfill [OF s(1) backfill(2,3)] s(2)] show ?case by simp
next
  case (drop s coll batch db' n)
  have s: "reachable (sv_db s, sv_reg s, sv_clock s)" "distinct (map fst (sv_txns s))" using drop(3) by (simp_all add: serving_ok_def)
  from serving_later [OF drop(3) later_drop [OF s(1) drop(2)] reachable.drop [OF s(1) drop(2)] s(2)] show ?case by simp
qed


section \<open>Properties of the service\<close>

lemma committed_reads:
  assumes "serving_ok s" "Truncate_us (sv_clock s) < Truncate_us now" "\<forall>w \<in> set ws. write_ok exact_shape w"
    "i \<noteq> []" "Server_Commit (sv_reg s) xid now i ws (sv_txns s, sv_db s) = ((txns', db'), Inr resp)"
    "sv_answers s i n = Some od"
  shows "docOf (sv_db s) n = od"
proof -
  have r: "wf_db exact_shape (sv_db s)" "clock_ok (Truncate_us (sv_clock s)) (sv_db s)"
    using assms(1) reachable_ok by (fastforce simp: serving_ok_def store_ok_def)+
  then have c: "clock_ok (Truncate_us now) (sv_db s)" using assms(2) by (fastforce simp: clock_ok_def)
  from assms(4,5) obtain e res ct where e: "map_of (sv_txns s) i = Some e"
    "applyCommit (sv_reg s) xid now ws (map fst (t_reads e)) (t_reads e) (sv_db s) = Inr (db', res, ct)"
    by (auto simp: Server_Commit_def CommitTxn_def take_txn_def split: sum.splits option.splits)
  have a: "map_of (t_reads e) n = Some (versionOf od)" "observed (sv_db s) (sv_clock s) n od"
    using assms(1,6) e(1) by (simp_all add: serving_ok_def)
  have "(n, versionOf od) \<in> set (t_reads e)" by (rule map_of_SomeD [OF a(1)])
  moreover from this have "n \<in> writeNames ws \<union> set (map fst (t_reads e))" by force
  ultimately have "version (sv_db s) n = versionOf od"
    using exact_commit.applyCommit_unfold [OF r(1) c refl assms(3) e(2)] by metis
  with a(2) show ?thesis by (simp add: observed_def)
qed

lemma Server_Commit_results:
  assumes "Server_Commit reg xid now i ws (txns, db) = ((txns', db'), Inr resp)" "distinct (map fst txns)"
    and wf: "wf_db exact_shape db" "clock_ok (Truncate_us now) db" and ws: "\<forall>w \<in> set ws. write_ok exact_shape w"
  shows "(i \<noteq> [] \<longrightarrow> map_of txns' i = None) \<and> (\<exists>states. applyWrites (stateOf db) [] ws (Truncate_us now) = Inr (states, fst resp))"
proof -
  from assms(1) obtain extra verify res ct where c: "applyCommit reg xid now ws extra verify db = Inr (db', res, ct)" "fst resp = res"
    by (auto simp: Server_Commit_def CommitTxn_def Commit_def take_txn_def split: if_splits sum.splits option.splits)
  have "\<exists>states. applyWrites (stateOf db) [] ws (Truncate_us now) = Inr (states, res)"
    using exact_commit.commit_stored [OF wf refl ws c(1)] by metis
  moreover have "map_of txns' i = None" if "i \<noteq> []"
    using assms(1) that by (auto simp: Server_Commit_def CommitTxn_def take_txn_def delete_conv' split: sum.splits option.splits)
  ultimately show ?thesis using c(2) by simp
qed

text \<open>
  C4: transactions are isolated. However the handlers interleave, a transaction that commits has
  been told the truth: every document it has read, found or missing, is at the commit as it was
  when the transaction first read it; the writes are applied to exactly that state, and the
  identifier is used up. Commits take place in different microseconds.
\<close>
theorem transaction_isolated:
  assumes "serving s" "Truncate_us (sv_clock s) < Truncate_us now" "\<forall>w \<in> set ws. write_ok exact_shape w"
    "i \<noteq> []" "Server_Commit (sv_reg s) xid now i ws (sv_txns s, sv_db s) = ((txns', db'), Inr resp)"
  shows "(\<forall>n od. sv_answers s i n = Some od \<longrightarrow> docOf (sv_db s) n = od) \<and> map_of txns' i = None \<and>
    (\<exists>states. applyWrites (stateOf (sv_db s)) [] ws (Truncate_us now) = Inr (states, fst resp))"
proof -
  note ok = serving_invariant [OF assms(1)]
  then have r: "wf_db exact_shape (sv_db s)" "clock_ok (Truncate_us (sv_clock s)) (sv_db s)" "distinct (map fst (sv_txns s))"
    using reachable_ok by (fastforce simp: serving_ok_def store_ok_def)+
  then have "clock_ok (Truncate_us now) (sv_db s)" using assms(2) by (fastforce simp: clock_ok_def)
  from Server_Commit_results [OF assms(5) r(3,1) this assms(3)] committed_reads [OF ok assms(2-5)] assms(4) show ?thesis by blast
qed

text \<open>
  C32: a batch read answers every name in the order of the request, with the stored document or as
  missing, all as of one state; the first response alone carries the identifier of a transaction the
  request has begun. The versions of all names are recorded for the transaction, those it has read
  before excepted, and nothing else changes.
\<close>
theorem batch_get_answers:
  assumes "reachable (db, reg, t)" "BatchGetDocuments rnd now now' sel names (txns, db) = (st, Inr resps)"
  shows "map bg_Result resps = map (\<lambda>n. case docOf db n of None \<Rightarrow> Inl n | Some d \<Rightarrow> Inr (docProto d)) names \<and>
    map bg_Transaction resps = map (\<lambda>k. if k = 0 \<and> sel = NewTransaction then Some rnd else None) [0..<length names] \<and>
    snd st = db \<and>
    (case sel of
       Transaction i \<Rightarrow> i \<noteq> [] \<longrightarrow> record_txn i (map (\<lambda>n. (n, version db n)) names) txns = Inr (fst st)
     | NewTransaction \<Rightarrow> rnd \<noteq> [] \<longrightarrow> record_txn rnd (map (\<lambda>n. (n, version db n)) names) (snd (begin_txn rnd now txns)) = Inr (fst st)
     | _ \<Rightarrow> fst st = txns)"
proof -
  have wf: "wf_db exact_shape db" using reachable_ok [OF assms(1)] by (simp add: store_ok_def)
  have sel: "sel \<noteq> ReadTime x" for x using assms(2) by (auto simp: BatchGetDocuments_def)
  obtain docs where docs: "GetDocuments names db = Inr docs" "\<And>m. m \<in> set names \<Longrightarrow> map_of docs m = docOf db m"
  proof (cases "names = []")
    case True
    then show thesis using that by (simp add: GetDocuments_def)
  next
    case False
    obtain docs where "scanDocs (filter (\<lambda>r. r_name r \<in> set names) (documents db)) = Inr docs"
      "\<And>m. map_of docs m = (if m \<in> set names then docOf db m else None)"
      by (rule scanDocs_rows [OF wf, where S = "set names"], rule that)
    with False that show thesis by (simp add: GetDocuments_def)
  qed
  have reads: "versionsRead names docs = map (\<lambda>n. (n, version db n)) names"
    using docs(2) version_docOf [OF wf] by (simp add: versionsRead_def readAt_version)
  have results: "map bg_Result (batchResponses x rt docs ns) = map (\<lambda>n. case docOf db n of None \<Rightarrow> Inl n | Some d \<Rightarrow> Inr (docProto d)) ns"
    if "set ns \<subseteq> set names" for x rt ns
    using that docs(2) by (induction ns arbitrary: x) auto
  have none: "map bg_Transaction (batchResponses None rt docs ns) = map (\<lambda>_. None) ns" for rt ns by (induction ns) simp_all
  then have txn: "map bg_Transaction (batchResponses x rt docs ns) = map (\<lambda>k. if k = 0 then x else None) [0..<length ns]" for x rt ns
    by (cases ns) (simp_all add: map_upt_Suc map_replicate_const del: upt_Suc)
  from assms(2) sel docs(1) reads show ?thesis
    by (cases sel)
       (auto simp: BatchGetDocuments_def recordIf_def begin_txn_def Let_def results txn split: if_splits sum.splits intro!: map_cong)
qed

text \<open>
  C31: a batch of writes commits them one by one, in order: each commits or fails on the state the ones
  before it have left, a failed write changes nothing and gets the code of its own error, and
  results and statuses stand in the order of the writes. The handler never panics, and every state
  in between is one the store can be in.
\<close>
theorem batch_write_exact:
  assumes "reachable (db, reg, t)" "t \<le> snd (run 0)" "\<And>i. snd (run i) \<le> snd (run (Suc i))" "\<forall>w \<in> set ws. write_ok exact_shape w"
  shows "\<exists>states rs ss. BatchWrite reg run ws db [] [] = Inr (last (db # states), rs, ss) \<and>
     one_by_one reg run ws db states rs ss \<and> (\<forall>s \<in> set states. \<exists>t. reachable (s, reg, t))"
  using BatchWrite_spec [OF assms, of "[]" "[]"] by simp

text \<open>
  The collections listed under a parent are sorted, without duplicates, and contain the collection of every
  stored document with that parent.
\<close>
theorem collections_listed:
  assumes "reachable (db, reg, t)"
  shows "sorted (ListCollectionIds parent db) \<and> distinct (ListCollectionIds parent db) \<and>
    (\<forall>r \<in> set (documents db). r_parent_path r = parent \<longrightarrow> r_collection_id r \<in> set (ListCollectionIds parent db))"
  using ListCollectionIds_exact reachable_collections [OF assms] by simp

text \<open>
  C10: the stream of a query is its reference answer, each document with the fields of its projection,
  in query order, all with one read time; an empty answer is one response without a document. This is for
  the queries of \<open>query_ok\<close>, which leaves out those the code answers wrongly (its definition lists them).
\<close>
theorem query_stream:
  assumes "reachable (db, reg, t)" "short_db db" "Parse parent sq = Inr q" "query_ok reg q db" "jsonb_laws contains"
  shows "Server_RunQuery contains reg now Unset parent sq db =
    (let readTime = timestamppb_New (Truncate_us now)
     in if reference q db = [] then [\<lparr>rq_Document = None, rq_ReadTime = readTime\<rparr>]
        else map (\<lambda>d. \<lparr>rq_Document = Some (projected q d), rq_ReadTime = readTime\<rparr>) (reference q db), None)"
proof -
  have "RunQuery contains reg q db = (reference q db, None)"
    using reachable_ok [OF assms(1)] assms(2,4,5) by (intro RunQuery_reference reachable_wf reachable_servable)
  with assms(3) show ?thesis by (simp add: Server_RunQuery_def Let_def)
qed

text \<open>
  A write in the microsecond of the one before leaves the version of the document as it was: a
  transaction that has read the earlier content commits all the same.
\<close>
theorem same_microsecond_undetected:
  assumes wf: "wf_db exact_shape db" "clock_ok (Truncate_us now) db" and ws: "\<forall>w \<in> set ws. write_ok exact_shape w"
    and commit: "applyCommit reg xid now ws [] [] db = Inr (db', results, ct)"
    and n: "version db n = Truncate_us now" "rowOf db' n \<noteq> None"
  shows "snd (CommitTxn reg xid' now' i [] ([(i, \<lparr>t_reads = [(n, version db n)], t_created = t0\<rparr>)], db')) = Inr (db', [], Truncate_us now')"
proof -
  from exact_commit.commit_stored [OF wf refl ws commit] obtain S where S: "ct = Truncate_us now" "wf_db exact_shape db'"
    "\<And>n. n \<in> writeNames ws \<Longrightarrow> stored (S n) (rowOf db' n)" "\<And>n. n \<in> writeNames ws \<Longrightarrow> ds_Exists (S n) \<Longrightarrow> ds_UpdateTime (S n) = ct"
    "\<And>n. n \<notin> writeNames ws \<Longrightarrow> rowOf db' n = rowOf db n" by metis
  have "version db' n = version db n"
  proof (cases "n \<in> writeNames ws")
    case True
    with S(3) [OF True] S(4) [OF True] n S(1) show ?thesis by (auto simp: stored_def version_def split: if_splits)
  qed (simp add: S(5) version_def)
  then have v: "versionOf (docOf db' n) = version db n" using version_docOf [OF S(2), of n] by simp
  obtain docs where docs: "scanDocs (filter (\<lambda>r. r_name r \<in> {n}) (documents db')) = Inr docs"
    "\<And>m. map_of docs m = (if m \<in> {n} then docOf db' m else None)" by (rule scanDocs_rows [OF S(2), where S = "{n}"], rule that)
  have "verifyReads [(n, version db n)] docs" using v docs(2) [of n] by (simp add: verifyReads_def versionOf_def)
  with docs(1) show ?thesis by (simp add: CommitTxn_def take_txn_def applyCommit_def lockSet_def Let_def)
qed


section \<open>A run of the service\<close>

lemma sample_boot:
  obtains db reg where "SetIndexes [] empty_db = Inr (db, reg)" "documents db = []" "collections db = []" "reachable (db, reg, 0)"
proof -
  have s: "SetIndexes [] empty_db = Inr (empty_db, \<lparr>byColl = [], reg_ready = []\<rparr>)"
    by (simp add: SetIndexes_def ReadyIndexes_def empty_db_def)
  then have "reachable (empty_db, \<lparr>byColl = [], reg_ready = []\<rparr>, 0)" by (rule reachable.start) simp
  with s that show thesis by (simp add: empty_db_def)
qed

text \<open>A transaction reads the missing sample document and creates it.\<close>

lemma sample_transaction:
  obtains s txns' db' resp where "serving s" "sv_clock s = 0" "sv_answers s [1] sample_name = Some None"
    "Server_Commit (sv_reg s) 7 1000 [1] [sample_write NullValue] (sv_txns s, sv_db s) = ((txns', db'), Inr resp)"
    "documents db' = [sample_row]"
proof -
  obtain db reg where db: "SetIndexes [] empty_db = Inr (db, reg)" "documents db = []" by (rule sample_boot)
  let ?s0 = "\<lparr>sv_db = db, sv_reg = reg, sv_clock = 0, sv_txns = [], sv_fetched = [], sv_answers = (\<lambda>_. Map.empty)\<rparr>"
  let ?e = "\<lparr>t_reads = [], t_created = 0\<rparr>" and ?e2 = "\<lparr>t_reads = [(sample_name, zeroTime)], t_created = 0\<rparr>"
  have "serving ?s0" by (rule serving.boot [OF db(1)]) (simp_all add: zeroTime_def Truncate_us_def)
  from serving.begins [OF this, of "[1]" 0] have s1: "serving (?s0\<lparr>sv_txns := [([1], ?e)]\<rparr>)"
    by (simp add: begin_txn_def fun_upd_idem)
  have "GetDocuments [sample_name] (sv_db (?s0\<lparr>sv_txns := [([1], ?e)]\<rparr>)) = Inr []" using db(2) by (simp add: GetDocuments_def scanDocs_def)
  from serving.fetch [OF s1 this, of "[1]"]
  have s2: "serving (?s0\<lparr>sv_txns := [([1], ?e)], sv_fetched := [([1], [sample_name], [])]\<rparr>)" by simp
  let ?s3 = "?s0\<lparr>sv_txns := [([1], ?e2)], sv_answers := (\<lambda>_. Map.empty)([1] := (\<lambda>n. if n = sample_name then Some (map_of [] n) else None))\<rparr>"
  from serving.answer [OF s2, of "[1]" "[sample_name]" "[]" "[([1], ?e2)]"] have s3: "serving ?s3"
    by (simp add: record_txn_def versionsRead_def readAt_def)
  have "verifyReads (t_reads ?e2) []" by (simp add: verifyReads_def)
  from sample_commit_any [OF db(2) this, of reg "map fst (t_reads ?e2)"] obtain db' where
    c: "applyCommit reg 7 1000 [sample_write NullValue] (map fst (t_reads ?e2)) (t_reads ?e2) db =
      Inr (db', [\<lparr>wr_UpdateTime = 1000, wr_TransformResults = []\<rparr>], 1000)" "documents db' = [sample_row]" .
  have "Server_Commit reg 7 1000 [1] [sample_write NullValue] ([([1], ?e2)], db) =
      (([], db'), Inr ([\<lparr>wr_UpdateTime = 1000, wr_TransformResults = []\<rparr>], timestamppb_New 1000))"
    using c(1) by (simp add: Server_Commit_def CommitTxn_def take_txn_def)
  with s3 c(2) show thesis by (intro that [of ?s3]) simp_all
qed

theorem transaction_isolated_witness:
  "\<exists>s txns' db' resp. serving s \<and> docOf (sv_db s) sample_name = None \<and>
     Server_Commit (sv_reg s) 7 1000 [1] [sample_write NullValue] (sv_txns s, sv_db s) = ((txns', db'), Inr resp) \<and>
     documents db' = [sample_row]"
proof -
  obtain s txns' db' resp where s: "serving s" "sv_clock s = 0" "sv_answers s [1] sample_name = Some None"
    "Server_Commit (sv_reg s) 7 1000 [1] [sample_write NullValue] (sv_txns s, sv_db s) = ((txns', db'), Inr resp)"
    "documents db' = [sample_row]" by (rule sample_transaction)
  have "exact_shape NullValue" by (simp add: exact_shape_def)
  from transaction_isolated [OF s(1) _ sample_write_ok(1) [OF this] _ s(4)] s(2,3)
  have "docOf (sv_db s) sample_name = None" by (simp add: Truncate_us_def)
  with s show ?thesis by blast
qed

lemma sample_written:
  obtains db reg where "reachable (db, reg, 1000)" "documents db = [sample_row]"
proof -
  obtain db0 reg where db: "documents db0 = []" "reachable (db0, reg, 0)" using sample_boot by metis
  have v: "verifyReads [] []" by (simp add: verifyReads_def)
  obtain db where c: "applyCommit reg 7 1000 [sample_write NullValue] [] [] db0 =
      Inr (db, [\<lparr>wr_UpdateTime = 1000, wr_TransformResults = []\<rparr>], 1000)" "documents db = [sample_row]"
    using sample_commit_any [OF db(1) v] by metis
  have "exact_shape NullValue" by (simp add: exact_shape_def)
  from reachable.commit [OF db(2) _ sample_write_ok(1) [OF this] c(1)] c(2) that show thesis by simp
qed

theorem batch_get_answers_witness:
  "\<exists>db reg st resps. reachable (db, reg, 1000) \<and>
     BatchGetDocuments [1] 0 0 NewTransaction [sample_name, ''nowhere''] ([], db) = (st, Inr resps) \<and>
     map bg_Result resps = [Inr (docProto sample_doc), Inl ''nowhere'']"
proof -
  obtain db reg where db: "reachable (db, reg, 1000)" "documents db = [sample_row]" by (rule sample_written)
  have n: "sample_name \<noteq> ''nowhere''" "r_name sample_row = sample_name" by (simp_all add: sample_name_def sample_row_def)
  obtain st resps where r: "BatchGetDocuments [1] 0 0 NewTransaction [sample_name, ''nowhere''] ([], db) = (st, Inr resps)"
    using db(2) n by (simp add: BatchGetDocuments_def GetDocuments_def scanDocs_def sample_scan recordIf_def record_txn_def begin_txn_def Let_def)
  have "docOf db sample_name = Some sample_doc" "docOf db ''nowhere'' = None"
    using db(2) n by (simp_all add: docOf_def rowOf_def sample_scan)
  with batch_get_answers [OF db(1) r] have "map bg_Result resps = [Inr (docProto sample_doc), Inl ''nowhere'']" by simp
  with db(1) r show ?thesis by (intro exI [of _ db] exI [of _ reg] exI [of _ st] exI [of _ resps] conjI)
qed

theorem batch_write_exact_witness:
  "\<exists>db reg states rs ss. reachable (db, reg, 0) \<and> BatchWrite reg (\<lambda>_. (7, 1000)) [sample_write NullValue] db [] [] = Inr (last (db # states), rs, ss) \<and>
     length ss = 1"
proof -
  obtain db reg where db: "reachable (db, reg, 0)" by (rule sample_boot)
  have "exact_shape NullValue" by (simp add: exact_shape_def)
  from batch_write_exact [OF db, of "\<lambda>_. (7, 1000)" "[sample_write NullValue]"] sample_write_ok(1) [OF this] db
  show ?thesis unfolding one_by_one_def by (metis One_nat_def length_Cons list.size(3) order_refl snd_conv zero_le_numeral)
qed

theorem collections_listed_witness:
  "\<exists>db reg. reachable (db, reg, 1000) \<and> ''c'' \<in> set (ListCollectionIds ''projects/p/databases/d/documents'' db)"
proof -
  obtain db reg where db: "reachable (db, reg, 1000)" "documents db = [sample_row]" by (rule sample_written)
  have "r_parent_path sample_row = ''projects/p/databases/d/documents''" "r_collection_id sample_row = ''c''" by (simp_all add: sample_row_def)
  with collections_listed [OF db(1), of "''projects/p/databases/d/documents''"] db show ?thesis by (metis list.set_intros(1))
qed

definition by_a_request :: StructuredQuery where
  "by_a_request = \<lparr>sq_From = [(''c'', False)], sq_Where = None, sq_OrderBy = [(''a'', Asc)], sq_StartAt = None, sq_EndAt = None,
     sq_Offset = 0, sq_Limit = None, sq_Select = None\<rparr>"

lemma Parse_by_a: "Parse parent (Some by_a_request) = Inr (by_a parent)"
  by (simp add: Parse_def by_a_request_def parse_a implicitOrder_def appendNameOrder_def withSelect_def
      canonicalizeNameOperands_def by_a_def a_query_def Let_def)

theorem query_stream_witness:
  "\<exists>db reg t. reachable (db, reg, t) \<and>
     Server_RunQuery jsonb_contains reg 0 Unset ''projects/p/databases/d/documents'' (Some by_a_request) db =
       ([\<lparr>rq_Document = Some (docProto sample_doc), rq_ReadTime = (0, 0)\<rparr>], None)"
proof -
  let ?q = "by_a ''projects/p/databases/d/documents''"
  obtain db reg t where r: "reachable (db, reg, t)" "documents db = [sample_row]"
    "forCollection reg ''c'' = [a_index]" "ID a_index \<in> set (reg_ready reg)" by (rule sample_run)
  have "short_db db" using sample_data(3) by (simp add: short_db_def r(2))
  moreover have "query_ok reg ?q db"
    unfolding query_ok_def by_a_planned [OF r(3,4)]
    using by_a_ok by (simp add: r(2)) (simp add: baseConditions_def by_a_def a_query_def sample_row_def)
  ultimately have "Server_RunQuery jsonb_contains reg 0 Unset ''projects/p/databases/d/documents'' (Some by_a_request) db =
      ([\<lparr>rq_Document = Some (projected ?q sample_doc), rq_ReadTime = timestamppb_New (Truncate_us 0)\<rparr>], None)"
    using query_stream [OF r(1) _ Parse_by_a _ jsonb_contains_laws, of "''projects/p/databases/d/documents''" 0] sample_answer [OF r(2)]
    by (simp add: Let_def)
  moreover have "projected ?q sample_doc = docProto sample_doc"
    by (simp add: projected_def docProto_def ApplyProjection_def by_a_def a_query_def Let_def)
  moreover have "timestamppb_New (Truncate_us 0) = (0, 0)" by (simp add: timestamppb_New_def Truncate_us_def)
  ultimately have "Server_RunQuery jsonb_contains reg 0 Unset ''projects/p/databases/d/documents'' (Some by_a_request) db =
       ([\<lparr>rq_Document = Some (docProto sample_doc), rq_ReadTime = (0, 0)\<rparr>], None)" by simp
  with r(1) show ?thesis by (intro exI [of _ db] exI [of _ reg] exI [of _ t] conjI)
qed

text \<open>
  The sample document written at 1000 ns and again, with another value, at 1500 ns: the same
  microsecond.
\<close>

theorem same_microsecond_undetected_witness:
  "\<exists>db reg db' results. reachable (db, reg, 1000) \<and>
     applyCommit reg 8 1500 [sample_write (BooleanValue True)] [] [] db = Inr (db', results, 1000) \<and>
     view db sample_name = Some [(''a'', NullValue)] \<and> view db' sample_name = Some [(''a'', BooleanValue True)] \<and>
     snd (CommitTxn reg 9 2000 [1] [] ([([1], \<lparr>t_reads = [(sample_name, version db sample_name)], t_created = 0\<rparr>)], db')) = Inr (db', [], 2000)"
proof -
  obtain db reg where db: "reachable (db, reg, 1000)" "documents db = [sample_row]" by (rule sample_written)
  have tr: "Truncate_us 1500 = 1000" "Truncate_us 2000 = 2000" by (simp_all add: Truncate_us_def)
  have n: "r_name sample_row = sample_name" "r_update_time sample_row = 1000" by (simp_all add: sample_row_def)
  have st: "loadState [(sample_name, sample_doc)] sample_name = \<lparr>ds_Name = sample_name, ds_Exists = True,
      ds_Fields = Some [(''a'', NullValue)], ds_CreateTime = 1000, ds_UpdateTime = 1000, ds_Dirty = False\<rparr>"
    by (simp add: loadState_def sample_doc_def)
  have "\<exists>st'. Apply (loadState [(sample_name, sample_doc)] sample_name) (sample_write (BooleanValue True)) 1000 =
      Inr (st', \<lparr>wr_UpdateTime = 1000, wr_TransformResults = []\<rparr>) \<and> stateFields st' = [(''a'', BooleanValue True)] \<and> ds_Exists st' \<and> ds_Dirty st'"
    unfolding st by (simp add: sample_write_def Apply_def checkPrecondition_def applyOperation_def stateFields_def
      applyUpdate_def updatedFields_def applyUpdateTransforms_def isDelete_def cloneFields_def baseFields_def)
  then obtain st' where ap: "Apply (loadState [(sample_name, sample_doc)] sample_name) (sample_write (BooleanValue True)) 1000 =
      Inr (st', \<lparr>wr_UpdateTime = 1000, wr_TransformResults = []\<rparr>)" "stateFields st' = [(''a'', BooleanValue True)]" "ds_Exists st'" "ds_Dirty st'" by blast
  have m: "\<exists>data. MarshalFields [(''a'', BooleanValue True)] = Inr data"
    by (simp add: MarshalFields_def encodeMapPayload.simps hasNUL_def)
  obtain db' where c: "applyCommit reg 8 1500 [sample_write (BooleanValue True)] [] [] db =
      Inr (db', [\<lparr>wr_UpdateTime = 1000, wr_TransformResults = []\<rparr>], 1000)"
    using m ap(2-4) by (auto simp: applyCommit_def tr sample_target sample_path db(2) n lockSet_def scanDocs_def sample_scan verifyReads_def
        ap(1) persistDoc_def Let_def)
  have ok: "wf_db exact_shape db" "clock_ok (Truncate_us 1500) db"
    using reachable_ok [OF db(1)] by (simp_all add: store_ok_def tr Truncate_1000)
  have t: "exact_shape (BooleanValue True)" by (simp add: exact_shape_def)
  from exact_commit.commit_stored [OF ok refl sample_write_ok(1) [OF t] c] obtain S where
    S: "applyWrites (stateOf db) [] [sample_write (BooleanValue True)] 1000 = Inr (S, [\<lparr>wr_UpdateTime = 1000, wr_TransformResults = []\<rparr>])"
      "stored (S sample_name) (rowOf db' sample_name)" by (auto simp: sample_target)
  have "stateOf db sample_name = loadState [(sample_name, sample_doc)] sample_name"
    by (simp add: stateOf_def docOf_def rowOf_def db(2) n sample_scan)
  with S(1) ap(1) have "S sample_name = st'" by (auto simp: sample_target)
  with S(2) ap(2,3) have v: "view db' sample_name = Some [(''a'', BooleanValue True)]" "rowOf db' sample_name \<noteq> None"
    by (auto simp: stored_def view_def canonFields_def)
  have "version db sample_name = Truncate_us 1500" by (simp add: version_def rowOf_def db(2) n tr)
  from same_microsecond_undetected [OF ok sample_write_ok(1) [OF t] c this v(2), of 9 2000 "[1]" 0] tr(2)
  have "snd (CommitTxn reg 9 2000 [1] [] ([([1], \<lparr>t_reads = [(sample_name, version db sample_name)], t_created = 0\<rparr>)], db')) = Inr (db', [], 2000)" by simp
  moreover have "view db sample_name = Some [(''a'', NullValue)]" by (simp add: view_def rowOf_def db(2) n sample_data(3))
  ultimately show ?thesis using db(1) c v(1) by (intro exI conjI)
qed

section \<open>Counts and counters\<close>

text \<open>A collection of two documents.\<close>

definition two_docs :: DB where
  "two_docs = empty_db\<lparr>documents := [sample_row, sample_row\<lparr>r_name := ''projects/p/databases/d/documents/c/y'', r_doc_id := ''y''\<rparr>]\<rparr>"

definition count_request :: StructuredQuery where
  "count_request = by_a_request\<lparr>sq_OrderBy := []\<rparr>"

text \<open>
  All counts of one request share the largest \<open>up_to\<close> among them: a count without a bound is 2 when
  it is asked alone, and 1 when it is asked beside a count up to 1.
\<close>
theorem aggregation_shares_up_to:
  "RunAggregationQuery contains reg 0 Unset ''projects/p/databases/d/documents'' (Some count_request)
      [\<lparr>ag_Alias = ''all'', ag_Operator = CountAgg None\<rparr>] two_docs = Inr ([(''all'', IntegerValue 2)], (0, 0)) \<and>
   RunAggregationQuery contains reg 0 Unset ''projects/p/databases/d/documents'' (Some count_request)
      [\<lparr>ag_Alias = ''all'', ag_Operator = CountAgg None\<rparr>, \<lparr>ag_Alias = ''some'', ag_Operator = CountAgg (Some 1)\<rparr>] two_docs =
      Inr ([(''all'', IntegerValue 1), (''some'', IntegerValue 1)], (0, 0))"
proof -
  let ?q = "(by_a ''projects/p/databases/d/documents'')\<lparr>Order := [\<lparr>Path = [], IsName = True, Dir = Asc\<rparr>]\<rparr>"
  have "Parse ''projects/p/databases/d/documents'' (Some count_request) = Inr ?q"
    by (simp add: Parse_def by_a_request_def count_request_def implicitOrder_def appendNameOrder_def withSelect_def
      canonicalizeNameOperands_def by_a_def a_query_def Let_def)
  moreover have "filter (baseConditions ?q) (documents two_docs) = documents two_docs"
    by (simp add: two_docs_def) (simp add: baseConditions_def by_a_def a_query_def sample_row_def)
  moreover have "Where ?q = None" "Start ?q = None" "End ?q = None" "Offset ?q = 0" "sint (Limit ?q) = - 1" "length (documents two_docs) = 2"
    by (simp_all add: by_a_def a_query_def two_docs_def)
  ultimately show ?thesis
    by (simp add: RunAggregationQuery_def RunCount_def Let_def timestamppb_New_def Truncate_us_def)
qed

text \<open>What the counters have been told: calls, with whether they failed, and reports.\<close>

datatype stat_event = Call string bool | Report

fun stats_run :: "stat_event list \<Rightarrow> rpcStats \<Rightarrow> rpcStats list \<times> rpcStats" where
  "stats_run [] s = ([], s)"
| "stats_run (Call m ok # es) s = stats_run es (recordStat m (if ok then None else Some (Status UnknownError)) s)"
| "stats_run (Report # es) s =
     (case snapshotAndReset s of (r, s') \<Rightarrow> (case stats_run es s' of (rs, s'') \<Rightarrow> (r # rs, s'')))"

definition count_of :: "(string \<times> int64) list \<Rightarrow> string \<Rightarrow> int64" where
  "count_of cs m = (case map_of cs m of None \<Rightarrow> 0 | Some n \<Rightarrow> n)"

lemma count_bump: "count_of (bump m' cs) m = count_of cs m + (if m = m' then 1 else 0)"
  by (simp add: count_of_def bump_def update_conv')

lemma stats_conserved:
  "stats_run es s = (rs, s') \<Longrightarrow>
   sum_list (map (\<lambda>r. count_of (counts r) m) (rs @ [s'])) =
     count_of (counts s) m + of_nat (length (filter (\<lambda>e. \<exists>ok. e = Call m ok) es)) \<and>
   sum_list (map (\<lambda>r. count_of (errors r) m) (rs @ [s'])) =
     count_of (errors s) m + of_nat (length (filter (\<lambda>e. e = Call m False) es))"
proof (induction es s arbitrary: rs s' rule: stats_run.induct)
  case (2 m' ok es s)
  from 2(1) [of rs s'] 2(2) show ?case by (simp add: recordStat_def count_bump Let_def)
next
  case (3 es s)
  obtain rs1 where rs: "stats_run es \<lparr>counts = [], errors = []\<rparr> = (rs1, s')" "rs = s # rs1"
    using 3(2) by (auto simp: snapshotAndReset_def split: prod.splits)
  from 3(1) [of s "\<lparr>counts = [], errors = []\<rparr>" rs1 s'] rs show ?case by (simp add: snapshotAndReset_def count_of_def add.assoc)
qed simp

text \<open>
  No call is lost between reports: for every method the calls reported and the calls counted since
  the last report add up to the calls made, and so do the failed ones, modulo \<open>2 ^ 64\<close>.
\<close>
theorem stats_complete:
  assumes "stats_run es \<lparr>counts = [], errors = []\<rparr> = (rs, s')"
  shows "sum_list (map (\<lambda>r. count_of (counts r) m) (rs @ [s'])) = of_nat (length (filter (\<lambda>e. \<exists>ok. e = Call m ok) es)) \<and>
    sum_list (map (\<lambda>r. count_of (errors r) m) (rs @ [s'])) = of_nat (length (filter (\<lambda>e. e = Call m False) es))"
  using stats_conserved [OF assms] by (simp add: count_of_def)

end
