(* ===== verification/Feed.thy ===== *)
theory Feed
  imports Commit "HOL-Library.Product_Lexorder"
begin

text \<open>
  File \<^verbatim>\<open>store/changelog.go\<close>: the change feed. Transaction ids and sequence numbers are handed out
  while transactions run, rows become visible when their transaction commits; a reader only takes
  rows below the oldest transaction still in flight. The consumer below polls \<^verbatim>\<open>Changes\<close> and keeps
  the position of the last event, while other transactions begin, append, commit and abort in any
  order.
\<close>

section \<open>Reading and pruning\<close>

record FeedCursor =
  fc_XID :: nat
  fc_Seq :: nat

text \<open>\<open>xmin\<close> is \<^verbatim>\<open>pg_snapshot_xmin(pg_current_snapshot())\<close>.\<close>

definition Changes :: "nat \<Rightarrow> FeedCursor \<Rightarrow> string \<Rightarrow> int \<Rightarrow> DB \<Rightarrow> Change list" where
  "Changes xmin after collectionID limit db =
     (let n = (if limit \<le> 0 then 500 else nat limit);
          rows = filter (\<lambda>c. c_xid c < xmin \<and>
                    (c_xid c > fc_XID after \<or> (c_xid c = fc_XID after \<and> c_seq c > fc_Seq after)) \<and>
                    (collectionID = [] \<or> c_collection_id c = collectionID)) (changelog db)
      in take n (sort_key (\<lambda>c. (c_xid c, c_seq c)) rows))"

text \<open>\<^verbatim>\<open>int(olderThan.Seconds())\<close> cuts the duration to whole seconds, toward zero.\<close>

definition PruneChanges :: "time \<Rightarrow> time \<Rightarrow> DB \<Rightarrow> DB \<times> nat" where
  "PruneChanges now olderThan db =
     (let secs = sgn olderThan * (\<bar>olderThan\<bar> div 1000000000);
          old = (\<lambda>c. c_at c < now - secs * 1000000000)
      in (db\<lparr>changelog := filter (\<lambda>c. \<not> old c) (changelog db)\<rparr>, length (filter old (changelog db))))"

section \<open>A consumer among transactions\<close>

record feed =
  f_db :: DB
  f_open :: "(nat \<times> Change list) list"
  f_next_xid :: nat
  f_cursor :: FeedCursor
  f_delivered :: "Change list"

definition xmin_of :: "feed \<Rightarrow> nat" where
  "xmin_of s = Min (insert (f_next_xid s) (fst ` set (f_open s)))"

text \<open>The row an insert adds; it stays with its transaction until that commits.\<close>

definition newRow :: "nat \<Rightarrow> time \<Rightarrow> string \<Rightarrow> string \<Rightarrow> string \<Rightarrow> DB \<Rightarrow> Change" where
  "newRow xid at name coll kind db = last (changelog (appendChange xid at name coll kind db))"

lemma newRow_simps [simp]: "c_xid (newRow xid at name coll kind db) = xid" "c_seq (newRow xid at name coll kind db) = next_seq db"
  by (simp_all add: newRow_def appendChange_def)

definition poll :: "string \<Rightarrow> int \<Rightarrow> feed \<Rightarrow> feed" where
  "poll coll limit s =
     (let rows = Changes (xmin_of s) (f_cursor s) coll limit (f_db s)
      in if rows = [] then s
         else s\<lparr>f_cursor := \<lparr>fc_XID = c_xid (last rows), fc_Seq = c_seq (last rows)\<rparr>,
                f_delivered := f_delivered s @ rows\<rparr>)"

definition feed_init :: feed where
  "feed_init = \<lparr>f_db = empty_db, f_open = [], f_next_xid = 1,
                f_cursor = \<lparr>fc_XID = 0, fc_Seq = 0\<rparr>, f_delivered = []\<rparr>"

inductive feed_step :: "string \<Rightarrow> feed \<Rightarrow> feed \<Rightarrow> bool" for coll where
  begins: "feed_step coll s (s\<lparr>f_open := (f_next_xid s, []) # f_open s, f_next_xid := Suc (f_next_xid s)\<rparr>)"
| append: "f_open s = ts @ (x, rows) # us \<Longrightarrow>
    feed_step coll s (s\<lparr>f_open := ts @ (x, rows @ [newRow x at name c kind (f_db s)]) # us, f_db := (f_db s)\<lparr>next_seq := Suc (next_seq (f_db s))\<rparr>\<rparr>)"
| commit: "f_open s = ts @ (x, rows) # us \<Longrightarrow>
    feed_step coll s (s\<lparr>f_open := ts @ us, f_db := (f_db s)\<lparr>changelog := changelog (f_db s) @ rows\<rparr>\<rparr>)"
| abort: "f_open s = ts @ (x, rows) # us \<Longrightarrow> feed_step coll s (s\<lparr>f_open := ts @ us\<rparr>)"
| poll: "feed_step coll s (poll coll limit s)"

inductive feed_reachable :: "string \<Rightarrow> feed \<Rightarrow> bool" for coll where
  init: "feed_reachable coll feed_init"
| step: "feed_reachable coll s \<Longrightarrow> feed_step coll s s' \<Longrightarrow> feed_reachable coll s'"

section \<open>Nothing is skipped or repeated\<close>

abbreviation pos :: "Change \<Rightarrow> nat \<times> nat" where
  "pos c \<equiv> (c_xid c, c_seq c)"

abbreviation cursor_pos :: "feed \<Rightarrow> nat \<times> nat" where
  "cursor_pos s \<equiv> (fc_XID (f_cursor s), fc_Seq (f_cursor s))"

definition wanted :: "string \<Rightarrow> Change \<Rightarrow> bool" where
  "wanted coll c \<longleftrightarrow> coll = [] \<or> c_collection_id c = coll"

abbreviation feed_log :: "feed \<Rightarrow> Change list" where
  "feed_log s \<equiv> changelog (f_db s)"

definition all_rows :: "feed \<Rightarrow> Change list" where
  "all_rows s = feed_log s @ concat (map snd (f_open s))"

definition feed_ok :: "string \<Rightarrow> feed \<Rightarrow> bool" where
  "feed_ok coll s \<longleftrightarrow>
     distinct (map c_seq (all_rows s)) \<and> (\<forall>c \<in> set (all_rows s). c_seq c < next_seq (f_db s)) \<and>
     (\<forall>c \<in> set (feed_log s). c_xid c < f_next_xid s) \<and>
     (\<forall>(x, rows) \<in> set (f_open s). fc_XID (f_cursor s) < x \<and> x < f_next_xid s \<and> (\<forall>c \<in> set rows. c_xid c = x)) \<and>
     fc_XID (f_cursor s) < f_next_xid s \<and>
     f_delivered s = sort_key pos (filter (\<lambda>c. wanted coll c \<and> pos c \<le> cursor_pos s) (feed_log s))"

lemma Changes_eq:
  "Changes xmin cur coll limit db =
     take (if limit \<le> 0 then 500 else nat limit)
       (sort_key pos (filter (\<lambda>c. wanted coll c \<and> c_xid c < xmin \<and> (fc_XID cur, fc_Seq cur) < pos c) (changelog db)))"
  unfolding Changes_def Let_def wanted_def
  by (rule arg_cong [where f = "\<lambda>rows. take _ (sort_key pos rows)"]) (rule filter_cong [OF refl], auto)

lemma xmin_open: "x \<in> fst ` set (f_open s) \<Longrightarrow> xmin_of s \<le> x" and xmin_next: "xmin_of s \<le> f_next_xid s"
  by (simp_all add: xmin_of_def)

lemma pos_inj: "distinct (map c_seq xs) \<Longrightarrow> inj_on pos (set xs)"
  by (auto simp: distinct_map inj_on_def)

lemma sorted_last:
  fixes f :: "'a \<Rightarrow> 'b :: linorder"
  shows "sorted (map f xs) \<Longrightarrow> x \<in> set xs \<Longrightarrow> f x \<le> f (last xs)"
  by (induction xs) auto

lemma init_ok: "feed_ok coll feed_init"
  by (simp add: feed_ok_def feed_init_def all_rows_def empty_db_def)

text \<open>
  The first rows, in key order, of those after a position and below a mark: together with what
  lies up to the position they are all rows up to the last of them.
\<close>

lemma last_of_batch:
  fixes f :: "'a \<Rightarrow> 'b :: linorder"
  assumes "inj_on f (set V)" "rows = take k (sort_key f V)" "rows \<noteq> []"
  shows "last rows \<in> set V" "set rows = {c \<in> set V. f c \<le> f (last rows)}" "sorted (map f rows)"
proof -
  have sub: "set rows \<subseteq> set V" unfolding assms(2) using set_take_subset [of k "sort_key f V"] by simp
  have l: "last rows \<in> set rows" using assms(3) by simp
  with sub show lV: "last rows \<in> set V" by blast
  have sorted: "sorted (map f (rows @ drop k (sort_key f V)))" unfolding assms(2) append_take_drop_id by simp
  then show srows: "sorted (map f rows)" unfolding map_append sorted_append by (rule conjunct1)
  have "c \<in> set rows" if c: "c \<in> set V" "f c \<le> f (last rows)" for c
  proof (rule ccontr)
    assume "c \<notin> set rows"
    moreover have "set (sort_key f V) = set rows \<union> set (drop k (sort_key f V))"
      unfolding assms(2) by (simp only: set_append [symmetric] append_take_drop_id)
    ultimately have "c \<in> set (drop k (sort_key f V))" using c(1) by simp
    with sorted l have "f (last rows) \<le> f c" by (auto simp: sorted_append)
    with c(2) have "f c = f (last rows)" by (rule order.antisym)
    from inj_onD [OF assms(1) this c(1) lV] have "c = last rows" .
    with l \<open>c \<notin> set rows\<close> show False by simp
  qed
  then show "set rows = {c \<in> set V. f c \<le> f (last rows)}"
    using sub sorted_last [OF srows] by blast
qed

lemma next_batch:
  fixes f :: "'a \<Rightarrow> 'b :: linorder"
  assumes inj: "inj_on f (set xs)" and dist: "distinct xs"
    and rows: "rows = take k (sort_key f (filter (\<lambda>c. P c \<and> Q c \<and> p < f c) xs))" "rows \<noteq> []"
    and down: "\<And>c. f c \<le> f (last rows) \<Longrightarrow> Q (last rows) \<Longrightarrow> Q c"
  shows "sort_key f (filter (\<lambda>c. P c \<and> f c \<le> f (last rows)) xs) = sort_key f (filter (\<lambda>c. P c \<and> f c \<le> p) xs) @ rows"
    (is "sort_key f ?D' = sort_key f ?D @ rows")
proof (rule sort_key_inj_key_eq)
  let ?V = "filter (\<lambda>c. P c \<and> Q c \<and> p < f c) xs"
  have "inj_on f (set ?V)" by (rule inj_on_subset [OF inj]) auto
  note batch = last_of_batch [OF this rows]
  have l: "Q (last rows)" "p < f (last rows)" using batch(1) by simp_all
  have sets: "set ?D' = set (sort_key f ?D @ rows)"
  proof -
    have "c \<in> set ?D' \<longleftrightarrow> c \<in> set ?D \<or> c \<in> set ?V \<and> f c \<le> f (last rows)" for c
      using l down [of c] by (auto simp: not_less intro: order.trans order.strict_implies_order)
    then show ?thesis unfolding set_append batch(2) by auto
  qed
  have "distinct ?D'" "distinct (sort_key f ?D @ rows)"
    using dist batch(2) unfolding distinct_append by (auto simp: rows(1))
  from set_eq_iff_mset_eq_distinct [OF this] sets show "mset ?D' = mset (sort_key f ?D @ rows)" by (rule iffD1)
  show "inj_on f (set ?D')" by (rule inj_on_subset [OF inj]) auto
  show "sorted (map f (sort_key f ?D @ rows))"
    unfolding map_append sorted_append
  proof (intro conjI ballI)
    fix a b assume "a \<in> set (map f (sort_key f ?D))" "b \<in> set (map f rows)"
    then have "a \<le> p" "p < b" using batch(2) by auto
    then show "a \<le> b" by (rule order.trans [OF _ order.strict_implies_order])
  qed (simp_all add: batch(3))
qed

lemma poll_ok:
  assumes ok: "feed_ok coll s"
  shows "feed_ok coll (poll coll limit s)"
proof (cases "Changes (xmin_of s) (f_cursor s) coll limit (f_db s) = []")
  case True
  with ok show ?thesis by (simp add: poll_def)
next
  case False
  define rows where "rows = Changes (xmin_of s) (f_cursor s) coll limit (f_db s)"
  define k where "k = (if limit \<le> 0 then 500 else nat limit)"
  let ?V = "filter (\<lambda>c. wanted coll c \<and> c_xid c < xmin_of s \<and> cursor_pos s < pos c) (feed_log s)"
  have rows: "rows = take k (sort_key pos ?V)" "rows \<noteq> []" using False by (simp_all add: rows_def Changes_eq k_def)
  have dist: "distinct (map c_seq (feed_log s))" using ok by (simp add: feed_ok_def all_rows_def)
  have inj: "inj_on pos (set (feed_log s))" by (rule pos_inj [OF dist])
  have "distinct (feed_log s)" using dist by (simp add: distinct_map)
  then have "sort_key pos (filter (\<lambda>c. wanted coll c \<and> pos c \<le> pos (last rows)) (feed_log s)) =
      sort_key pos (filter (\<lambda>c. wanted coll c \<and> pos c \<le> cursor_pos s) (feed_log s)) @ rows"
    by (intro next_batch [OF inj _ rows]) (auto simp: less_eq_prod_def)
  moreover have last: "c_xid (last rows) < xmin_of s"
    using last_of_batch(1) [OF inj_on_subset [OF inj] rows] by auto
  moreover have "c_xid (last rows) < x" if "(x, rs) \<in> set (f_open s)" for x rs
    using last xmin_open [of x s] that by force
  moreover have "c_xid (last rows) < f_next_xid s" using last xmin_next [of s] by simp
  ultimately show ?thesis
    using ok rows(2) unfolding poll_def rows_def [symmetric] Let_def
    by (auto simp: feed_ok_def all_rows_def)
qed

lemma step_ok:
  assumes "feed_step coll s s'" "feed_ok coll s"
  shows "feed_ok coll s'"
  using assms
proof (induction rule: feed_step.induct)
  case (begins s)
  then show ?case by (auto simp: feed_ok_def all_rows_def)
next
  case (append s ts x rows us at name c kind)
  define L T U where "L = feed_log s" and "T = concat (map snd ts)" and "U = concat (map snd us)"
  have old: "all_rows s = L @ T @ rows @ U" using append(1) by (simp add: all_rows_def L_def T_def U_def)
  let ?new = "newRow x at name c kind (f_db s)"
  have ok: "distinct (map c_seq (L @ T @ rows @ U))" "\<forall>c \<in> set (L @ T @ rows @ U). c_seq c < next_seq (f_db s)"
    using append(2) by (simp_all add: feed_ok_def flip: old)
  then have "next_seq (f_db s) \<notin> c_seq ` set (L @ T @ rows @ U)" by fastforce
  with ok(1) have "distinct (map c_seq (L @ T @ (rows @ [?new]) @ U))" by auto
  moreover have "\<forall>c \<in> set (L @ T @ (rows @ [?new]) @ U). c_seq c < Suc (next_seq (f_db s))" using ok(2) by (auto simp: less_Suc_eq)
  moreover have "\<forall>(y, rs) \<in> set (ts @ (x, rows @ [?new]) # us). fc_XID (f_cursor s) < y \<and> y < f_next_xid s \<and> (\<forall>c \<in> set rs. c_xid c = y)"
    using append by (auto simp: feed_ok_def)
  ultimately show ?case using append(2) by (simp add: feed_ok_def all_rows_def L_def T_def U_def)
next
  case (commit s ts x rows us)
  have "filter (\<lambda>c. wanted coll c \<and> pos c \<le> cursor_pos s) rows = []"
    using commit by (auto simp: feed_ok_def filter_empty_conv less_eq_prod_def)
  then have deliv: "filter (\<lambda>c. wanted coll c \<and> pos c \<le> cursor_pos s) (feed_log s @ rows) =
      filter (\<lambda>c. wanted coll c \<and> pos c \<le> cursor_pos s) (feed_log s)" by simp
  define T U where "T = concat (map snd ts)" and "U = concat (map snd us)"
  have old: "all_rows s = feed_log s @ T @ rows @ U" using commit(1) by (simp add: all_rows_def T_def U_def)
  have ok: "distinct (map c_seq (feed_log s @ T @ rows @ U))" "\<forall>c \<in> set (feed_log s @ T @ rows @ U). c_seq c < next_seq (f_db s)"
    using commit(2) by (simp_all add: feed_ok_def flip: old)
  have "distinct (map c_seq ((feed_log s @ rows) @ T @ U))" using ok(1) by auto
  moreover have "\<forall>c \<in> set ((feed_log s @ rows) @ T @ U). c_seq c < next_seq (f_db s)" using ok(2) by auto
  moreover have "\<forall>c \<in> set (feed_log s @ rows). c_xid c < f_next_xid s" using commit by (auto simp: feed_ok_def)
  ultimately show ?case using commit deliv by (simp add: feed_ok_def all_rows_def T_def U_def)
next
  case (abort s ts x rows us)
  define T U where "T = concat (map snd ts)" and "U = concat (map snd us)"
  have old: "all_rows s = feed_log s @ T @ rows @ U" using abort(1) by (simp add: all_rows_def T_def U_def)
  have ok: "distinct (map c_seq (feed_log s @ T @ rows @ U))" "\<forall>c \<in> set (feed_log s @ T @ rows @ U). c_seq c < next_seq (f_db s)"
    using abort(2) by (simp_all add: feed_ok_def flip: old)
  have "distinct (map c_seq (feed_log s @ T @ U))" using ok(1) by auto
  moreover have "\<forall>c \<in> set (feed_log s @ T @ U). c_seq c < next_seq (f_db s)" using ok(2) by auto
  ultimately show ?case using abort by (simp add: feed_ok_def all_rows_def T_def U_def)
next
  case (poll s limit)
  then show ?case by (rule poll_ok)
qed

lemma feed_reachable_ok: "feed_reachable coll s \<Longrightarrow> feed_ok coll s"
  by (induction rule: feed_reachable.induct) (auto intro: init_ok step_ok)

section \<open>A consumer that keeps polling catches up\<close>

definition pending :: "string \<Rightarrow> feed \<Rightarrow> Change list" where
  "pending coll s = filter (\<lambda>c. wanted coll c \<and> c_xid c < xmin_of s \<and> cursor_pos s < pos c) (feed_log s)"

lemma poll_simps [simp]: "f_db (poll coll limit s) = f_db s" "xmin_of (poll coll limit s) = xmin_of s"
  by (simp_all add: poll_def xmin_of_def Let_def)

lemma poll_pending:
  assumes "pending coll s \<noteq> []"
  shows "length (pending coll (poll coll limit s)) < length (pending coll s)"
proof -
  define k where "k = (if limit \<le> 0 then 500 else nat limit)"
  define rows where "rows = take k (sort_key pos (pending coll s))"
  have "k > 0" by (simp add: k_def)
  moreover have "sort_key pos (pending coll s) \<noteq> []" using assms by (metis length_0_conv length_sort)
  ultimately have ne: "rows \<noteq> []" by (simp add: rows_def)
  have rows: "Changes (xmin_of s) (f_cursor s) coll limit (f_db s) = rows"
    by (simp add: rows_def Changes_eq pending_def k_def)
  have last: "last rows \<in> set (pending coll s)"
    using ne last_in_set [OF ne] set_take_subset [of k "sort_key pos (pending coll s)"] by (auto simp: rows_def)
  have cur: "cursor_pos (poll coll limit s) = pos (last rows)" using ne by (simp add: poll_def rows)
  have "cursor_pos s < pos (last rows)" using last by (simp add: pending_def)
  then have "pending coll (poll coll limit s) = filter (\<lambda>c. pos (last rows) < pos c) (pending coll s)"
    unfolding pending_def poll_simps filter_filter cur by (intro filter_cong refl) (auto dest: less_trans)
  also have "length \<dots> < length (pending coll s)" by (rule length_filter_less [OF last]) simp
  finally show ?thesis .
qed

lemma poll_idle: "pending coll s = [] \<Longrightarrow> poll coll limit s = s"
  by (simp add: poll_def Changes_eq pending_def [unfolded wanted_def, folded wanted_def])

lemma polls_drain: "length (pending coll s) \<le> n \<Longrightarrow> pending coll ((poll coll limit ^^ n) s) = []"
proof (induction n arbitrary: s)
  case (Suc n)
  have "length (pending coll (poll coll limit s)) \<le> n"
  proof (cases "pending coll s = []")
    case True
    then show ?thesis using poll_idle [OF True, of limit] by simp
  next
    case False
    from poll_pending [OF this, of limit] Suc.prems show ?thesis by simp
  qed
  from Suc.IH [OF this] show ?case by (simp add: funpow_swap1)
qed simp

lemma polls_simps: "f_db ((poll coll limit ^^ n) s) = f_db s" "xmin_of ((poll coll limit ^^ n) s) = xmin_of s"
  by (induction n) simp_all

lemma polls_ok: "feed_ok coll s \<Longrightarrow> feed_ok coll ((poll coll limit ^^ n) s)"
  by (induction n) (simp_all add: poll_ok)

section \<open>Properties of the feed\<close>

text \<open>
  C8: whatever transactions begin, append, commit and abort between its polls, and in whatever
  order, a consumer has at every moment received exactly the committed events of its collection up
  to its cursor, each once and in the order of the feed. So an event it has not received lies
  after its cursor, also one that is committed later with a smaller sequence number.
\<close>
theorem feed_exactly_once:
  assumes "feed_reachable coll s"
  shows "f_delivered s = sort_key pos (filter (\<lambda>c. wanted coll c \<and> pos c \<le> cursor_pos s) (feed_log s)) \<and>
    distinct (f_delivered s) \<and>
    (\<forall>x rows c. (x, rows) \<in> set (f_open s) \<longrightarrow> c \<in> set rows \<longrightarrow> cursor_pos s < pos c)"
proof -
  have ok: "feed_ok coll s" by (rule feed_reachable_ok [OF assms])
  then have "distinct (map c_seq (feed_log s))" by (simp add: feed_ok_def all_rows_def)
  then have "distinct (feed_log s)" by (simp add: distinct_map)
  with ok show ?thesis by (auto simp: feed_ok_def)
qed

text \<open>
  C9: a consumer that keeps polling catches up, whatever its batch size: as many polls as there
  are events in the feed deliver every committed event of its collection that is older than the
  oldest transaction in flight.
\<close>
theorem feed_catches_up:
  assumes "feed_reachable coll s" "length (feed_log s) \<le> n"
    and "c \<in> set (feed_log s)" "wanted coll c" "c_xid c < xmin_of s"
  shows "c \<in> set (f_delivered ((poll coll limit ^^ n) s))"
proof -
  let ?s = "(poll coll limit ^^ n) s"
  have "length (pending coll s) \<le> n" using assms(2) length_filter_le [of _ "feed_log s"] unfolding pending_def by (rule order_trans [rotated])
  from polls_drain [OF this, of limit] assms(3-5) have "\<not> cursor_pos ?s < pos c"
    unfolding pending_def polls_simps filter_empty_conv by blast
  moreover have "feed_ok coll ?s" by (rule polls_ok [OF feed_reachable_ok [OF assms(1)]])
  ultimately show ?thesis using assms(3,4) by (simp add: feed_ok_def polls_simps not_less del: less_eq_prod_simp less_prod_simp)
qed

section \<open>An event on its way\<close>

definition feed_row :: Change where
  "feed_row = newRow 1 0 ''n'' ''c'' ''write'' empty_db"

definition feed_sample :: feed where
  "feed_sample = feed_init\<lparr>f_db := empty_db\<lparr>changelog := [feed_row], next_seq := 2\<rparr>, f_next_xid := 2\<rparr>"

lemma feed_sample_reachable: "feed_reachable [] feed_sample"
proof -
  let ?s1 = "feed_init\<lparr>f_open := [(1, [])], f_next_xid := 2\<rparr>"
  let ?s2 = "?s1\<lparr>f_open := [(1, [feed_row])], f_db := empty_db\<lparr>next_seq := 2\<rparr>\<rparr>"
  have "feed_reachable [] ?s1" using step [OF init begins, of "[]"] by (simp add: feed_init_def numeral_2_eq_2)
  moreover have "feed_step [] ?s1 ?s2"
    using append [of ?s1 "[]" 1 "[]" "[]" "[]" 0 "''n''" "''c''" "''write''"] by (simp add: feed_row_def feed_init_def empty_db_def numeral_2_eq_2)
  moreover have "feed_step [] ?s2 feed_sample"
    using commit [of ?s2 "[]" 1 "[feed_row]" "[]" "[]"] by (simp add: feed_sample_def feed_init_def empty_db_def)
  ultimately show ?thesis by (blast intro: step)
qed

theorem feed_exactly_once_witness:
  "feed_reachable [] (poll [] 1 feed_sample) \<and> f_delivered (poll [] 1 feed_sample) = [feed_row] \<and>
   distinct (f_delivered (poll [] 1 feed_sample))"
proof -
  have r: "feed_reachable [] (poll [] 1 feed_sample)" by (rule step [OF feed_sample_reachable poll])
  have "c_xid feed_row = 1" "c_seq feed_row = 1" by (simp_all add: feed_row_def empty_db_def)
  then have "f_delivered (poll [] 1 feed_sample) = [feed_row]"
    by (simp add: poll_def Changes_def feed_sample_def feed_init_def xmin_of_def Let_def)
  with r feed_exactly_once [OF r] show ?thesis by blast
qed

theorem feed_catches_up_witness: "feed_row \<in> set (f_delivered ((poll [] 0 ^^ 1) feed_sample))"
  by (rule feed_catches_up [OF feed_sample_reachable])
     (simp_all add: feed_sample_def feed_init_def wanted_def xmin_of_def feed_row_def)

end
