(* ===== verification/GoText.thy ===== *)
theory GoText
  imports GoStd
begin

text \<open>
  What the command-line tools use of Go's \<^verbatim>\<open>strings\<close> package beyond the prelude:
  \<^verbatim>\<open>TrimSpace\<close> on UTF-8 bytes, and splitting at newlines and commas with the splitter of the
  prelude.
\<close>

section \<open>White space\<close>

text \<open>The UTF-8 encodings of the runes for which \<^verbatim>\<open>unicode.IsSpace\<close> holds.\<close>

definition spaceRunes :: "string list" where
  "spaceRunes =
     map (\<lambda>n. [char_of n]) [9, 10, 11, 12, 13, 32 :: nat] @
     map (map char_of) ([[0xC2, 0x85], [0xC2, 0xA0], [0xE1, 0x9A, 0x80]] @
       map (\<lambda>n. [0xE2, 0x80, n]) ([0x80..<0x8B] @ [0xA8, 0xA9, 0xAF]) @ [[0xE2, 0x81, 0x9F], [0xE3, 0x80, 0x80 :: nat]])"

function trimLeft :: "string \<Rightarrow> string" where
  "trimLeft s =
     (case find (\<lambda>p. p \<noteq> [] \<and> prefix p s) spaceRunes of
        None \<Rightarrow> s
      | Some p \<Rightarrow> trimLeft (drop (length p) s))"
  by pat_completeness auto
termination
  by (relation "measure length") (auto simp: find_Some_iff prefix_def)

function trimRight :: "string \<Rightarrow> string" where
  "trimRight s =
     (case find (\<lambda>p. p \<noteq> [] \<and> suffix p s) spaceRunes of
        None \<Rightarrow> s
      | Some p \<Rightarrow> trimRight (take (length s - length p) s))"
  by pat_completeness auto
termination
  by (relation "measure length") (auto simp: find_Some_iff suffix_def)

declare trimLeft.simps [simp del] trimRight.simps [simp del]

definition TrimSpace :: "string \<Rightarrow> string" where
  "TrimSpace s = trimRight (trimLeft s)"

lemma trimLeft_done: "find (\<lambda>p. p \<noteq> [] \<and> prefix p (trimLeft s)) spaceRunes = None"
proof (induction s rule: trimLeft.induct)
  case (1 s)
  then show ?case by (cases "find (\<lambda>p. p \<noteq> [] \<and> prefix p s) spaceRunes") (simp_all add: trimLeft.simps [of s])
qed

lemma trimRight_done: "find (\<lambda>p. p \<noteq> [] \<and> suffix p (trimRight s)) spaceRunes = None"
proof (induction s rule: trimRight.induct)
  case (1 s)
  then show ?case by (cases "find (\<lambda>p. p \<noteq> [] \<and> suffix p s) spaceRunes") (simp_all add: trimRight.simps [of s])
qed

lemma trimRight_prefix: "prefix (trimRight s) s"
proof (induction s rule: trimRight.induct)
  case (1 s)
  then show ?case
    by (cases "find (\<lambda>p. p \<noteq> [] \<and> suffix p s) spaceRunes")
       (auto simp: trimRight.simps [of s] intro: prefix_order.trans [OF _ take_is_prefix])
qed

lemma TrimSpace_idem [simp]: "TrimSpace (TrimSpace s) = TrimSpace s"
proof -
  have "prefix p (trimLeft s)" if "prefix p (TrimSpace s)" for p
    using that trimRight_prefix [of "trimLeft s"] prefix_order.trans unfolding TrimSpace_def by blast
  then have "find (\<lambda>p. p \<noteq> [] \<and> prefix p (TrimSpace s)) spaceRunes = None"
    using trimLeft_done [of s] by (auto simp: find_None_iff)
  then have "trimLeft (TrimSpace s) = TrimSpace s" by (simp add: trimLeft.simps [of "TrimSpace s"])
  moreover have "trimRight (TrimSpace s) = TrimSpace s"
    using trimRight_done [of "trimLeft s"] by (simp add: TrimSpace_def trimRight.simps [of "trimRight (trimLeft s)"])
  ultimately show ?thesis by (simp add: TrimSpace_def [of "TrimSpace s"])
qed

end
