(* ===== verification/CopyDocs.thy ===== *)
theory CopyDocs
  imports GoText Tables
begin

text \<open>
  The tool \<^verbatim>\<open>kor\<close>, files \<^verbatim>\<open>cmd/kor/main.go\<close> and \<^verbatim>\<open>cmd/kor/export.go\<close>: copying a collection between Firestore and
  Kor in either direction, page by page with retries, and comparing the two. The Firestore client
  library is an argument: \<open>source\<close> is the page a query after a cursor streams, \<open>cuts\<close> says after how
  many documents the stream of each attempt breaks, \<open>commits\<close> which commits succeed. Exits with an
  error are values; log lines are not modelled.
\<close>

section \<open>Sizes\<close>

type_synonym snap = "string \<times> Fields"

fun estimateSize :: "Value \<Rightarrow> nat" where
  "estimateSize NullValue = 1"
| "estimateSize (StringValue s) = length s + 2"
| "estimateSize (BytesValue b) = length b + 2"
| "estimateSize (MapValue m) = 2 + sum_list (map (\<lambda>kv. length (fst kv) + 3 + estimateSize (snd kv)) m)"
| "estimateSize (ArrayValue vs) = 2 + sum_list (map (\<lambda>v. estimateSize v + 1) vs)"
| "estimateSize _ = 16"

definition dataSize :: "snap \<Rightarrow> nat" where
  "dataSize s = estimateSize (MapValue (snd s))"

abbreviation (input) "pageBytes \<equiv> (25165824 :: nat)" \<comment> \<open>24 MiB\<close>
abbreviation (input) "pageSize \<equiv> (3000 :: nat)"
abbreviation (input) "batchBytes \<equiv> (2097152 :: nat)" \<comment> \<open>2 MiB\<close>

section \<open>Scanning a collection\<close>

record pageResult =
  pr_n :: nat
  pr_last :: string
  pr_capped :: bool
  pr_err :: bool

text \<open>
  The callback returns the new state of its caller and whether it failed. A stream that breaks
  after \<open>k\<close> documents is \<open>Some k\<close>.
\<close>

fun readPage :: "('c \<Rightarrow> snap \<Rightarrow> 'c \<times> bool) \<Rightarrow> nat option \<Rightarrow> snap list \<Rightarrow> nat \<Rightarrow> string \<Rightarrow> nat \<Rightarrow> 'c \<Rightarrow> pageResult \<times> 'c" where
  "readPage fn brk [] n lst bytes c = (\<lparr>pr_n = n, pr_last = lst, pr_capped = False, pr_err = (brk = Some 0)\<rparr>, c)"
| "readPage fn brk (s # ss) n lst bytes c =
     (if brk = Some 0 then (\<lparr>pr_n = n, pr_last = lst, pr_capped = False, pr_err = True\<rparr>, c)
      else case fn c s of
        (c', True) \<Rightarrow> (\<lparr>pr_n = n, pr_last = lst, pr_capped = False, pr_err = True\<rparr>, c')
      | (c', False) \<Rightarrow>
          let bytes' = bytes + dataSize s
          in if bytes' \<ge> pageBytes
             then (\<lparr>pr_n = Suc n, pr_last = fst s, pr_capped = True, pr_err = False\<rparr>, c')
             else readPage fn (map_option (\<lambda>k. k - 1) brk) ss (Suc n) (fst s) bytes' c')"

text \<open>
  The attempts at one page, \<open>left\<close> of them: the cursor behind the page, its number of documents and
  whether it was capped, or the cursor of the last failure. \<open>k\<close> counts attempts.
\<close>

fun tryPage :: "(string \<Rightarrow> snap list) \<Rightarrow> (nat \<Rightarrow> nat option) \<Rightarrow> ('c \<Rightarrow> string) \<Rightarrow> ('c \<Rightarrow> snap \<Rightarrow> 'c \<times> bool) \<Rightarrow>
    nat \<Rightarrow> nat \<Rightarrow> string \<Rightarrow> 'c \<Rightarrow> (string + string \<times> nat \<times> bool) \<times> nat \<times> 'c" where
  "tryPage source cuts durable fn 0 k cursor c = (Inl cursor, k, c)"
| "tryPage source cuts durable fn (Suc left) k cursor c =
     (case readPage fn (cuts k) (source cursor) 0 [] 0 c of (r, c') \<Rightarrow>
        if \<not> pr_err r then (Inr (pr_last r, pr_n r, pr_capped r), Suc k, c')
        else if left = 0 then (Inl cursor, Suc k, c')
        else tryPage source cuts durable fn left (Suc k)
               (if durable c' \<noteq> [] then durable c' else cursor) c')"

text \<open>Pages until one is short; \<open>None\<close> when the fuel does not suffice. The flag is the error.\<close>

fun forEachDoc :: "(string \<Rightarrow> snap list) \<Rightarrow> (nat \<Rightarrow> nat option) \<Rightarrow> ('c \<Rightarrow> string) \<Rightarrow> ('c \<Rightarrow> snap \<Rightarrow> 'c \<times> bool) \<Rightarrow>
    nat \<Rightarrow> nat \<Rightarrow> string \<Rightarrow> nat \<Rightarrow> 'c \<Rightarrow> ((string \<times> nat \<times> bool) \<times> 'c) option" where
  "forEachDoc source cuts durable fn 0 k cursor tot c = None"
| "forEachDoc source cuts durable fn (Suc fuel) k cursor tot c =
     (case tryPage source cuts durable fn 4 k cursor c of
        (Inl cursor', k', c') \<Rightarrow> Some ((cursor', tot, True), c')
      | (Inr (cursor', pageDocs, capped), k', c') \<Rightarrow>
          if pageDocs < pageSize \<and> \<not> capped then Some ((cursor', tot + pageDocs, False), c')
          else forEachDoc source cuts durable fn fuel k' cursor' (tot + pageDocs) c')"

section \<open>Copying\<close>

record copyState =
  cs_batch :: "snap list"
  cs_inBatch :: nat
  cs_batchedBytes :: nat
  cs_copied :: nat
  cs_lastInBatch :: string
  cs_lastCommitted :: string
  cs_stateFile :: "string option"
  cs_dst :: "string \<rightharpoonup> Fields"
  cs_commits :: nat

text \<open>A commit of a batch sets its documents in order.\<close>

definition commitBatch :: "snap list \<Rightarrow> (string \<rightharpoonup> Fields) \<Rightarrow> string \<rightharpoonup> Fields" where
  "commitBatch batch dst = fold (\<lambda>(i, f) m. m(i \<mapsto> f)) batch dst"

definition importFlush :: "(nat \<Rightarrow> bool) \<Rightarrow> bool \<Rightarrow> copyState \<Rightarrow> copyState \<times> bool" where
  "importFlush commits useState c =
     (if cs_inBatch c = 0 then (c, False)
      else let ok = commits (cs_commits c);
               c1 = c\<lparr>cs_commits := Suc (cs_commits c), cs_batch := [], cs_inBatch := 0, cs_batchedBytes := 0,
                      cs_dst := (if ok then commitBatch (cs_batch c) (cs_dst c) else cs_dst c)\<rparr>
           in if \<not> ok then (c1, True)
              else (c1\<lparr>cs_lastCommitted := cs_lastInBatch c,
                       cs_stateFile := (if useState then Some (cs_lastInBatch c) else cs_stateFile c)\<rparr>, False))"

definition importDoc :: "(nat \<Rightarrow> bool) \<Rightarrow> bool \<Rightarrow> copyState \<Rightarrow> snap \<Rightarrow> copyState \<times> bool" where
  "importDoc commits useState c s =
     (let c1 = c\<lparr>cs_batch := cs_batch c @ [s], cs_inBatch := Suc (cs_inBatch c),
                 cs_batchedBytes := cs_batchedBytes c + dataSize s, cs_copied := Suc (cs_copied c), cs_lastInBatch := fst s\<rparr>
      in if cs_inBatch c1 \<ge> 100 \<or> cs_batchedBytes c1 \<ge> batchBytes then importFlush commits useState c1 else (c1, False))"

definition newCopy :: "string option \<Rightarrow> (string \<rightharpoonup> Fields) \<Rightarrow> copyState" where
  "newCopy saved dst = \<lparr>cs_batch = [], cs_inBatch = 0, cs_batchedBytes = 0, cs_copied = 0, cs_lastInBatch = [],
     cs_lastCommitted = [], cs_stateFile = saved, cs_dst = dst, cs_commits = 0\<rparr>"

text \<open>Where to start: an explicit cursor, else the state file when there is one.\<close>

definition startCursor :: "string \<Rightarrow> bool \<Rightarrow> string option \<Rightarrow> string" where
  "startCursor resumeAfter useState saved =
     (if resumeAfter = [] \<and> useState then (case saved of None \<Rightarrow> [] | Some b \<Rightarrow> TrimSpace b) else resumeAfter)"

text \<open>A run ends with the final state and whether it succeeded.\<close>

definition runImport ::
  "(string \<Rightarrow> snap list) \<Rightarrow> (nat \<Rightarrow> nat option) \<Rightarrow> (nat \<Rightarrow> bool) \<Rightarrow> nat \<Rightarrow> string \<Rightarrow> bool \<Rightarrow> string option \<Rightarrow>
    (string \<rightharpoonup> Fields) \<Rightarrow> (copyState \<times> bool) option" where
  "runImport source cuts commits fuel resumeAfter useState saved dst =
     (case forEachDoc source cuts cs_lastCommitted (importDoc commits useState) fuel 0
             (startCursor resumeAfter useState saved) 0 (newCopy saved dst) of
        None \<Rightarrow> None
      | Some ((_, _, True), c) \<Rightarrow> Some (fst (importFlush commits useState c), False)
      | Some ((_, _, False), c) \<Rightarrow> (case importFlush commits useState c of (c', e) \<Rightarrow> Some (c', \<not> e)))"

text \<open>The other direction; a dry run commits nothing. Waiting for the rate limit has no other effect.\<close>

definition exportFlush :: "(nat \<Rightarrow> bool) \<Rightarrow> bool \<Rightarrow> bool \<Rightarrow> copyState \<Rightarrow> copyState \<times> bool" where
  "exportFlush commits useState dryRun c =
     (if cs_inBatch c = 0 then (c, False)
      else let ok = (dryRun \<or> commits (cs_commits c));
               c1 = (if dryRun then c
                     else c\<lparr>cs_commits := Suc (cs_commits c), cs_dst := (if ok then commitBatch (cs_batch c) (cs_dst c) else cs_dst c)\<rparr>);
               c2 = c1\<lparr>cs_batch := [], cs_inBatch := 0, cs_batchedBytes := 0\<rparr>
           in if \<not> ok then (c2, True)
              else (c2\<lparr>cs_lastCommitted := cs_lastInBatch c,
                       cs_stateFile := (if useState \<and> \<not> dryRun then Some (cs_lastInBatch c) else cs_stateFile c)\<rparr>, False))"

definition exportDoc :: "(nat \<Rightarrow> bool) \<Rightarrow> bool \<Rightarrow> bool \<Rightarrow> copyState \<Rightarrow> snap \<Rightarrow> copyState \<times> bool" where
  "exportDoc commits useState dryRun c s =
     (let c1 = c\<lparr>cs_batch := cs_batch c @ [s], cs_inBatch := Suc (cs_inBatch c),
                 cs_batchedBytes := cs_batchedBytes c + dataSize s, cs_copied := Suc (cs_copied c), cs_lastInBatch := fst s\<rparr>
      in if cs_inBatch c1 \<ge> 500 \<or> cs_batchedBytes c1 \<ge> batchBytes then exportFlush commits useState dryRun c1 else (c1, False))"

definition runExport ::
  "(string \<Rightarrow> snap list) \<Rightarrow> (nat \<Rightarrow> nat option) \<Rightarrow> (nat \<Rightarrow> bool) \<Rightarrow> nat \<Rightarrow> string \<Rightarrow> bool \<Rightarrow> bool \<Rightarrow> string option \<Rightarrow>
    (string \<rightharpoonup> Fields) \<Rightarrow> (copyState \<times> bool) option" where
  "runExport source cuts commits fuel resumeAfter useState dryRun saved dst =
     (case forEachDoc source cuts cs_lastCommitted (exportDoc commits useState dryRun) fuel 0
             (startCursor resumeAfter useState saved) 0 (newCopy saved dst) of
        None \<Rightarrow> None
      | Some ((_, _, True), c) \<Rightarrow> Some (fst (exportFlush commits useState dryRun c), False)
      | Some ((_, _, False), c) \<Rightarrow> (case exportFlush commits useState dryRun c of (c', e) \<Rightarrow> Some (c', \<not> e)))"

section \<open>What a scan guarantees\<close>

text \<open>The callback on a list of documents, up to its first error.\<close>

fun feedAll :: "('c \<Rightarrow> snap \<Rightarrow> 'c \<times> bool) \<Rightarrow> 'c \<Rightarrow> snap list \<Rightarrow> 'c \<times> bool" where
  "feedAll fn c [] = (c, False)"
| "feedAll fn c (s # ss) = (case fn c s of (c', True) \<Rightarrow> (c', True) | (c', False) \<Rightarrow> feedAll fn c' ss)"

abbreviation sizeOf :: "snap list \<Rightarrow> nat" where
  "sizeOf ss \<equiv> sum_list (map dataSize ss)"

lemma readPage_feed:
  assumes "readPage fn brk ss n lst bytes c = (r, c')"
  obtains (error) ds es e where "pr_err r" "ss = ds @ es" "feedAll fn c ds = (c', e)"
  | (page) ds es where "\<not> pr_err r" "ss = ds @ es" "feedAll fn c ds = (c', False)" "pr_n r = n + length ds"
      "pr_last r = (if ds = [] then lst else fst (last ds))"
      "pr_capped r \<Longrightarrow> ds \<noteq> [] \<and> bytes + sizeOf ds \<ge> pageBytes" "\<not> pr_capped r \<Longrightarrow> es = []"
  using assms
proof (induction fn brk ss n lst bytes c arbitrary: thesis rule: readPage.induct)
  case (1 fn brk n lst bytes c)
  show ?case
  proof (cases "brk = Some 0")
    case True
    then show ?thesis using 1 by (auto intro: 1(1) [of "[]" "[]" False])
  next
    case False
    then show ?thesis using 1 by (auto intro: 1(2) [of "[]" "[]"])
  qed
next
  case (2 fn brk s ss n lst bytes c)
  note IH = 2(1) and err = 2(2) and pg = 2(3) and run = 2(4)
  obtain c1 e where f: "fn c s = (c1, e)" by (cases "fn c s")
  consider "brk = Some 0" | "brk \<noteq> Some 0" e | "brk \<noteq> Some 0" "\<not> e" "bytes + dataSize s \<ge> pageBytes"
    | "brk \<noteq> Some 0" "\<not> e" "\<not> bytes + dataSize s \<ge> pageBytes" by blast
  then show ?case
  proof cases
    case 1
    with run show ?thesis by (intro err [of "[]" "s # ss" False]) auto
  next
    case 2
    with run f show ?thesis by (intro err [of "[s]" ss True]) auto
  next
    case 3
    with run f show ?thesis by (intro pg [of "[s]" ss]) auto
  next
    case 4
    then have rec: "readPage fn (map_option (\<lambda>k. k - 1) brk) ss (Suc n) (fst s) (bytes + dataSize s) c1 = (r, c')"
      using run f by (simp add: Let_def)
    show ?thesis
    proof (rule IH [OF _ f [symmetric] _ refl _ _ _ rec])
      fix ds es e' assume "pr_err r" "ss = ds @ es" "feedAll fn c1 ds = (c', e')"
      then show thesis using f 4 by (intro err [of "s # ds" es e']) auto
    next
      fix ds es assume "\<not> pr_err r" "ss = ds @ es" "feedAll fn c1 ds = (c', False)" "pr_n r = Suc n + length ds"
        "pr_last r = (if ds = [] then fst s else fst (last ds))"
        "pr_capped r \<Longrightarrow> ds \<noteq> [] \<and> bytes + dataSize s + sizeOf ds \<ge> pageBytes" "\<not> pr_capped r \<Longrightarrow> es = []"
      then show thesis using f 4 by (intro pg [of "s # ds" es]) auto
    qed (use 4 in auto)
  qed
qed

text \<open>
  What the code relies on of the client library: a query after a cursor streams the documents behind
  it in the order of their ids, at most a page of them.
\<close>

definition source_ok :: "snap list \<Rightarrow> (string \<Rightarrow> snap list) \<Rightarrow> bool" where
  "source_ok docs source \<longleftrightarrow> sorted_wrt (<) (map fst docs) \<and> [] \<notin> fst ` set docs \<and>
     (\<forall>cursor. source cursor = take pageSize (filter (\<lambda>d. cursor < fst d) docs))"

abbreviation between :: "snap list \<Rightarrow> string \<Rightarrow> string \<Rightarrow> snap list" where
  "between docs a b \<equiv> filter (\<lambda>d. a < fst d \<and> fst d \<le> b) docs"

abbreviation small :: "snap list \<Rightarrow> bool" where
  "small ds \<equiv> length ds < pageSize \<and> sizeOf ds < pageBytes"

lemma next_doc:
  assumes "sorted_wrt (<) (map fst docs)" "filter (\<lambda>d. p < fst d) docs = d # rest"
  shows "d \<in> set docs \<and> p < fst d \<and> between docs p (fst d) = [d] \<and> filter (\<lambda>x. fst d < fst x) docs = rest"
proof -
  have d: "d \<in> set docs" "p < fst d" using assms(2) filter_set [of "\<lambda>d. p < fst d" docs] by (force dest: Cons_eq_filterD)+
  have "sorted_wrt (<) (map fst (filter (\<lambda>d. p < fst d) docs))"
    using assms(1) by (simp add: sorted_wrt_map sorted_wrt_filter)
  then have rest: "\<forall>x \<in> set rest. fst d < fst x" unfolding assms(2) by simp
  have "between docs p (fst d) = filter (\<lambda>x. fst x \<le> fst d) (filter (\<lambda>x. p < fst x) docs)" by (simp add: conj_commute)
  also have "\<dots> = [d]" unfolding assms(2) using rest by (auto simp: filter_empty_conv)
  finally have "between docs p (fst d) = [d]" .
  moreover have "filter (\<lambda>x. fst d < fst x) docs = filter (\<lambda>x. fst d < fst x) (filter (\<lambda>x. p < fst x) docs)"
    using d(2) by (auto intro!: filter_cong)
  then have "filter (\<lambda>x. fst d < fst x) docs = rest" unfolding assms(2) using rest by simp
  ultimately show ?thesis using d by simp
qed

text \<open>
  The contract between a scan and its callback: \<open>Q c p\<close> says that everything up to position \<open>p\<close> is taken
  care of in state \<open>c\<close>, \<open>R c cur\<close> that a page started at \<open>cur\<close> can be resumed. The callback
  extends \<open>Q\<close> by the next document and keeps \<open>R\<close> even when it fails; resuming goes back by less
  than a page; and behind a full page the next one can be resumed.
\<close>

locale page_consumer =
  fixes docs :: "snap list" and source :: "string \<Rightarrow> snap list" and durable :: "'c \<Rightarrow> string"
    and fn :: "'c \<Rightarrow> snap \<Rightarrow> 'c \<times> bool" and Q R :: "'c \<Rightarrow> string \<Rightarrow> bool"
  assumes src: "source_ok docs source"
    and step: "Q c p \<Longrightarrow> d \<in> set docs \<Longrightarrow> p < fst d \<Longrightarrow> between docs p (fst d) = [d] \<Longrightarrow> fn c d = (c', False) \<Longrightarrow> Q c' (fst d)"
    and keep: "Q c p \<Longrightarrow> d \<in> set docs \<Longrightarrow> p < fst d \<Longrightarrow> between docs p (fst d) = [d] \<Longrightarrow> fn c d = (c', e) \<Longrightarrow> R c cur \<Longrightarrow> R c' cur"
    and restart: "R c cur \<Longrightarrow> Q c (if durable c \<noteq> [] then durable c else cur) \<and> R c (if durable c \<noteq> [] then durable c else cur)"
    and lag: "R c cur \<Longrightarrow> durable c \<noteq> [] \<Longrightarrow> small (between docs (durable c) cur)"
    and full: "R c cur \<Longrightarrow> Q c cur \<Longrightarrow> set ds \<subseteq> set docs \<Longrightarrow> feedAll fn c ds = (c', False) \<Longrightarrow> Q c' p \<Longrightarrow>
        length ds \<ge> pageSize \<or> sizeOf ds \<ge> pageBytes \<Longrightarrow> R c' p"
begin

lemma feed_ok:
  assumes "feedAll fn c ds = (c', e)" "filter (\<lambda>d. p < fst d) docs = ds @ es" "Q c p" "R c cur"
  shows "R c' cur \<and> (\<not> e \<longrightarrow> Q c' (if ds = [] then p else fst (last ds)))"
  using assms
proof (induction ds arbitrary: c p)
  case (Cons d ds)
  obtain c1 e1 where f: "fn c d = (c1, e1)" by (cases "fn c d")
  have "sorted_wrt (<) (map fst docs)" using src by (simp add: source_ok_def)
  from next_doc [OF this, of p d "ds @ es"] Cons.prems(2)
  have d: "d \<in> set docs" "p < fst d" "between docs p (fst d) = [d]" "filter (\<lambda>x. fst d < fst x) docs = ds @ es" by simp_all
  note R1 = keep [OF Cons.prems(3) d(1-3) f Cons.prems(4)]
  show ?case
  proof (cases e1)
    case True
    with f Cons.prems(1) R1 show ?thesis by simp
  next
    case False
    with f have "fn c d = (c1, False)" by simp
    from Cons.IH [OF _ d(4) step [OF Cons.prems(3) d(1-3) this] R1] Cons.prems(1) f False show ?thesis by auto
  qed
qed simp

lemma page_passes:
  assumes "filter (\<lambda>d. cu < fst d) docs = ds @ es" "ds \<noteq> []" "small (between docs cu cur0)"
    "length ds \<ge> pageSize \<or> sizeOf ds \<ge> pageBytes"
  shows "cur0 < fst (last ds)"
proof (rule ccontr)
  assume "\<not> ?thesis"
  then have le: "fst (last ds) \<le> cur0" by simp
  have "sorted_wrt (<) (map fst (filter (\<lambda>d. cu < fst d) docs))"
    using src by (simp add: source_ok_def sorted_wrt_map sorted_wrt_filter)
  then have "sorted_wrt (<) (map fst ds)" unfolding assms(1) by (simp add: sorted_wrt_append)
  then have "fst d \<le> fst (last ds)" if "d \<in> set ds" for d
    using that assms(2) by (cases ds rule: rev_cases) (auto simp: sorted_wrt_append less_imp_le)
  with le have "filter (\<lambda>d. fst d \<le> cur0) ds = ds" by (fastforce simp: filter_id_conv intro: order_trans)
  moreover have "between docs cu cur0 = filter (\<lambda>d. fst d \<le> cur0) (filter (\<lambda>d. cu < fst d) docs)" by (simp add: conj_commute)
  ultimately have "between docs cu cur0 = ds @ filter (\<lambda>d. fst d \<le> cur0) es" unfolding assms(1) by simp
  with assms(3,4) show False by auto
qed

lemma tryPage_ok:
  assumes "tryPage source cuts durable fn left k cu c = (res, k', c')" "Q c cu" "R c cu" "R c cur0" "small (between docs cu cur0)"
  shows "case res of Inl x \<Rightarrow> \<exists>cur. R c' cur
    | Inr (l, n, capped) \<Rightarrow>
        if n < pageSize \<and> \<not> capped then \<exists>p. Q c' p \<and> (\<forall>d \<in> set docs. fst d \<le> p) else Q c' l \<and> R c' l \<and> cur0 < l \<and> l \<in> fst ` set docs"
  using assms
proof (induction left arbitrary: k cu c)
  case 0
  then show ?case by auto
next
  case (Suc left)
  let ?F = "filter (\<lambda>d. cu < fst d) docs"
  obtain r c1 where rp: "readPage fn (cuts k) (source cu) 0 [] 0 c = (r, c1)" by (metis surj_pair)
  have page: "source cu = take pageSize ?F" using src by (simp add: source_ok_def)
  from rp show ?case
  proof (cases rule: readPage_feed)
    case (error ds es e)
    then have F: "?F = ds @ (es @ drop pageSize ?F)" using page append_take_drop_id [of pageSize ?F] by simp
    from feed_ok [OF error(3) F Suc.prems(2,3)] feed_ok [OF error(3) F Suc.prems(2,4)] have R1: "R c1 cu" "R c1 cur0" by simp_all
    show ?thesis
    proof (cases "left = 0")
      case True
      with rp error(1) R1(1) Suc.prems(1) show ?thesis by auto
    next
      case False
      let ?cu = "if durable c1 \<noteq> [] then durable c1 else cu"
      have "small (between docs ?cu cur0)" using lag [OF R1(2)] Suc.prems(5) by simp
      with Suc.IH [of "Suc k" ?cu c1] restart [OF R1(1)] R1(2) rp error(1) False Suc.prems(1) show ?thesis by simp
    qed
  next
    case (page ds es)
    then have F: "?F = ds @ (es @ drop pageSize ?F)"
      using \<open>source cu = take pageSize ?F\<close> append_take_drop_id [of pageSize ?F] by simp
    from feed_ok [OF page(3) F Suc.prems(2,3)] have Q1: "Q c1 (if ds = [] then cu else fst (last ds))" by simp
    have res: "res = Inr (pr_last r, length ds, pr_capped r)" "c' = c1" using rp page(1,4) Suc.prems(1) by auto
    show ?thesis
    proof (cases "length ds < pageSize \<and> \<not> pr_capped r")
      case True
      with page(2,7) \<open>source cu = take pageSize ?F\<close> have all: "?F = ds" by (auto simp: take_all_iff split: if_splits)
      have sorted: "sorted_wrt (<) (map fst ?F)" using src by (simp add: source_ok_def sorted_wrt_map sorted_wrt_filter)
      have "fst d \<le> (if ds = [] then cu else fst (last ds))" if "d \<in> set docs" for d
      proof (cases "cu < fst d")
        case True
        with that have "d \<in> set ds" using all by (metis (mono_tags, lifting) filter_set mem_Collect_eq set_filter)
        then show ?thesis using sorted unfolding all by (cases ds rule: rev_cases) (auto simp: sorted_wrt_append less_imp_le)
      next
        case False
        then have "fst d \<le> cu" by simp
        moreover have "cu < fst (last ds)" if "ds \<noteq> []" using last_in_set [OF that] unfolding all [symmetric] by simp
        ultimately show ?thesis by auto
      qed
      with True Q1 res show ?thesis by auto
    next
      case False
      then have ds: "length ds \<ge> pageSize \<or> sizeOf ds \<ge> pageBytes" "ds \<noteq> []" using page(6) by auto
      with Q1 have Ql: "Q c1 (fst (last ds))" by simp
      have "last ds \<in> set ?F" using last_in_set [OF ds(2)] arg_cong [OF F, of set] by auto
      then have "fst (last ds) \<in> fst ` set docs" by simp
      note doc = this
      have "set ds \<subseteq> set docs" using arg_cong [OF F, of set] by auto
      from full [OF Suc.prems(3,2) this page(3) Ql ds(1)] page_passes [OF F ds(2) Suc.prems(5) ds(1)] Ql False res page(5) ds(2) doc
      show ?thesis by auto
    qed
  qed
qed

lemma forEachDoc_ok:
  assumes "forEachDoc source cuts durable fn fuel k cur tot c = Some ((x, y, err), c')" "Q c cur" "R c cur"
  shows "if err then \<exists>cur. R c' cur else \<exists>p. Q c' p \<and> (\<forall>d \<in> set docs. fst d \<le> p)"
  using assms
proof (induction fuel arbitrary: k cur tot c)
  case (Suc fuel)
  obtain res k1 c1 where t: "tryPage source cuts durable fn 4 k cur c = (res, k1, c1)" by (metis prod_cases3)
  have "between docs cur cur = []" by (auto simp: filter_empty_conv)
  then have gap: "small (between docs cur cur)" by simp
  note ok = tryPage_ok [OF t Suc.prems(2,3,3) gap]
  show ?case
  proof (cases res)
    case (Inl a)
    with ok t Suc.prems(1) show ?thesis by auto
  next
    case (Inr b)
    obtain l n capped where b: "b = (l, n, capped)" by (cases b)
    with ok t Suc.prems(1) Suc.IH [of k1 l "tot + n" c1] Inr show ?thesis by (auto split: if_splits)
  qed
qed simp

lemma forEachDoc_total:
  assumes "length (filter (\<lambda>d. cur < fst d) docs) < fuel" "Q c cur" "R c cur"
  shows "forEachDoc source cuts durable fn fuel k cur tot c \<noteq> None"
  using assms
proof (induction fuel arbitrary: k cur tot c)
  case (Suc fuel)
  obtain res k1 c1 where t: "tryPage source cuts durable fn 4 k cur c = (res, k1, c1)" by (metis prod_cases3)
  have "between docs cur cur = []" by (auto simp: filter_empty_conv)
  then have gap: "small (between docs cur cur)" by simp
  note ok = tryPage_ok [OF t Suc.prems(2,3,3) gap]
  show ?case
  proof (cases res)
    case (Inl a)
    with t show ?thesis by simp
  next
    case (Inr b)
    obtain l n capped where b: "b = (l, n, capped)" by (cases b)
    show ?thesis
    proof (cases "n < pageSize \<and> \<not> capped")
      case True
      with t Inr b show ?thesis by simp
    next
      case False
      with ok Inr b have l: "Q c1 l" "R c1 l" "cur < l" "l \<in> fst ` set docs" by auto
      then obtain d where d: "d \<in> set docs" "fst d = l" by auto
      have "filter (\<lambda>d. l < fst d) docs = filter (\<lambda>d. l < fst d) (filter (\<lambda>d. cur < fst d) docs)"
        using l(3) by (auto intro!: filter_cong)
      also have "length \<dots> < length (filter (\<lambda>d. cur < fst d) docs)"
        by (rule length_filter_less [of d]) (use d l(3) in auto)
      finally have "length (filter (\<lambda>d. l < fst d) docs) < fuel" using Suc.prems(1) by simp
      from Suc.IH [OF this l(1,2)] t Inr b False show ?thesis by auto
    qed
  qed
qed simp

end

section \<open>Copying loses nothing\<close>

text \<open>Import and export share their callback up to the size of a batch.\<close>

definition copyDoc :: "nat \<Rightarrow> (nat \<Rightarrow> bool) \<Rightarrow> bool \<Rightarrow> bool \<Rightarrow> copyState \<Rightarrow> snap \<Rightarrow> copyState \<times> bool" where
  "copyDoc lim commits useState dryRun c s =
     (let c1 = c\<lparr>cs_batch := cs_batch c @ [s], cs_inBatch := Suc (cs_inBatch c),
                 cs_batchedBytes := cs_batchedBytes c + dataSize s, cs_copied := Suc (cs_copied c), cs_lastInBatch := fst s\<rparr>
      in if cs_inBatch c1 \<ge> lim \<or> cs_batchedBytes c1 \<ge> batchBytes then exportFlush commits useState dryRun c1 else (c1, False))"

lemma importFlush_export: "importFlush commits useState = exportFlush commits useState False"
  by (simp add: fun_eq_iff importFlush_def exportFlush_def Let_def)

lemma importDoc_copy: "importDoc commits useState = copyDoc 100 commits useState False"
  unfolding fun_eq_iff importDoc_def copyDoc_def importFlush_export by simp

lemma exportDoc_copy: "exportDoc commits useState dryRun = copyDoc 500 commits useState dryRun"
  by (simp add: fun_eq_iff exportDoc_def copyDoc_def)

lemma commitBatch_map: "commitBatch b dst = dst ++ map_of (rev b)"
  by (induction b rule: rev_induct) (auto simp: commitBatch_def fun_eq_iff map_add_def)

lemma distinct_docs:
  fixes docs :: "snap list"
  assumes "sorted_wrt (<) (map fst docs)"
  shows "distinct (map fst docs)" "distinct docs"
proof -
  have "distinct xs" if "sorted_wrt (<) xs" for xs :: "string list" using that by (induction xs) auto
  with assms show "distinct (map fst docs)" by blast
  then show "distinct docs" by (simp add: distinct_map)
qed

lemma unique_doc:
  fixes docs :: "snap list"
  assumes "sorted_wrt (<) (map fst docs)" "d \<in> set docs" "d' \<in> set docs" "fst d = fst d'"
  shows "d = d'"
proof -
  have "inj_on fst (set docs)" using distinct_docs(1) [OF assms(1)] by (simp add: distinct_map)
  from inj_onD [OF this assms(4,2,3)] show ?thesis .
qed

lemma commitBatch_docs:
  assumes "sorted_wrt (<) (map fst docs)" "set b \<subseteq> set docs"
  shows "d \<in> set b \<Longrightarrow> commitBatch b dst (fst d) = Some (snd d)"
    and "i \<notin> fst ` set b \<Longrightarrow> commitBatch b dst i = dst i"
proof -
  assume d: "d \<in> set b"
  then obtain f where f: "map_of (rev b) (fst d) = Some f" by (metis map_of_eq_None_iff not_Some_eq imageI set_rev)
  then have "(fst d, f) \<in> set docs" using map_of_SomeD [OF f] assms(2) by auto
  moreover have "d \<in> set docs" using d assms(2) by blast
  ultimately have "d = (fst d, f)" using unique_doc [OF assms(1), of d "(fst d, f)"] by simp
  then have "snd d = f" by (metis snd_conv)
  with f show "commitBatch b dst (fst d) = Some (snd d)" by (simp add: commitBatch_map map_add_def)
next
  assume "i \<notin> fst ` set b"
  then have "map_of (rev b) i = None" by (simp add: map_of_eq_None_iff)
  then show "commitBatch b dst i = dst i" by (simp add: commitBatch_map map_add_def)
qed

text \<open>
  The invariant of a copy that started at \<open>start\<close>: the documents up to the last committed one are at the
  destination, nothing but documents of the source was written, and those behind it up to the last
  one read are in the batch.
\<close>

definition in_batch :: "snap list \<Rightarrow> string \<Rightarrow> copyState \<Rightarrow> string \<Rightarrow> bool" where
  "in_batch docs start c p \<longleftrightarrow>
     (\<forall>d \<in> set docs. start < fst d \<and> cs_lastCommitted c < fst d \<and> fst d \<le> p \<longrightarrow> d \<in> set (cs_batch c))"

definition copy_pre :: "snap list \<Rightarrow> string \<Rightarrow> (string \<rightharpoonup> Fields) \<Rightarrow> bool \<Rightarrow> bool \<Rightarrow> string option \<Rightarrow> copyState \<Rightarrow> bool" where
  "copy_pre docs start dst0 useState dryRun saved c \<longleftrightarrow>
     cs_inBatch c = length (cs_batch c) \<and> cs_batchedBytes c = sizeOf (cs_batch c) \<and>
     (\<forall>d \<in> set (cs_batch c). d \<in> set docs \<and> start < fst d) \<and>
     (cs_lastCommitted c \<noteq> [] \<longrightarrow> start < cs_lastCommitted c) \<and>
     (cs_batch c \<noteq> [] \<longrightarrow> in_batch docs start c (cs_lastInBatch c) \<and> cs_lastInBatch c \<noteq> [] \<and>
        cs_lastCommitted c < cs_lastInBatch c \<and> start < cs_lastInBatch c) \<and>
     (dryRun \<longrightarrow> cs_dst c = dst0) \<and>
     (\<not> dryRun \<longrightarrow> (\<forall>d \<in> set docs. start < fst d \<and> fst d \<le> cs_lastCommitted c \<longrightarrow> cs_dst c (fst d) = Some (snd d))) \<and>
     (\<forall>d \<in> set docs. start < fst d \<longrightarrow> cs_dst c (fst d) \<in> {dst0 (fst d), Some (snd d)}) \<and>
     (\<forall>i. (\<forall>d \<in> set docs. start < fst d \<longrightarrow> fst d \<noteq> i) \<longrightarrow> cs_dst c i = dst0 i) \<and>
     cs_stateFile c = (if useState \<and> \<not> dryRun \<and> cs_lastCommitted c \<noteq> [] then Some (cs_lastCommitted c) else saved)"

definition copy_inv :: "snap list \<Rightarrow> string \<Rightarrow> (string \<rightharpoonup> Fields) \<Rightarrow> nat \<Rightarrow> bool \<Rightarrow> bool \<Rightarrow> string option \<Rightarrow> copyState \<Rightarrow> bool" where
  "copy_inv docs start dst0 lim useState dryRun saved c \<longleftrightarrow>
     copy_pre docs start dst0 useState dryRun saved c \<and> cs_inBatch c < lim \<and> cs_batchedBytes c < batchBytes"

definition copy_at :: "snap list \<Rightarrow> string \<Rightarrow> (string \<rightharpoonup> Fields) \<Rightarrow> nat \<Rightarrow> bool \<Rightarrow> bool \<Rightarrow> string option \<Rightarrow> copyState \<Rightarrow> string \<Rightarrow> bool" where
  "copy_at docs start dst0 lim useState dryRun saved c p \<longleftrightarrow>
     copy_inv docs start dst0 lim useState dryRun saved c \<and> in_batch docs start c p \<and> cs_lastCommitted c \<le> p \<and> start \<le> p"

definition copy_resume :: "snap list \<Rightarrow> string \<Rightarrow> (string \<rightharpoonup> Fields) \<Rightarrow> nat \<Rightarrow> bool \<Rightarrow> bool \<Rightarrow> string option \<Rightarrow> copyState \<Rightarrow> string \<Rightarrow> bool" where
  "copy_resume docs start dst0 lim useState dryRun saved c cur \<longleftrightarrow>
     copy_inv docs start dst0 lim useState dryRun saved c \<and> start \<le> cur \<and> (cs_lastCommitted c = [] \<longrightarrow> cur = start) \<and>
     (cs_lastCommitted c \<noteq> [] \<longrightarrow> small (between docs (cs_lastCommitted c) cur))"

text \<open>A flush empties the batch; when it succeeds its documents are at the destination.\<close>

lemma flush_cases:
  assumes "exportFlush commits useState dryRun c = (c', e)" "cs_inBatch c > 0"
  obtains (failed) "e" "\<not> dryRun" "c' = c\<lparr>cs_commits := Suc (cs_commits c), cs_batch := [], cs_inBatch := 0, cs_batchedBytes := 0\<rparr>"
  | (flushed) "\<not> e" "cs_batch c' = []" "cs_inBatch c' = 0" "cs_batchedBytes c' = 0" "cs_lastCommitted c' = cs_lastInBatch c"
      "cs_dst c' = (if dryRun then cs_dst c else commitBatch (cs_batch c) (cs_dst c))"
      "cs_stateFile c' = (if useState \<and> \<not> dryRun then Some (cs_lastInBatch c) else cs_stateFile c)"
  using assms by (auto simp: exportFlush_def Let_def split: if_splits)

lemma flush_pre:
  assumes "sorted_wrt (<) (map fst docs)" "copy_pre docs start dst0 useState dryRun saved c" "cs_batch c \<noteq> []"
    "exportFlush commits useState dryRun c = (c', e)"
  shows "copy_pre docs start dst0 useState dryRun saved c' \<and> cs_batch c' = [] \<and>
    cs_lastCommitted c' = (if e then cs_lastCommitted c else cs_lastInBatch c) \<and>
    (\<not> e \<and> \<not> dryRun \<longrightarrow> (\<forall>d \<in> set (cs_batch c). cs_dst c' (fst d) = Some (snd d)))"
proof -
  note pre = assms(2) [unfolded copy_pre_def]
  have n: "cs_inBatch c > 0" using pre assms(3) by simp
  have sub: "set (cs_batch c) \<subseteq> set docs" using pre by blast
  from assms(4) n show ?thesis
  proof (cases rule: flush_cases)
    case failed
    then show ?thesis using pre by (simp add: copy_pre_def)
  next
    case flushed
    let ?dst = "commitBatch (cs_batch c) (cs_dst c)"
    have val: "?dst (fst d) = (if d \<in> set (cs_batch c) then Some (snd d) else cs_dst c (fst d))" if "d \<in> set docs" for d
    proof (cases "d \<in> set (cs_batch c)")
      case True
      then show ?thesis using commitBatch_docs(1) [OF assms(1) sub] by simp
    next
      case False
      then have "fst d \<notin> fst ` set (cs_batch c)" using unique_doc [OF assms(1) that] sub by blast
      then show ?thesis using False commitBatch_docs(2) [OF assms(1) sub] by simp
    qed
    have other: "?dst i = dst0 i" if "\<forall>d \<in> set docs. start < fst d \<longrightarrow> fst d \<noteq> i" for i
    proof -
      have "i \<notin> fst ` set (cs_batch c)" using that pre by blast
      then show ?thesis using commitBatch_docs(2) [OF assms(1) sub] pre that by simp
    qed
    have committed: "?dst (fst d) = Some (snd d)" if "\<not> dryRun" "d \<in> set docs" "start < fst d" "fst d \<le> cs_lastInBatch c" for d
      using that pre assms(3) val [OF that(2)] unfolding in_batch_def by (cases "cs_lastCommitted c < fst d") (auto simp: not_less)
    have "copy_pre docs start dst0 useState dryRun saved c'"
      unfolding copy_pre_def
      using flushed pre assms(3) val other committed by (cases dryRun) (simp_all split: if_splits)
    with flushed commitBatch_docs(1) [OF assms(1) sub] show ?thesis by simp
  qed
qed

lemma copyDoc_ok:
  assumes docs: "sorted_wrt (<) (map fst docs)" "[] \<notin> fst ` set docs" and lim: "0 < lim"
    and at: "copy_at docs start dst0 lim useState dryRun saved c p"
    and d: "d \<in> set docs" "p < fst d" "between docs p (fst d) = [d]"
    and fn: "copyDoc lim commits useState dryRun c d = (c', e)"
  shows "copy_inv docs start dst0 lim useState dryRun saved c' \<and>
    (cs_lastCommitted c' = cs_lastCommitted c \<or> cs_lastCommitted c' = fst d) \<and>
    (\<not> e \<longrightarrow> in_batch docs start c' (fst d)) \<and> (\<not> e \<and> cs_lastCommitted c' = [] \<longrightarrow> cs_batch c' = cs_batch c @ [d])"
proof -
  let ?c = "c\<lparr>cs_batch := cs_batch c @ [d], cs_inBatch := Suc (cs_inBatch c),
     cs_batchedBytes := cs_batchedBytes c + dataSize d, cs_copied := Suc (cs_copied c), cs_lastInBatch := fst d\<rparr>"
  have pos: "copy_pre docs start dst0 useState dryRun saved c" "in_batch docs start c p" "cs_lastCommitted c \<le> p" "start \<le> p"
    using at by (simp_all add: copy_at_def copy_inv_def)
  have ne: "fst d \<noteq> []" using d(1) docs(2) by force
  have "x = d" if "x \<in> set docs" "p < fst x" "fst x \<le> fst d" for x
  proof -
    have "x \<in> set (between docs p (fst d))" using that by simp
    then show ?thesis unfolding d(3) by simp
  qed
  then have batch: "in_batch docs start ?c (fst d)"
    using pos(2) unfolding in_batch_def by (auto simp: not_less [symmetric])
  have pre: "copy_pre docs start dst0 useState dryRun saved ?c"
    using pos(1) batch d(1,2) pos(3,4) ne unfolding copy_pre_def by (simp add: le_less_trans)
  show ?thesis
  proof (cases "cs_inBatch ?c \<ge> lim \<or> cs_batchedBytes ?c \<ge> batchBytes")
    case False
    with fn have "c' = ?c" "\<not> e" by (simp_all add: copyDoc_def Let_def)
    with pre batch False show ?thesis by (simp add: copy_inv_def)
  next
    case True
    with fn have fl: "exportFlush commits useState dryRun ?c = (c', e)" by (simp add: copyDoc_def Let_def)
    from flush_pre [OF docs(1) pre _ fl] have post: "copy_pre docs start dst0 useState dryRun saved c'" "cs_batch c' = []"
      "cs_lastCommitted c' = (if e then cs_lastCommitted c else fst d)" by simp_all
    then have "cs_inBatch c' = 0" "cs_batchedBytes c' = 0" by (simp_all add: copy_pre_def)
    with post lim ne show ?thesis by (auto simp: copy_inv_def in_batch_def)
  qed
qed

text \<open>Documents with distinct ids, in order, and the pages of their query.\<close>

definition collectionOf :: "snap list \<Rightarrow> snap list" where
  "collectionOf xs = map (\<lambda>i. (i, the (map_of xs i))) (sorted_list_of_set (fst ` set xs - {[]}))"

definition queryAfter :: "snap list \<Rightarrow> string \<Rightarrow> snap list" where
  "queryAfter xs cursor = take pageSize (filter (\<lambda>d. cursor < fst d) (collectionOf xs))"

lemma collection_source: "source_ok (collectionOf xs) (queryAfter xs)"
proof -
  have "map fst (collectionOf xs) = sorted_list_of_set (fst ` set xs - {[]})" by (simp add: collectionOf_def comp_def)
  moreover have "sorted_wrt (<) (sorted_list_of_set A)" if "finite A" for A :: "string set"
    using that by (simp add: strict_sorted_iff)
  ultimately have "sorted_wrt (<) (map fst (collectionOf xs))" by simp
  moreover have "[] \<notin> fst ` set (collectionOf xs)" by (auto simp: collectionOf_def)
  ultimately show ?thesis by (simp add: source_ok_def queryAfter_def)
qed

lemma collectionOf_id:
  assumes "source_ok docs source"
  shows "collectionOf docs = docs" "source = queryAfter docs"
proof -
  have s: "sorted_wrt (<) (map fst docs)" "[] \<notin> fst ` set docs" using assms by (simp_all add: source_ok_def)
  have "sorted (map fst docs) \<and> distinct (map fst docs)" using s(1) by (metis strict_sorted_iff)
  then have "sorted_list_of_set (set (map fst docs)) = map fst docs" by (metis sorted_list_of_set.idem_if_sorted_distinct)
  moreover have "fst ` set docs - {[]} = set (map fst docs)" using s(2) by auto
  moreover have "map (\<lambda>d. (fst d, the (map_of docs (fst d)))) docs = docs"
    using \<open>sorted (map fst docs) \<and> distinct (map fst docs)\<close> by (auto intro!: map_idI simp: prod_eq_iff)
  ultimately show "collectionOf docs = docs" by (simp add: collectionOf_def comp_def)
  with assms show "source = queryAfter docs" by (simp add: source_ok_def queryAfter_def fun_eq_iff)
qed

lemma distinct_size:
  assumes "distinct xs" "set xs \<subseteq> set ys"
  shows "length xs \<le> length ys \<and> sizeOf xs \<le> sizeOf ys"
proof -
  have "mset xs = mset_set (set xs)" using assms(1) by (simp add: mset_set_set)
  also have "\<dots> \<subseteq># mset_set (set_mset (mset ys))" using assms(2) by (simp add: subset_imp_msubset_mset_set)
  also have "\<dots> \<subseteq># mset ys" by (rule mset_set_set_mset_msubset)
  finally have "mset xs \<subseteq># mset ys" .
  then obtain m where m: "mset ys = mset xs + m" by (auto simp: mset_subset_eq_exists_conv)
  have "length ys = length xs + size m" using arg_cong [OF m, of size] by simp
  moreover have "sizeOf ys = sizeOf xs + sum_mset (image_mset dataSize m)"
    using arg_cong [OF m, of "\<lambda>x. sum_mset (image_mset dataSize x)"] by (simp flip: mset_map sum_mset_sum_list)
  ultimately show ?thesis by simp
qed

lemma feed_batch:
  assumes "feedAll (copyDoc lim commits useState dryRun) c ds = (c', False)" "cs_lastCommitted c' = []" "[] \<notin> fst ` set ds"
    "cs_inBatch c = length (cs_batch c)"
  shows "cs_lastCommitted c = [] \<and> cs_batch c' = cs_batch c @ ds"
  using assms
proof (induction ds arbitrary: c)
  case (Cons d ds)
  let ?c = "c\<lparr>cs_batch := cs_batch c @ [d], cs_inBatch := Suc (cs_inBatch c),
     cs_batchedBytes := cs_batchedBytes c + dataSize d, cs_copied := Suc (cs_copied c), cs_lastInBatch := fst d\<rparr>"
  obtain c1 where c1: "copyDoc lim commits useState dryRun c d = (c1, False)" "feedAll (copyDoc lim commits useState dryRun) c1 ds = (c', False)"
    using Cons.prems(1) by (auto split: prod.splits bool.splits)
  show ?case
  proof (cases "cs_inBatch ?c \<ge> lim \<or> cs_batchedBytes ?c \<ge> batchBytes")
    case False
    with c1(1) have "c1 = ?c" by (auto simp: copyDoc_def Let_def)
    with Cons.IH [OF c1(2) Cons.prems(2)] Cons.prems(3,4) show ?thesis by simp
  next
    case True
    with c1(1) have "exportFlush commits useState dryRun ?c = (c1, False)" by (simp add: copyDoc_def Let_def)
    then have "cs_lastCommitted c1 = fst d" "cs_inBatch c1 = length (cs_batch c1)"
      by (rule flush_cases; simp)+
    with Cons.IH [OF c1(2) Cons.prems(2)] Cons.prems(3) show ?thesis by force
  qed
qed simp

lemma copy_consumer:
  assumes "0 < lim" "lim \<le> pageSize"
  shows "page_consumer (collectionOf xs) (queryAfter xs) cs_lastCommitted (copyDoc lim commits useState dryRun)
    (copy_at (collectionOf xs) start dst0 lim useState dryRun saved) (copy_resume (collectionOf xs) start dst0 lim useState dryRun saved)"
proof -
  let ?docs = "collectionOf xs"
  let ?Q = "copy_at ?docs start dst0 lim useState dryRun saved" and ?R = "copy_resume ?docs start dst0 lim useState dryRun saved"
  have docs: "sorted_wrt (<) (map fst ?docs)" "[] \<notin> fst ` set ?docs" using collection_source [of xs] by (simp_all add: source_ok_def)
  note one = copyDoc_ok [OF docs assms(1)]
  show ?thesis
  proof
    show "source_ok ?docs (queryAfter xs)" by (rule collection_source)
  next
    fix c p d c'
    assume a: "?Q c p" "d \<in> set ?docs" "p < fst d" "between ?docs p (fst d) = [d]" "copyDoc lim commits useState dryRun c d = (c', False)"
    from one [OF a] a(1,3) show "?Q c' (fst d)" by (auto simp: copy_at_def)
  next
    fix c p d c' e cur
    assume a: "?Q c p" "d \<in> set ?docs" "p < fst d" "between ?docs p (fst d) = [d]" "copyDoc lim commits useState dryRun c d = (c', e)" and R: "?R c cur"
    have LC: "cs_lastCommitted c < fst d" "start < fst d" using a(1,3) by (auto simp: copy_at_def)
    have inv: "copy_inv ?docs start dst0 lim useState dryRun saved c'" "cs_lastCommitted c' = cs_lastCommitted c \<or> cs_lastCommitted c' = fst d"
      using one [OF a] by simp_all
    have "fst d \<noteq> []" using a(2) docs(2) by force
    moreover have "small (between ?docs (fst d) cur)"
    proof (cases "cs_lastCommitted c = []")
      case True
      with R LC(2) have "between ?docs (fst d) cur = []" by (fastforce simp: copy_resume_def filter_empty_conv)
      then show ?thesis by simp
    next
      case False
      have "distinct (between ?docs (fst d) cur)"
        using distinct_docs(2) [OF docs(1)] by simp
      moreover have "set (between ?docs (fst d) cur) \<subseteq> set (between ?docs (cs_lastCommitted c) cur)" using LC(1) by auto
      ultimately have "length (between ?docs (fst d) cur) \<le> length (between ?docs (cs_lastCommitted c) cur) \<and>
          sizeOf (between ?docs (fst d) cur) \<le> sizeOf (between ?docs (cs_lastCommitted c) cur)" by (rule distinct_size)
      moreover have "small (between ?docs (cs_lastCommitted c) cur)" using R False by (simp add: copy_resume_def)
      ultimately show ?thesis by linarith
    qed
    ultimately show "?R c' cur" using inv R by (auto simp: copy_resume_def)
  next
    fix c cur assume R: "?R c cur"
    let ?cur = "if cs_lastCommitted c \<noteq> [] then cs_lastCommitted c else cur"
    have none: "between ?docs ?cur ?cur = []" by (auto simp: filter_empty_conv)
    show "?Q c ?cur \<and> ?R c ?cur"
    proof (cases "cs_lastCommitted c = []")
      case True
      with R show ?thesis by (auto simp: copy_at_def copy_resume_def in_batch_def)
    next
      case False
      with R have "start < cs_lastCommitted c" by (simp add: copy_resume_def copy_inv_def copy_pre_def)
      with R False none show ?thesis by (auto simp: copy_at_def copy_resume_def in_batch_def)
    qed
  next
    fix c cur assume "?R c cur" "cs_lastCommitted c \<noteq> []"
    then show "small (between ?docs (cs_lastCommitted c) cur)" by (simp add: copy_resume_def)
  next
    fix c cur ds c' p
    assume a: "?R c cur" "?Q c cur" "set ds \<subseteq> set ?docs" "feedAll (copyDoc lim commits useState dryRun) c ds = (c', False)" "?Q c' p"
      "length ds \<ge> pageSize \<or> sizeOf ds \<ge> pageBytes"
    have inv: "cs_inBatch c' = length (cs_batch c')" "cs_batchedBytes c' = sizeOf (cs_batch c')" "length (cs_batch c') < lim" "sizeOf (cs_batch c') < batchBytes"
      "cs_inBatch c = length (cs_batch c)"
      using a(1,5) by (simp_all add: copy_at_def copy_resume_def copy_inv_def copy_pre_def)
    have ne: "cs_lastCommitted c' \<noteq> []"
    proof
      assume "cs_lastCommitted c' = []"
      moreover have "[] \<notin> fst ` set ds" using a(3) docs(2) by blast
      ultimately have "cs_batch c' = cs_batch c @ ds" using feed_batch [OF a(4) _ _ inv(5)] by simp
      with inv a(6) assms(2) show False by auto
    qed
    have "distinct (between ?docs (cs_lastCommitted c') p)"
      using distinct_docs(2) [OF docs(1)] by simp
    moreover have "start < cs_lastCommitted c'" using a(5) ne by (simp add: copy_at_def copy_inv_def copy_pre_def)
    then have "set (between ?docs (cs_lastCommitted c') p) \<subseteq> set (cs_batch c')"
      using a(5) by (auto simp: copy_at_def in_batch_def)
    ultimately have "length (between ?docs (cs_lastCommitted c') p) \<le> length (cs_batch c') \<and>
        sizeOf (between ?docs (cs_lastCommitted c') p) \<le> sizeOf (cs_batch c')" by (rule distinct_size)
    then have "small (between ?docs (cs_lastCommitted c') p)" using inv(3,4) assms(2) by linarith
    with a(5) ne show "?R c' p" by (simp add: copy_at_def copy_resume_def)
  qed
qed

interpretation importing: page_consumer "collectionOf xs" "queryAfter xs" cs_lastCommitted "copyDoc 100 commits useState dryRun"
    "copy_at (collectionOf xs) start dst0 100 useState dryRun saved" "copy_resume (collectionOf xs) start dst0 100 useState dryRun saved"
  for xs commits useState dryRun start dst0 saved
  by (rule copy_consumer) simp_all

interpretation exporting: page_consumer "collectionOf xs" "queryAfter xs" cs_lastCommitted "copyDoc 500 commits useState dryRun"
    "copy_at (collectionOf xs) start dst0 500 useState dryRun saved" "copy_resume (collectionOf xs) start dst0 500 useState dryRun saved"
  for xs commits useState dryRun start dst0 saved
  by (rule copy_consumer) simp_all

text \<open>What a copy leaves at the destination, and what a failed one leaves for the next.\<close>

definition copied :: "snap list \<Rightarrow> string \<Rightarrow> (string \<rightharpoonup> Fields) \<Rightarrow> string \<rightharpoonup> Fields" where
  "copied docs start dst0 i = (case map_of docs i of Some f \<Rightarrow> if start < i then Some f else dst0 i | None \<Rightarrow> dst0 i)"

definition resumable :: "snap list \<Rightarrow> string \<Rightarrow> (string \<rightharpoonup> Fields) \<Rightarrow> bool \<Rightarrow> string option \<Rightarrow> copyState \<Rightarrow> bool" where
  "resumable docs start dst0 useState saved c \<longleftrightarrow>
     (\<forall>i. cs_dst c i \<in> {dst0 i, copied docs start dst0 i}) \<and>
     (\<forall>i. i \<le> cs_lastCommitted c \<longrightarrow> cs_dst c i = copied docs start dst0 i) \<and>
     cs_stateFile c = (if useState \<and> cs_lastCommitted c \<noteq> [] then Some (cs_lastCommitted c) else saved)"

lemma copy_start:
  assumes "0 < lim"
  shows "copy_at docs start dst lim useState dryRun saved (newCopy saved dst) start"
    and "copy_resume docs start dst lim useState dryRun saved (newCopy saved dst) start"
  using assms by (auto simp: copy_at_def copy_resume_def copy_inv_def copy_pre_def in_batch_def newCopy_def)

lemma copied_cases:
  assumes "sorted_wrt (<) (map fst docs)"
  obtains (doc) d where "d \<in> set docs" "start < fst d" "fst d = i" "copied docs start dst0 i = Some (snd d)"
  | (other) "\<And>d. d \<in> set docs \<Longrightarrow> start < fst d \<Longrightarrow> fst d \<noteq> i" "copied docs start dst0 i = dst0 i"
proof (cases "\<exists>d \<in> set docs. start < fst d \<and> fst d = i")
  case True
  then obtain d where d: "d \<in> set docs" "start < fst d" "fst d = i" by blast
  then have "map_of docs i = Some (snd d)" using distinct_docs(1) [OF assms] by (metis map_of_is_SomeI prod.collapse)
  with d doc show thesis by (simp add: copied_def)
next
  case False
  have "copied docs start dst0 i = dst0 i"
    using False map_of_SomeD [of docs i] by (fastforce simp: copied_def split: option.split)
  with False other show thesis by blast
qed

lemma copy_complete:
  assumes docs: "sorted_wrt (<) (map fst docs)" and at: "copy_at docs start dst0 lim useState False saved c p" "\<forall>d \<in> set docs. fst d \<le> p"
    and fl: "exportFlush commits useState False c = (c', False)"
  shows "cs_dst c' = copied docs start dst0"
proof
  fix i
  have pre: "copy_pre docs start dst0 useState False saved c" "in_batch docs start c p" using at(1) by (simp_all add: copy_at_def copy_inv_def)
  have val: "cs_dst c' (fst d) = Some (snd d)" if d: "d \<in> set docs" "start < fst d" for d
  proof (cases "cs_batch c = []")
    case True
    then have "c' = c" "\<not> cs_lastCommitted c < fst d"
      using fl pre d at(2) by (auto simp: exportFlush_def copy_pre_def in_batch_def)
    with pre(1) d show ?thesis by (auto simp: copy_pre_def not_less)
  next
    case False
    from flush_pre [OF docs pre(1) False fl]
    have post: "copy_pre docs start dst0 useState False saved c'" "\<forall>d \<in> set (cs_batch c). cs_dst c' (fst d) = Some (snd d)" "cs_lastCommitted c' = cs_lastInBatch c" by simp_all
    have "cs_lastCommitted c < cs_lastInBatch c" using pre(1) False by (simp add: copy_pre_def)
    with post pre(2) d at(2) show ?thesis
      by (cases "cs_lastCommitted c < fst d") (auto simp: in_batch_def copy_pre_def not_less)
  qed
  have "copy_pre docs start dst0 useState False saved c'"
    using flush_pre [OF docs pre(1) _ fl] fl pre(1) by (cases "cs_batch c = []") (auto simp: exportFlush_def copy_pre_def)
  then have other: "cs_dst c' i = dst0 i" if "\<And>d. d \<in> set docs \<Longrightarrow> start < fst d \<Longrightarrow> fst d \<noteq> i" using that by (auto simp: copy_pre_def)
  show "cs_dst c' i = copied docs start dst0 i"
    using docs by (rule copied_cases [where start = start and i = i and ?dst0.0 = dst0]) (use val other in auto)
qed

lemma copy_interrupted:
  assumes docs: "sorted_wrt (<) (map fst docs)" and pre: "copy_pre docs start dst0 useState False saved c"
    and fl: "exportFlush commits useState False c = (c', e)"
  shows "resumable docs start dst0 useState saved c'"
proof -
  have post: "copy_pre docs start dst0 useState False saved c'"
    using flush_pre [OF docs pre _ fl] fl pre by (cases "cs_batch c = []") (auto simp: exportFlush_def copy_pre_def)
  have "cs_dst c' i \<in> {dst0 i, copied docs start dst0 i} \<and> (i \<le> cs_lastCommitted c' \<longrightarrow> cs_dst c' i = copied docs start dst0 i)" for i
    using docs by (rule copied_cases [where start = start and i = i and ?dst0.0 = dst0]) (use post in \<open>auto simp: copy_pre_def\<close>)
  with post show ?thesis by (simp add: resumable_def copy_pre_def)
qed

lemma copy_run_outcome:
  assumes "sorted_wrt (<) (map fst docs)" "exportFlush commits useState False c = (c', e)"
    and "if err then \<exists>cur. copy_resume docs start dst lim useState False saved c cur
      else \<exists>p. copy_at docs start dst lim useState False saved c p \<and> (\<forall>d \<in> set docs. fst d \<le> p)"
  shows "(\<not> err \<and> \<not> e \<longrightarrow> cs_dst c' = copied docs start dst) \<and> resumable docs start dst useState saved c'"
proof -
  have "copy_pre docs start dst useState False saved c"
    using assms(3) by (auto simp: copy_at_def copy_resume_def copy_inv_def split: if_splits)
  from copy_interrupted [OF assms(1) this assms(2)] have "resumable docs start dst useState saved c'" .
  moreover have "cs_dst c' = copied docs start dst" if ok: "\<not> err" "\<not> e"
  proof -
    obtain p where p: "copy_at docs start dst lim useState False saved c p" "\<forall>d \<in> set docs. fst d \<le> p" using assms(3) ok(1) by auto
    have "exportFlush commits useState False c = (c', False)" using assms(2) ok(2) by simp
    from copy_complete [OF assms(1) p this] show ?thesis .
  qed
  ultimately show ?thesis by simp
qed

lemma import_outcome:
  assumes "source_ok docs source"
  shows "case runImport source cuts commits fuel resumeAfter useState saved dst of
      None \<Rightarrow> fuel \<le> length docs
    | Some (c, ok) \<Rightarrow>
        (ok \<longrightarrow> cs_dst c = copied docs (startCursor resumeAfter useState saved) dst) \<and>
        resumable docs (startCursor resumeAfter useState saved) dst useState saved c"
proof -
  let ?start = "startCursor resumeAfter useState saved"
  note src = collectionOf_id [OF assms]
  have sorted: "sorted_wrt (<) (map fst docs)" using assms by (simp add: source_ok_def)
  let ?run = "forEachDoc source cuts cs_lastCommitted (copyDoc 100 commits useState False) fuel 0 ?start 0 (newCopy saved dst)"
  note start = copy_start [of 100 docs ?start dst useState False saved]
  show ?thesis
  proof (cases ?run)
    case None
    have "length (filter (\<lambda>d. ?start < fst d) docs) \<le> length docs" by simp
    with None importing.forEachDoc_total [where xs = docs, unfolded src(1) src(2) [symmetric], of ?start fuel] start
    have "fuel \<le> length docs" by (meson le_less_trans not_less zero_less_numeral)
    with None show ?thesis by (simp add: runImport_def importDoc_copy)
  next
    case (Some r)
    obtain x y err c where r: "r = ((x, y, err), c)" by (metis prod_cases3 surj_pair)
    from importing.forEachDoc_ok [where xs = docs, unfolded src(1) src(2) [symmetric], OF Some [unfolded r]] start
    have ok: "if err then \<exists>cur. copy_resume docs ?start dst 100 useState False saved c cur
      else \<exists>p. copy_at docs ?start dst 100 useState False saved c p \<and> (\<forall>d \<in> set docs. fst d \<le> p)" by simp
    obtain c' e where fl: "exportFlush commits useState False c = (c', e)" by (metis surj_pair)
    from copy_run_outcome [OF sorted fl ok] Some r fl show ?thesis
      by (cases err) (simp_all add: runImport_def importDoc_copy importFlush_export)
  qed
qed

lemma export_outcome:
  assumes "source_ok docs source"
  shows "case runExport source cuts commits fuel resumeAfter useState dryRun saved dst of
      None \<Rightarrow> fuel \<le> length docs
    | Some (c, ok) \<Rightarrow>
        if dryRun then cs_dst c = dst \<and> cs_stateFile c = saved
        else (ok \<longrightarrow> cs_dst c = copied docs (startCursor resumeAfter useState saved) dst) \<and>
          resumable docs (startCursor resumeAfter useState saved) dst useState saved c"
proof -
  let ?start = "startCursor resumeAfter useState saved"
  note src = collectionOf_id [OF assms]
  have sorted: "sorted_wrt (<) (map fst docs)" using assms by (simp add: source_ok_def)
  let ?run = "forEachDoc source cuts cs_lastCommitted (copyDoc 500 commits useState dryRun) fuel 0 ?start 0 (newCopy saved dst)"
  note start = copy_start [of 500 docs ?start dst useState dryRun saved]
  show ?thesis
  proof (cases ?run)
    case None
    have "length (filter (\<lambda>d. ?start < fst d) docs) \<le> length docs" by simp
    with None exporting.forEachDoc_total [where xs = docs, unfolded src(1) src(2) [symmetric], of ?start fuel] start
    have "fuel \<le> length docs" by (meson le_less_trans not_less zero_less_numeral)
    with None show ?thesis by (simp add: runExport_def exportDoc_copy)
  next
    case (Some r)
    obtain x y err c where r: "r = ((x, y, err), c)" by (metis prod_cases3 surj_pair)
    from exporting.forEachDoc_ok [where xs = docs, unfolded src(1) src(2) [symmetric], OF Some [unfolded r]] start
    have ok: "if err then \<exists>cur. copy_resume docs ?start dst 500 useState dryRun saved c cur
      else \<exists>p. copy_at docs ?start dst 500 useState dryRun saved c p \<and> (\<forall>d \<in> set docs. fst d \<le> p)" by simp
    then have pre: "copy_pre docs ?start dst useState dryRun saved c"
      by (auto simp: copy_at_def copy_resume_def copy_inv_def split: if_splits)
    obtain c' e where fl: "exportFlush commits useState dryRun c = (c', e)" by (metis surj_pair)
    have res: "runExport source cuts commits fuel resumeAfter useState dryRun saved dst = Some (c', \<not> err \<and> \<not> e)"
      using Some r fl by (cases err) (simp_all add: runExport_def exportDoc_copy)
    show ?thesis
    proof (cases dryRun)
      case True
      have "cs_dst c' = cs_dst c \<and> cs_stateFile c' = cs_stateFile c" using fl True by (auto simp: exportFlush_def Let_def split: if_splits)
      moreover have "cs_dst c = dst \<and> cs_stateFile c = saved" using pre True by (simp add: copy_pre_def)
      ultimately show ?thesis using True res by simp
    next
      case False
      then have eq: "dryRun = False" by simp
      from copy_run_outcome [OF sorted fl [unfolded eq] ok [unfolded eq]] res eq show ?thesis by simp
    qed
  qed
qed

section \<open>Lists of identifiers\<close>

text \<open>The ids of a file, one per line, and the copy of those documents in groups of a hundred.\<close>

definition parseIDs :: "string \<Rightarrow> string list" where
  "parseIDs raw = filter (\<lambda>i. i \<noteq> []) (map TrimSpace (splitOn (CHR 0x0A) raw))"

text \<open>
  \<open>src\<close> is the document an id has at the source; a failing commit ends the program. The result has
  the destination, the numbers of copied and of missing documents, and whether the run succeeded.
\<close>

definition foundDocs :: "(string \<rightharpoonup> Fields) \<Rightarrow> string list \<Rightarrow> snap list" where
  "foundDocs src ids = List.map_filter (\<lambda>i. map_option (\<lambda>f. (i, f)) (src i)) ids"

definition missingDocs :: "(string \<rightharpoonup> Fields) \<Rightarrow> string list \<Rightarrow> nat" where
  "missingDocs src ids = length (filter (\<lambda>i. src i = None) ids)"

function importIDs :: "(string \<rightharpoonup> Fields) \<Rightarrow> (nat \<Rightarrow> bool) \<Rightarrow> nat \<Rightarrow> string list \<Rightarrow> nat \<Rightarrow> nat \<Rightarrow> (string \<rightharpoonup> Fields) \<Rightarrow>
    (string \<rightharpoonup> Fields) \<times> nat \<times> nat \<times> bool" where
  "importIDs src commits k refs cp missing dst =
     (if refs = [] then (dst, cp, missing, True)
      else let batch = foundDocs src (take 100 refs);
               missing' = missing + missingDocs src (take 100 refs)
           in if batch = [] then importIDs src commits k (drop 100 refs) cp missing' dst
              else if \<not> commits k then (dst, cp, missing', False)
              else importIDs src commits (Suc k) (drop 100 refs) (cp + length batch) missing' (commitBatch batch dst))"
  by pat_completeness auto
termination
  by (relation "measure (\<lambda>(src, commits, k, refs, cp, missing, dst). length refs)") auto

declare importIDs.simps [simp del]

function exportIDs :: "(string \<rightharpoonup> Fields) \<Rightarrow> (nat \<Rightarrow> bool) \<Rightarrow> bool \<Rightarrow> nat \<Rightarrow> string list \<Rightarrow> nat \<Rightarrow> nat \<Rightarrow> (string \<rightharpoonup> Fields) \<Rightarrow>
    (string \<rightharpoonup> Fields) \<times> nat \<times> nat \<times> bool" where
  "exportIDs src commits dryRun k refs cp missing dst =
     (if refs = [] then (dst, cp, missing, True)
      else let batch = foundDocs src (take 100 refs);
               missing' = missing + missingDocs src (take 100 refs)
           in if batch \<noteq> [] \<and> \<not> dryRun then
                if \<not> commits k then (dst, cp, missing', False)
                else exportIDs src commits dryRun (Suc k) (drop 100 refs) (cp + length batch) missing' (commitBatch batch dst)
              else exportIDs src commits dryRun k (drop 100 refs) (cp + length batch) missing' dst)"
  by pat_completeness auto
termination
  by (relation "measure (\<lambda>(src, commits, dryRun, k, refs, cp, missing, dst). length refs)") auto

declare exportIDs.simps [simp del]

lemma importIDs_export: "importIDs src commits k refs cp missing dst = exportIDs src commits False k refs cp missing dst"
proof (induction src commits k refs cp missing dst rule: importIDs.induct)
  case (1 src commits k refs cp missing dst)
  then show ?case
    by (cases "refs = []"; cases "foundDocs src (take 100 refs) = []"; cases "commits k")
       (simp_all add: importIDs.simps [of src commits k] exportIDs.simps [of src commits False k refs] exportIDs.simps [of _ _ _ _ "[]"] Let_def)
qed

definition idsCopied :: "(string \<rightharpoonup> Fields) \<Rightarrow> string list \<Rightarrow> (string \<rightharpoonup> Fields) \<Rightarrow> string \<rightharpoonup> Fields" where
  "idsCopied src refs dst i = (if i \<in> set refs \<and> src i \<noteq> None then src i else dst i)"

lemma commitBatch_ids: "commitBatch (foundDocs src ids) dst = idsCopied src ids dst"
proof (induction ids arbitrary: dst)
  case (Cons i ids)
  then show ?case by (cases "src i") (auto simp: foundDocs_def map_filter_simps commitBatch_def idsCopied_def fun_eq_iff)
qed (simp add: foundDocs_def map_filter_simps commitBatch_def idsCopied_def fun_eq_iff)

lemma idsCopied_append: "idsCopied src (xs @ ys) dst = idsCopied src ys (idsCopied src xs dst)"
  by (auto simp: idsCopied_def fun_eq_iff)

lemma found_missing: "length (foundDocs src ids) + missingDocs src ids = length ids"
  by (induction ids) (auto simp: foundDocs_def missingDocs_def map_filter_simps split: option.split)

lemma exportIDs_spec:
  assumes "exportIDs src commits dryRun k refs cp missing dst = (dst', cp', missing', True)"
  shows "dst' = (if dryRun then dst else idsCopied src refs dst) \<and> cp' + missing' = cp + missing + length refs"
  using assms
proof (induction src commits dryRun k refs cp missing dst rule: exportIDs.induct)
  case (1 src commits dryRun k refs cp missing dst)
  note run = 1(3) [unfolded exportIDs.simps [of src commits dryRun k refs] Let_def]
  show ?case
  proof (cases "refs = []")
    case True
    with run show ?thesis by (auto simp: idsCopied_def fun_eq_iff)
  next
    case False
    let ?batch = "foundDocs src (take 100 refs)" and ?m = "missing + missingDocs src (take 100 refs)"
    have len: "length ?batch + missingDocs src (take 100 refs) + length (drop 100 refs) = length refs"
      using found_missing [of src "take 100 refs"] by simp
    have split: "idsCopied src (drop 100 refs) (idsCopied src (take 100 refs) dst) = idsCopied src refs dst"
      by (simp flip: idsCopied_append)
    show ?thesis
    proof (cases "?batch \<noteq> [] \<and> \<not> dryRun")
      case True
      with run False have c: "\<not> \<not> commits k" by (auto split: if_splits)
      have e: "exportIDs src commits dryRun (Suc k) (drop 100 refs) (cp + length ?batch) ?m (commitBatch ?batch dst) = (dst', cp', missing', True)"
        using run False True c by auto
      from 1(1) [OF False refl refl True c e] True split len show ?thesis by (simp add: commitBatch_ids)
    next
      case skip: False
      then have e: "exportIDs src commits dryRun k (drop 100 refs) (cp + length ?batch) ?m dst = (dst', cp', missing', True)"
        using run False by auto
      have "idsCopied src (take 100 refs) dst = dst" if "\<not> dryRun"
        using skip that commitBatch_ids [of src "take 100 refs" dst] by (simp add: commitBatch_def)
      with 1(2) [OF False refl refl skip e] split len show ?thesis by auto
    qed
  qed
qed

section \<open>Properties of copying\<close>

text \<open>
  C11: an import that reports success has copied the collection exactly: every document behind the start
  is at the destination as the source has it, and nothing else has changed there, whichever page
  streams broke and whichever commits failed on the way. An import that gives up has written only
  documents of the source, has copied all of them up to its last commit, and the state file names
  that commit, so that resuming there loses nothing.
\<close>
theorem import_exact:
  assumes "source_ok docs source" "runImport source cuts commits fuel resumeAfter useState saved dst = Some (c, ok)"
  shows "(ok \<longrightarrow> cs_dst c = copied docs (startCursor resumeAfter useState saved) dst) \<and>
    resumable docs (startCursor resumeAfter useState saved) dst useState saved c"
  using import_outcome [OF assms(1), of fuel resumeAfter useState saved dst cuts commits] assms(2) by simp

text \<open>
  C33: an import ends whatever fails: pages go forward even though a retry resumes at the last commit,
  because a batch is smaller than a page in documents and in bytes; as many pages as documents are
  enough.
\<close>
theorem import_terminates:
  assumes "source_ok docs source" "length docs < fuel"
  shows "\<exists>c ok. runImport source cuts commits fuel resumeAfter useState saved dst = Some (c, ok)"
  using import_outcome [OF assms(1), of fuel resumeAfter useState saved dst cuts commits] assms(2)
  by (auto split: option.splits)

text \<open>
  C34: an export does the same in the other direction, and a dry run leaves destination and state file as
  they were.
\<close>
theorem export_exact:
  assumes "source_ok docs source" "length docs < fuel"
  shows "\<exists>c ok. runExport source cuts commits fuel resumeAfter useState dryRun saved dst = Some (c, ok) \<and>
    (if dryRun then cs_dst c = dst \<and> cs_stateFile c = saved
     else (ok \<longrightarrow> cs_dst c = copied docs (startCursor resumeAfter useState saved) dst) \<and>
       resumable docs (startCursor resumeAfter useState saved) dst useState saved c)"
  using export_outcome [OF assms(1), of fuel dryRun dst saved resumeAfter useState cuts commits] assms(2)
  by (cases dryRun; auto split: option.splits)

text \<open>
  Copying a list of ids that succeeds sets exactly the listed documents that exist at the source,
  and counts each id as copied or as missing; a dry run only counts.
\<close>
theorem copy_ids_exact:
  assumes "exportIDs src commits dryRun k refs 0 0 dst = (dst', cp, missing, True)"
  shows "dst' = (if dryRun then dst else idsCopied src refs dst) \<and> cp + missing = length refs"
  using exportIDs_spec [OF assms] by simp

text \<open>One document; the first stream breaks and the first commit fails.\<close>

definition one_snap :: "snap list" where
  "one_snap = [(''a'', [])]"

lemma one_snap_source: "source_ok one_snap (queryAfter one_snap)"
  using collection_source [of one_snap] by (simp add: one_snap_def collectionOf_def)

theorem import_exact_witness:
  "\<exists>c. runImport (queryAfter one_snap) (\<lambda>k. if k = 0 then Some 1 else None) (\<lambda>_. True) 2 [] True None Map.empty = Some (c, True) \<and>
     cs_dst c = [''a'' \<mapsto> []]"
proof -
  have q: "queryAfter one_snap [] = one_snap" using one_snap_source by (simp add: source_ok_def) (simp add: one_snap_def)
  have "\<exists>c. runImport (queryAfter one_snap) (\<lambda>k. if k = 0 then Some 1 else None) (\<lambda>_. True) 2 [] True None Map.empty = Some (c, True)"
    by (simp add: runImport_def startCursor_def newCopy_def numeral_2_eq_2 eval_nat_numeral q)
       (simp add: one_snap_def q [unfolded one_snap_def] importDoc_def importFlush_def dataSize_def Let_def)
  then obtain c where c: "runImport (queryAfter one_snap) (\<lambda>k. if k = 0 then Some 1 else None) (\<lambda>_. True) 2 [] True None Map.empty = Some (c, True)" ..
  from import_exact [OF one_snap_source c] have "cs_dst c = copied one_snap [] Map.empty" by (simp add: startCursor_def)
  also have "\<dots> = [''a'' \<mapsto> []]" by (auto simp: copied_def one_snap_def fun_eq_iff)
  finally show ?thesis using c by blast
qed

theorem import_terminates_witness:
  "\<exists>c ok. runImport (queryAfter one_snap) (\<lambda>_. Some 0) (\<lambda>_. False) 2 [] False None Map.empty = Some (c, ok)"
  by (rule import_terminates [OF one_snap_source]) (simp add: one_snap_def)

theorem export_exact_witness:
  "\<exists>c ok. runExport (queryAfter one_snap) (\<lambda>_. None) (\<lambda>_. True) 2 [] True True None Map.empty = Some (c, ok) \<and> cs_dst c = Map.empty"
  using export_exact [OF one_snap_source, of 2 "\<lambda>_. None" "\<lambda>_. True" "[]" True True None Map.empty] by (auto simp: one_snap_def)

theorem copy_ids_exact_witness:
  "\<exists>dst'. exportIDs [''a'' \<mapsto> []] (\<lambda>_. True) False 0 [''a'', ''b''] 0 0 Map.empty = (dst', 1, 1, True) \<and> dst' = [''a'' \<mapsto> []]"
proof -
  have "\<exists>dst'. exportIDs [''a'' \<mapsto> []] (\<lambda>_. True) False 0 [''a'', ''b''] 0 0 Map.empty = (dst', 1, 1, True)"
    by (simp add: exportIDs.simps foundDocs_def missingDocs_def map_filter_simps)
  then obtain dst' where e: "exportIDs [''a'' \<mapsto> []] (\<lambda>_. True) False 0 [''a'', ''b''] 0 0 Map.empty = (dst', 1, 1, True)" ..
  from copy_ids_exact [OF e] have "dst' = [''a'' \<mapsto> []]" by (auto simp: idsCopied_def fun_eq_iff)
  with e show ?thesis by blast
qed

end
