(* ===== verification/Verify.thy ===== *)
theory Verify
  imports CopyDocs Commit
begin

text \<open>
  The rest of the tool \<^verbatim>\<open>kor\<close> that works on documents: \<^verbatim>\<open>runVerify\<close> and \<^verbatim>\<open>equalData\<close> of
  \<^verbatim>\<open>cmd/kor/main.go\<close>, which compare a collection at the source with its copy, and the write-rate
  limiter of \<^verbatim>\<open>cmd/kor/export.go\<close>.
\<close>

section \<open>Comparing documents\<close>

text \<open>
  Decoded documents, value by value: one Go type for each kind of value, so values of different kinds
  are different.
\<close>

lemma size_element: "x \<in> set xs \<Longrightarrow> size x < Suc (size_list size xs)"
  by (induction xs) auto

lemma size_entry: "(k, x) \<in> set m \<Longrightarrow> size x < Suc (size_list (size_prod (\<lambda>x. 0) size) m)"
  by (induction m) auto

function equalData :: "Value \<Rightarrow> Value \<Rightarrow> bool" where
  "equalData a b =
     (case a of
        MapValue av \<Rightarrow> (case b of
            MapValue bv \<Rightarrow> length av = length bv \<and>
              (\<forall>kx \<in> set av. case map_of bv (fst kx) of None \<Rightarrow> False | Some y \<Rightarrow> equalData (snd kx) y)
          | _ \<Rightarrow> False)
      | ArrayValue av \<Rightarrow> (case b of
            ArrayValue bv \<Rightarrow> length av = length bv \<and> (\<forall>xy \<in> set (zip av bv). equalData (fst xy) (snd xy))
          | _ \<Rightarrow> False)
      | TimestampValue s n \<Rightarrow> (case b of
            TimestampValue s' n' \<Rightarrow> Truncate_us (AsTime s n) = Truncate_us (AsTime s' n') | _ \<Rightarrow> False)
      | BytesValue x \<Rightarrow> (case b of BytesValue y \<Rightarrow> x = y | _ \<Rightarrow> False)
      | ReferenceValue x \<Rightarrow> (case b of ReferenceValue y \<Rightarrow> x = y | _ \<Rightarrow> False)
      | GeoPointValue x y \<Rightarrow> (case b of GeoPointValue x' y' \<Rightarrow> float_eq x x' \<and> float_eq y y' | _ \<Rightarrow> False)
      | DoubleValue x \<Rightarrow> (case b of
            DoubleValue y \<Rightarrow> if float_IsNaN x then float_IsNaN y else float_eq x y | _ \<Rightarrow> False)
      | _ \<Rightarrow> a = b)"
  by pat_completeness auto
termination
proof (relation "measure (\<lambda>(a, b). size a)")
qed (auto dest: size_element size_entry set_zip_leftD)

declare equalData.simps [simp del]

text \<open>What Kor stores of a document equals the document.\<close>

lemma float_NaN_is: "float_IsNaN float_NaN"
  by (simp add: float_NaN_def float_IsNaN_def float_exp_def float_frac_def float_low_def)

lemma float_eq_canon: "\<not> float_IsNaN x \<Longrightarrow> float_eq x (canonNaN x)"
  by (simp add: canonNaN_def float_eq_def)

lemma equalData_canon: "encodable v \<Longrightarrow> shape_value v \<Longrightarrow> equalData v (canonValue v)"
proof (induction v rule: canonValue.induct)
  case (1 d)
  then show ?case by (auto simp: equalData.simps canonNaN_def float_eq_def float_NaN_is)
next
  case (2 s n)
  then have r: "zeroTime \<le> AsTime s n" "AsTime s n \<le> maxTimestamp" by simp_all
  have "AsTime (word_of_int (Truncate_us (AsTime s n) div 1000000000)) (word_of_int (Truncate_us (AsTime s n) mod 1000000000)) = Truncate_us (AsTime s n)"
    using r by (intro AsTime_tsOf Truncate_us_range)
  moreover have "Truncate_us (Truncate_us t) = Truncate_us t" for t by (simp add: Truncate_us_def mod_diff_eq)
  ultimately show ?case by (simp add: equalData.simps tsOf_def)
next
  case (3 lat lng)
  then show ?case by (simp add: equalData.simps float_eq_canon)
next
  case (4 vs)
  then show ?case by (auto simp: equalData.simps [of "ArrayValue vs"] set_zip)
next
  case (5 m)
  have "map_of (map (\<lambda>kv. (fst kv, canonValue (snd kv))) m) (fst kx) = Some (canonValue (snd kx))" if "kx \<in> set m" for kx
    using 5(2) that by (auto simp: map_of_eq_Some_iff comp_def image_iff intro!: bexI [of _ kx])
  with 5 show ?case by (auto simp: equalData.simps [of "MapValue m"])
qed (simp_all add: equalData.simps)

section \<open>Verifying a copy\<close>

record verifyState =
  vs_pending :: "snap list"
  vs_total :: nat
  vs_checked :: nat
  vs_missing :: nat
  vs_mismatch :: nat

text \<open>\<open>dst\<close> is what reading the copy by id gives; a failure of that read ends the program.\<close>

definition compareOne :: "(string \<rightharpoonup> Fields) \<Rightarrow> snap \<Rightarrow> verifyState \<Rightarrow> verifyState" where
  "compareOne dst s v =
     (case dst (fst s) of
        None \<Rightarrow> v\<lparr>vs_missing := Suc (vs_missing v)\<rparr>
      | Some f \<Rightarrow>
          let v1 = (if \<not> equalData (MapValue (snd s)) (MapValue f) then v\<lparr>vs_mismatch := Suc (vs_mismatch v)\<rparr> else v)
          in v1\<lparr>vs_checked := Suc (vs_checked v1)\<rparr>)"

definition compareChunk :: "(string \<rightharpoonup> Fields) \<Rightarrow> verifyState \<Rightarrow> verifyState" where
  "compareChunk dst v = (if vs_pending v = [] then v else (fold (compareOne dst) (vs_pending v) v)\<lparr>vs_pending := []\<rparr>)"

definition verifyDoc :: "int \<Rightarrow> (string \<rightharpoonup> Fields) \<Rightarrow> verifyState \<Rightarrow> snap \<Rightarrow> verifyState \<times> bool" where
  "verifyDoc sample dst v s =
     (let v1 = v\<lparr>vs_total := Suc (vs_total v)\<rparr>
      in if sample > 1 \<and> int (vs_total v1) mod sample \<noteq> 0 then (v1, False)
         else let v2 = v1\<lparr>vs_pending := vs_pending v1 @ [s]\<rparr>
              in (if length (vs_pending v2) \<ge> 100 then compareChunk dst v2 else v2, False))"

text \<open>
  The verdict is whether nothing was missing or different; \<open>None\<close> inside is a scan that failed, outside
  a lack of fuel.
\<close>

definition runVerify :: "(string \<Rightarrow> snap list) \<Rightarrow> (nat \<Rightarrow> nat option) \<Rightarrow> nat \<Rightarrow> int \<Rightarrow> (string \<rightharpoonup> Fields) \<Rightarrow> bool option option" where
  "runVerify source cuts fuel sample dst =
     (case forEachDoc source cuts (\<lambda>_. []) (verifyDoc sample dst) fuel 0 [] 0
             \<lparr>vs_pending = [], vs_total = 0, vs_checked = 0, vs_missing = 0, vs_mismatch = 0\<rparr> of
        None \<Rightarrow> None
      | Some ((_, _, True), _) \<Rightarrow> Some None
      | Some ((_, _, False), v) \<Rightarrow>
          let v' = compareChunk dst v in Some (Some (\<not> (vs_missing v' > 0 \<or> vs_mismatch v' > 0))))"

definition sameDoc :: "(string \<rightharpoonup> Fields) \<Rightarrow> snap \<Rightarrow> bool" where
  "sameDoc dst s = (case dst (fst s) of None \<Rightarrow> False | Some f \<Rightarrow> equalData (MapValue (snd s)) (MapValue f))"

abbreviation clean :: "verifyState \<Rightarrow> bool" where
  "clean v \<equiv> vs_missing v = 0 \<and> vs_mismatch v = 0"

text \<open>Everything up to a position is compared or pending, and a difference was found only when there is one.\<close>

definition verified :: "snap list \<Rightarrow> (string \<rightharpoonup> Fields) \<Rightarrow> verifyState \<Rightarrow> string \<Rightarrow> bool" where
  "verified docs dst v p \<longleftrightarrow> set (vs_pending v) \<subseteq> set docs \<and>
     (clean v \<longrightarrow> (\<forall>d \<in> set docs. fst d \<le> p \<longrightarrow> sameDoc dst d \<or> d \<in> set (vs_pending v))) \<and>
     (\<not> clean v \<longrightarrow> (\<exists>d \<in> set docs. \<not> sameDoc dst d))"

lemma compare_fold:
  "vs_pending (fold (compareOne dst) ss v) = vs_pending v \<and>
   (clean (fold (compareOne dst) ss v) \<longleftrightarrow> clean v \<and> (\<forall>s \<in> set ss. sameDoc dst s))"
proof (induction ss arbitrary: v)
  case (Cons s ss)
  have "vs_pending (compareOne dst s v) = vs_pending v" "clean (compareOne dst s v) \<longleftrightarrow> clean v \<and> sameDoc dst s"
    by (auto simp: compareOne_def sameDoc_def Let_def split: option.split)
  with Cons.IH [of "compareOne dst s v"] show ?case by auto
qed simp

lemma compareChunk_clean: "clean (compareChunk dst v) \<longleftrightarrow> clean v \<and> (\<forall>s \<in> set (vs_pending v). sameDoc dst s)"
  using compare_fold [of dst "vs_pending v" v] by (simp add: compareChunk_def)

lemma verified_chunk: "verified docs dst v p \<Longrightarrow> verified docs dst (compareChunk dst v) p"
  using compareChunk_clean [of dst v] by (auto simp: verified_def compareChunk_def)

lemma verifyDoc_keeps:
  assumes "verified docs dst v p" "d \<in> set docs" "sample \<le> 1" "verifyDoc sample dst v d = (v', e)"
  shows "verified docs dst v' p \<and> (between docs p (fst d) = [d] \<longrightarrow> verified docs dst v' (fst d))"
proof -
  let ?v = "v\<lparr>vs_total := Suc (vs_total v), vs_pending := vs_pending v @ [d]\<rparr>"
  have v': "v' = (if length (vs_pending ?v) \<ge> 100 then compareChunk dst ?v else ?v)"
    using assms(3,4) by (auto simp: verifyDoc_def Let_def)
  have keep: "verified docs dst ?v p" using assms(1,2) by (auto simp: verified_def)
  have "verified docs dst ?v (fst d)" if "between docs p (fst d) = [d]"
  proof -
    have "x = d" if "x \<in> set docs" "p < fst x" "fst x \<le> fst d" for x
    proof -
      have "x \<in> set (between docs p (fst d))" using that by simp
      then show ?thesis unfolding \<open>between docs p (fst d) = [d]\<close> by simp
    qed
    with keep show ?thesis by (auto simp: verified_def not_less [symmetric])
  qed
  with keep v' verified_chunk show ?thesis by auto
qed

lemma verify_consumer:
  assumes "sample \<le> 1"
  shows "page_consumer (collectionOf xs) (queryAfter xs) (\<lambda>_. []) (verifyDoc sample dst)
    (verified (collectionOf xs) dst) (verified (collectionOf xs) dst)"
proof
  show "source_ok (collectionOf xs) (queryAfter xs)" by (rule collection_source)
next
  fix c p d c'
  assume "verified (collectionOf xs) dst c p" "d \<in> set (collectionOf xs)" "between (collectionOf xs) p (fst d) = [d]"
    "verifyDoc sample dst c d = (c', False)"
  with verifyDoc_keeps [OF _ _ assms] show "verified (collectionOf xs) dst c' (fst d)" by blast
next
  fix c p d c' e cur
  assume "d \<in> set (collectionOf xs)" "verifyDoc sample dst c d = (c', e)" "verified (collectionOf xs) dst c cur"
  with verifyDoc_keeps [OF _ _ assms] show "verified (collectionOf xs) dst c' cur" by blast
qed simp_all

interpretation verifying: page_consumer "collectionOf xs" "queryAfter xs" "\<lambda>_. []" "verifyDoc (min sample 1) dst"
    "verified (collectionOf xs) dst" "verified (collectionOf xs) dst" for xs sample dst
  by (rule verify_consumer) simp

lemma verify_outcome:
  assumes "source_ok docs source" "sample \<le> 1"
  shows "case runVerify source cuts fuel sample dst of
      None \<Rightarrow> fuel \<le> length docs
    | Some None \<Rightarrow> True
    | Some (Some ok) \<Rightarrow> ok = (\<forall>d \<in> set docs. sameDoc dst d)"
proof -
  let ?v0 = "\<lparr>vs_pending = [], vs_total = 0, vs_checked = 0, vs_missing = 0, vs_mismatch = 0\<rparr>"
  let ?run = "forEachDoc source cuts (\<lambda>_. []) (verifyDoc sample dst) fuel 0 [] 0 ?v0"
  note src = collectionOf_id [OF assms(1)]
  have m: "min sample 1 = sample" using assms(2) by simp
  have "[] \<notin> fst ` set docs" using assms(1) by (simp add: source_ok_def)
  then have start: "verified docs dst ?v0 []" by (force simp: verified_def)
  show ?thesis
  proof (cases ?run)
    case None
    have "length (filter (\<lambda>d. [] < fst d) docs) \<le> length docs" by simp
    with None verifying.forEachDoc_total [where xs = docs and sample = sample, unfolded src(1) src(2) [symmetric] m, of "[]" fuel] start
    have "fuel \<le> length docs" by (meson le_less_trans not_less)
    with None show ?thesis by (simp add: runVerify_def)
  next
    case (Some r)
    obtain x y err v where r: "r = ((x, y, err), v)" by (metis prod_cases3 surj_pair)
    from verifying.forEachDoc_ok [where xs = docs and sample = sample, unfolded src(1) src(2) [symmetric] m, OF Some [unfolded r] start start]
    have ok: "\<not> err \<Longrightarrow> \<exists>p. verified docs dst v p \<and> (\<forall>d \<in> set docs. fst d \<le> p)" by simp
    have "clean (compareChunk dst v) = (\<forall>d \<in> set docs. sameDoc dst d)" if "\<not> err"
      using ok [OF that] compareChunk_clean [of dst v] by (auto simp: verified_def)
    with Some r show ?thesis by (cases err) (simp_all add: runVerify_def Let_def)
  qed
qed

text \<open>
  C19: a verification of every document that does not fail says that the copy is good exactly when every
  document of the source is in it with equal content, even when pages were read again after errors;
  and it ends.
\<close>
theorem verify_exact:
  assumes "source_ok docs source" "sample \<le> 1" "length docs < fuel"
  shows "\<exists>v. runVerify source cuts fuel sample dst = Some v \<and> (\<forall>ok. v = Some ok \<longrightarrow> ok = (\<forall>d \<in> set docs. sameDoc dst d))"
  using verify_outcome [OF assms(1,2), of fuel dst cuts] assms(3) by (auto split: option.splits)

theorem verify_exact_witness:
  "\<exists>v. runVerify (queryAfter one_snap) (\<lambda>k. if k = 0 then Some 1 else None) 2 0 Map.empty = Some v \<and> v \<noteq> Some True"
proof -
  have "length one_snap < 2" by (simp add: one_snap_def)
  from verify_exact [OF one_snap_source _ this, of 0 "\<lambda>k. if k = 0 then Some 1 else None" Map.empty]
  show ?thesis by (auto simp: one_snap_def sameDoc_def)
qed

text \<open>
  C35: verification accepts what Kor stores: a document written to the data column and read back is equal
  to the original, although timestamps lose their digits below a microsecond and NaNs their payload.
\<close>
theorem stored_document_verifies:
  assumes "shape_value (MapValue f)" "MarshalFields f = Inr j" "UnmarshalFields j = Inr f'"
  shows "equalData (MapValue f) (MapValue f')"
proof -
  have enc: "encodable (MapValue f)" by (rule Marshal_encodable [OF assms(2) shape_unique [OF assms(1)]])
  from Unmarshal_Marshal [OF enc] assms(2,3) have "f' = canonFields f" by fastforce
  then have "MapValue f' = canonValue (MapValue f)" by (simp add: canonFields_def)
  with equalData_canon [OF enc assms(1)] show ?thesis by simp
qed

theorem stored_document_verifies_witness:
  "\<exists>j f'. MarshalFields [(''a'', NullValue)] = Inr j \<and> UnmarshalFields j = Inr f' \<and> equalData (MapValue [(''a'', NullValue)]) (MapValue f')"
proof -
  have enc: "encodable (MapValue [(''a'', NullValue)])" by (simp add: hasNUL_def)
  then obtain j f' where j: "MarshalFields [(''a'', NullValue)] = Inr j" "UnmarshalFields j = Inr f'" using Unmarshal_Marshal [OF enc] by blast
  from stored_document_verifies [OF _ j] j show ?thesis by auto
qed

section \<open>The write-rate limiter\<close>

record limiter =
  lm_perSec :: int
  lm_window :: time
  lm_spent :: int
  lm_enabled :: bool

abbreviation (input) "second \<equiv> (1000000000 :: time)"

definition newLimiter :: "int \<Rightarrow> time \<Rightarrow> limiter" where
  "newLimiter perSec now = \<lparr>lm_perSec = perSec, lm_window = now, lm_spent = 0, lm_enabled = (perSec > 0)\<rparr>"

text \<open>
  The readings of the clock in the order of the code: the age of the window, the new window, the
  rest to sleep, and the window after the sleep.
\<close>

record readings =
  at_age :: time
  at_reset :: time
  at_rest :: time
  at_wake :: time

definition wait :: "readings \<Rightarrow> int \<Rightarrow> limiter \<Rightarrow> limiter" where
  "wait t n l =
     (if \<not> lm_enabled l then l
      else let l1 = (if at_age t - lm_window l \<ge> second then l\<lparr>lm_window := at_reset t, lm_spent := 0\<rparr> else l);
               l2 = (if lm_spent l1 + n > lm_perSec l1 then l1\<lparr>lm_window := at_wake t, lm_spent := 0\<rparr> else l1)
           in l2\<lparr>lm_spent := lm_spent l2 + n\<rparr>)"









text \<open>
  The default rate of an export is 400 a second and its batches have up to 500 documents: a
  full batch waits for a new window and then exceeds the rate.
\<close>
theorem default_rate_exceeded:
  "lm_spent (wait t 500 (newLimiter 400 now)) = 500"
  by (simp add: wait_def newLimiter_def Let_def)

end
