(* ===== verification/Containment.thy ===== *)
theory Containment
  imports GoText
begin

text \<open>
  File \<^verbatim>\<open>store/containment.go\<close>: the collections exempt from the containment index and the rebuild of
  that index without blocking writes. The catalog maps index names to whether the index is valid and
  to the collections it leaves out. What Postgres does with a statement is an argument of the model;
  \<open>index_statement_laws\<close> states what its documentation promises and the rebuild relies on.
\<close>

section \<open>Names and literals\<close>

fun normLoop :: "string list \<Rightarrow> string list \<Rightarrow> string list" where
  "normLoop out [] = out"
| "normLoop out (c # cs) =
     (let c' = TrimSpace c in if c' = [] \<or> c' \<in> set out then normLoop out cs else normLoop (out @ [c']) cs)"

definition normalizeCollections :: "string list \<Rightarrow> string list" where
  "normalizeCollections colls = sort (normLoop [] colls)"

definition quoteLiteral :: "string \<Rightarrow> string" where
  "quoteLiteral v = CHR 0x27 # concat (map (\<lambda>c. if c = CHR 0x27 then [c, c] else [c]) v) @ [CHR 0x27]"

fun quoteList :: "string list \<Rightarrow> string" where
  "quoteList [] = []"
| "quoteList [v] = quoteLiteral v"
| "quoteList (v # w # vs) = quoteLiteral v @ '', '' @ quoteList (w # vs)"

section \<open>The index and its rebuild\<close>

abbreviation (input) "containmentIndex \<equiv> ''documents_gin''"

record ginIndex =
  gi_valid :: bool
  gi_exclude :: "string list"

type_synonym catalog = "string \<rightharpoonup> ginIndex"

datatype statement = DropIfExists string | CreateIndex string "string list" | RenameIndex string string

definition rebuildStatements :: "string list \<Rightarrow> statement list" where
  "rebuildStatements exclude =
     (let tmp = containmentIndex @ ''_rebuild''
      in [DropIfExists tmp, CreateIndex tmp exclude, DropIfExists containmentIndex, RenameIndex tmp containmentIndex])"

text \<open>
  The catalogs after each statement, up to the first error, and whether there was one. \<open>exec k\<close> is
  what Postgres does with the \<open>k\<close>-th statement.
\<close>

fun runStatements :: "(nat \<Rightarrow> statement \<Rightarrow> catalog \<Rightarrow> catalog \<times> bool) \<Rightarrow> statement list \<Rightarrow> catalog \<Rightarrow> catalog list \<times> bool" where
  "runStatements exec [] cat = ([], False)"
| "runStatements exec (s # ss) cat =
     (case exec 0 s cat of
        (cat', True) \<Rightarrow> ([cat'], True)
      | (cat', False) \<Rightarrow> (case runStatements (exec \<circ> Suc) ss cat' of (cats, e) \<Rightarrow> (cat' # cats, e)))"

definition rebuildContainmentIndex ::
  "(nat \<Rightarrow> statement \<Rightarrow> catalog \<Rightarrow> catalog \<times> bool) \<Rightarrow> string list \<Rightarrow> catalog \<Rightarrow> catalog list \<times> bool" where
  "rebuildContainmentIndex exec exclude cat = runStatements exec (rebuildStatements exclude) cat"

text \<open>The exclusions are replaced in a transaction of their own, which may fail without effect.\<close>

definition SetContainmentExclusions ::
  "bool \<Rightarrow> (nat \<Rightarrow> statement \<Rightarrow> catalog \<Rightarrow> catalog \<times> bool) \<Rightarrow> string list \<Rightarrow> string list \<times> catalog \<Rightarrow>
    (string list \<times> catalog) \<times> bool" where
  "SetContainmentExclusions txnOK exec colls = (\<lambda>(excl, cat).
     (let norm = normalizeCollections colls
      in if \<not> txnOK then ((excl, cat), True)
         else case rebuildContainmentIndex exec norm cat of (cats, e) \<Rightarrow> ((norm, last (cat # cats)), e)))"

definition ContainmentExclusions :: "string list \<Rightarrow> string list" where
  "ContainmentExclusions excl = sort excl"

fun indexOf :: "string \<Rightarrow> string \<Rightarrow> nat option" where
  "indexOf sub s =
     (if prefix sub s then Some 0
      else case s of [] \<Rightarrow> None | c # cs \<Rightarrow> map_option Suc (indexOf sub cs))"

declare indexOf.simps [simp del]

text \<open>The predicate in the definition text of the index, read from \<^verbatim>\<open>pg_indexes\<close>.\<close>

definition ContainmentIndexPredicate :: "string \<Rightarrow> string" where
  "ContainmentIndexPredicate def =
     (case indexOf '' WHERE '' def of Some i \<Rightarrow> TrimSpace (drop (i + 7) def) | None \<Rightarrow> [])"

text \<open>\<^verbatim>\<open>cmd/kor/index.go\<close>: what the command does with its flags; without them it only shows the state.\<close>

definition runIndexContainment ::
  "string \<Rightarrow> bool \<Rightarrow> bool \<Rightarrow> (nat \<Rightarrow> statement \<Rightarrow> catalog \<Rightarrow> catalog \<times> bool) \<Rightarrow> string list \<times> catalog \<Rightarrow>
    (string list \<times> catalog) \<times> bool" where
  "runIndexContainment exclude clr txnOK exec st =
     (if exclude = [] \<and> \<not> clr then (st, False)
      else SetContainmentExclusions txnOK exec (if clr then [] else splitOn CHR '','' exclude) st)"

section \<open>Properties\<close>

text \<open>Reading literals as Postgres does: a doubled quote is a quote, a single one ends the literal.\<close>

fun readLiteral :: "string \<Rightarrow> string \<Rightarrow> (string \<times> string) option" where
  "readLiteral acc [] = None"
| "readLiteral acc (c # cs) =
     (if c = CHR 0x27
      then (case cs of
              d # ds \<Rightarrow> if d = CHR 0x27 then readLiteral (acc @ [c]) ds else Some (acc, cs)
            | [] \<Rightarrow> Some (acc, []))
      else readLiteral (acc @ [c]) cs)"

fun readList :: "nat \<Rightarrow> string \<Rightarrow> string list option" where
  "readList 0 s = None"
| "readList (Suc fuel) s =
     (case s of
        c # cs \<Rightarrow>
          if c \<noteq> CHR 0x27 then None
          else (case readLiteral [] cs of
                  None \<Rightarrow> None
                | Some (v, []) \<Rightarrow> Some [v]
                | Some (v, rest) \<Rightarrow> if prefix '', '' rest then map_option ((#) v) (readList fuel (drop 2 rest)) else None)
      | [] \<Rightarrow> None)"

lemma readLiteral_quoted:
  assumes "\<forall>d ds. rest = d # ds \<longrightarrow> d \<noteq> CHR 0x27"
  shows "readLiteral acc (concat (map (\<lambda>c. if c = CHR 0x27 then [c, c] else [c]) v) @ CHR 0x27 # rest) = Some (acc @ v, rest)"
  using assms by (induction v arbitrary: acc) (auto split: list.split)

lemma readList_quoted: "vs \<noteq> [] \<Longrightarrow> length vs \<le> fuel \<Longrightarrow> readList fuel (quoteList vs) = Some vs"
proof (induction vs arbitrary: fuel rule: quoteList.induct)
  case (2 v)
  then obtain f where "fuel = Suc f" by (cases fuel) auto
  then show ?case using readLiteral_quoted [of "[]" "[]" v] by (simp add: quoteLiteral_def)
next
  case (3 v w vs)
  then obtain f where f: "fuel = Suc f" "length (w # vs) \<le> f" by (cases fuel) auto
  from 3(1) [of f] f have ih: "readList f (quoteList (w # vs)) = Some (w # vs)" by simp
  have "readLiteral [] (concat (map (\<lambda>c. if c = CHR 0x27 then [c, c] else [c]) v) @ CHR 0x27 # ('', '' @ quoteList (w # vs))) =
      Some ([] @ v, '', '' @ quoteList (w # vs))"
    by (rule readLiteral_quoted) simp
  with ih f(1) show ?case by (simp add: quoteLiteral_def)
qed simp

text \<open>
  C37: no collection id breaks out of the predicate: the literals written into the statement are read back
  as exactly the ids, quotes and commas in them included.
\<close>
theorem quoted_ids_round_trip:
  assumes "vs \<noteq> []"
  shows "readList (length vs) (quoteList vs) = Some vs"
  using readList_quoted [OF assms] by simp

theorem quoted_ids_round_trip_witness:
  "readList (length [CHR 0x27 # '', x'', ''b'']) (quoteList [CHR 0x27 # '', x'', ''b'']) = Some [CHR 0x27 # '', x'', ''b'']"
  by (rule quoted_ids_round_trip) simp

lemma normLoop_spec:
  "distinct out \<Longrightarrow> distinct (normLoop out cs) \<and> set (normLoop out cs) = set out \<union> (TrimSpace ` set cs - {[]})"
  by (induction out cs rule: normLoop.induct) (auto simp: Let_def)

lemma normalizeCollections_spec:
  "sorted (normalizeCollections cs) \<and> distinct (normalizeCollections cs) \<and> set (normalizeCollections cs) = TrimSpace ` set cs - {[]}"
  using normLoop_spec [of "[]" cs] by (simp add: normalizeCollections_def)

definition usable :: "catalog \<Rightarrow> bool" where
  "usable cat \<longleftrightarrow> (\<exists>i \<in> ran cat. gi_valid i)"

lemma usable_at: "cat n = Some i \<Longrightarrow> gi_valid i \<Longrightarrow> usable cat"
  by (auto simp: usable_def ran_def)

text \<open>
  What Postgres documents of the three statements. None touches an index it does not name. A
  statement that succeeds has its effect: a dropped index is gone, a created one is valid and has its predicate, a
  renamed one is found under its new name. \<^verbatim>\<open>RENAME\<close> is transactional and has no effect when it fails; the
  concurrent statements may fail half way and leave the index they name in any state.
\<close>

definition index_statement_laws :: "(statement \<Rightarrow> catalog \<Rightarrow> catalog \<times> bool) \<Rightarrow> bool" where
  "index_statement_laws exec \<longleftrightarrow>
     (\<forall>n cat cat' err. exec (DropIfExists n) cat = (cat', err) \<longrightarrow>
        (\<forall>m. m \<noteq> n \<longrightarrow> cat' m = cat m) \<and> (\<not> err \<longrightarrow> cat' n = None)) \<and>
     (\<forall>n exclude cat cat' err. exec (CreateIndex n exclude) cat = (cat', err) \<longrightarrow>
        (\<forall>m. m \<noteq> n \<longrightarrow> cat' m = cat m) \<and> (\<not> err \<longrightarrow> cat' n = Some \<lparr>gi_valid = True, gi_exclude = exclude\<rparr>)) \<and>
     (\<forall>n m cat cat' err. exec (RenameIndex n m) cat = (cat', err) \<longrightarrow>
        cat' = (if err then cat else cat(n := None, m := cat n)))"

lemma drop_effect:
  "index_statement_laws exec \<Longrightarrow> exec (DropIfExists n) cat = (cat', err) \<Longrightarrow> m \<noteq> n \<Longrightarrow>
   cat' m = cat m \<and> (\<not> err \<longrightarrow> cat' = cat(n := None))"
  by (fastforce simp: index_statement_laws_def fun_eq_iff)

lemma create_effect:
  "index_statement_laws exec \<Longrightarrow> exec (CreateIndex n exclude) cat = (cat', err) \<Longrightarrow> m \<noteq> n \<Longrightarrow>
   cat' m = cat m \<and> (\<not> err \<longrightarrow> cat' = cat(n \<mapsto> \<lparr>gi_valid = True, gi_exclude = exclude\<rparr>))"
  by (fastforce simp: index_statement_laws_def fun_eq_iff)

lemma rename_effect:
  "index_statement_laws exec \<Longrightarrow> exec (RenameIndex n m) cat = (cat', err) \<Longrightarrow>
   cat' = (if err then cat else cat(n := None, m := cat n))"
  by (simp add: index_statement_laws_def)

lemma run_Cons:
  assumes "runStatements exec (s # ss) cat = (cats, e)"
  obtains cat' err cats' where "exec 0 s cat = (cat', err)" "cats = cat' # cats'"
    "if err then cats' = [] \<and> e else runStatements (exec \<circ> Suc) ss cat' = (cats', e)"
  using assms by (auto split: prod.splits bool.splits)

lemma rebuild_steps:
  assumes laws: "\<And>k. index_statement_laws (exec k)" and main: "cat containmentIndex = Some i" "gi_valid i" and run: "rebuildContainmentIndex exec exclude cat = (cats, e)"
  shows "(\<forall>c \<in> set cats. usable c) \<and>
    (\<not> e \<longrightarrow> last cats = cat(''documents_gin_rebuild'' := None, containmentIndex \<mapsto> \<lparr>gi_valid = True, gi_exclude = exclude\<rparr>))"
proof -
  let ?tmp = "''documents_gin_rebuild''" and ?new = "\<lparr>gi_valid = True, gi_exclude = exclude\<rparr>"
  have run: "runStatements exec [DropIfExists ?tmp, CreateIndex ?tmp exclude, DropIfExists containmentIndex, RenameIndex ?tmp containmentIndex] cat = (cats, e)"
    using run by (simp add: rebuildContainmentIndex_def rebuildStatements_def Let_def del: runStatements.simps)
  from run obtain c1 e1 cs1 where 1: "exec 0 (DropIfExists ?tmp) cat = (c1, e1)" "cats = c1 # cs1"
    "if e1 then cs1 = [] \<and> e else runStatements (exec \<circ> Suc) [CreateIndex ?tmp exclude, DropIfExists containmentIndex, RenameIndex ?tmp containmentIndex] c1 = (cs1, e)"
    by (rule run_Cons)
  from drop_effect [OF laws 1(1), of containmentIndex] main have u1: "c1 containmentIndex = Some i" "\<not> e1 \<longrightarrow> c1 = cat(?tmp := None)" by simp_all
  show ?thesis
  proof (cases e1)
    case True
    with 1 usable_at [of c1, OF u1(1) main(2)] show ?thesis by simp
  next
    case False
    with 1(3) obtain c2 e2 cs2 where 2: "(exec \<circ> Suc) 0 (CreateIndex ?tmp exclude) c1 = (c2, e2)" "cs1 = c2 # cs2"
      "if e2 then cs2 = [] \<and> e else runStatements (exec \<circ> Suc \<circ> Suc) [DropIfExists containmentIndex, RenameIndex ?tmp containmentIndex] c2 = (cs2, e)"
      by (auto elim!: run_Cons simp del: runStatements.simps)
    from create_effect [OF laws 2(1) [unfolded comp_apply], of containmentIndex] u1(1) have u2: "c2 containmentIndex = Some i" "\<not> e2 \<longrightarrow> c2 = c1(?tmp \<mapsto> ?new)" by simp_all
    show ?thesis
    proof (cases e2)
      case True
      with 1 2 usable_at [of c1, OF u1(1) main(2)] usable_at [of c2, OF u2(1) main(2)] show ?thesis by simp
    next
      case e2: False
      with 2(3) obtain c3 e3 cs3 where 3: "(exec \<circ> Suc \<circ> Suc) 0 (DropIfExists containmentIndex) c2 = (c3, e3)" "cs2 = c3 # cs3"
        "if e3 then cs3 = [] \<and> e else runStatements (exec \<circ> Suc \<circ> Suc \<circ> Suc) [RenameIndex ?tmp containmentIndex] c3 = (cs3, e)"
        by (auto elim!: run_Cons simp del: runStatements.simps)
      from drop_effect [OF laws 3(1) [unfolded comp_apply], of ?tmp] u2(2) e2 have u3: "c3 ?tmp = Some ?new" "\<not> e3 \<longrightarrow> c3 = c2(containmentIndex := None)" by (simp_all add: fun_upd_def)
      have usable3: "usable c1" "usable c2" "usable c3" using usable_at [of c1, OF u1(1) main(2)] usable_at [of c2, OF u2(1) main(2)] usable_at [of c3, OF u3(1)] by simp_all
      show ?thesis
      proof (cases e3)
        case True
        with 1 2 3 usable3 show ?thesis by simp
      next
        case e3: False
        with 3(3) obtain c4 e4 where 4: "(exec \<circ> Suc \<circ> Suc \<circ> Suc) 0 (RenameIndex ?tmp containmentIndex) c3 = (c4, e4)" "cs3 = [c4]" "e = e4"
          by (auto simp del: split: prod.splits bool.splits)
        from rename_effect [OF laws 4(1) [unfolded comp_apply]] u3 have c4: "c4 = (if e4 then c3 else c3(?tmp := None, containmentIndex := Some ?new))" by simp
        then have "usable c4" using usable3(3) usable_at [of c4 containmentIndex ?new] by auto
        moreover have "c4 = cat(?tmp := None, containmentIndex \<mapsto> ?new)" if "\<not> e4"
          using c4 that u1(2) u2(2) u3(2) False e2 e3 by (auto simp: fun_eq_iff)
        ultimately show ?thesis using 1(2) 2(2) 3(2) 4(2,3) usable3 by simp
      qed
    qed
  qed
qed

text \<open>
  C15: a rebuild of the containment index that starts from a valid one leaves a usable index after every
  statement, for every behaviour of the statements that Postgres documents, failures included; when it succeeds, the index has its name back and leaves out
  exactly the normalised collections, which are also the recorded ones.
\<close>
theorem rebuild_keeps_usable:
  assumes laws: "\<forall>k. index_statement_laws (exec k)" and start: "cat containmentIndex = Some i" "gi_valid i"
    and run: "rebuildContainmentIndex exec (normalizeCollections colls) cat = (cats, e)"
  shows "(\<forall>c \<in> set cats. usable c) \<and>
    (\<not> e \<longrightarrow> fst (SetContainmentExclusions True exec colls (excl, cat)) =
       (normalizeCollections colls,
        cat(''documents_gin_rebuild'' := None, containmentIndex \<mapsto> \<lparr>gi_valid = True, gi_exclude = normalizeCollections colls\<rparr>)) \<and>
       set (normalizeCollections colls) = TrimSpace ` set colls - {[]})"
proof -
  have "cats \<noteq> []" using run by (auto simp: rebuildContainmentIndex_def rebuildStatements_def Let_def elim!: run_Cons simp del: runStatements.simps)
  with rebuild_steps [of exec, OF spec [OF laws] start run] run normalizeCollections_spec [of colls] show ?thesis
    by (simp add: SetContainmentExclusions_def Let_def)
qed

section \<open>Postgres with every way a statement can end\<close>

text \<open>How a statement ends: it succeeds, has no effect, or leaves its index invalid.\<close>

datatype ending = Succeeds | Refused | Broken

fun execute :: "ending \<Rightarrow> statement \<Rightarrow> catalog \<Rightarrow> catalog \<times> bool" where
  "execute e (DropIfExists n) cat =
     (case e of
        Succeeds \<Rightarrow> (cat(n := None), False)
      | Refused \<Rightarrow> (cat, True)
      | Broken \<Rightarrow> (cat(n := map_option (gi_valid_update (\<lambda>_. False)) (cat n)), True))"
| "execute e (CreateIndex n exclude) cat =
     (if cat n \<noteq> None then (cat, True)
      else case e of
        Succeeds \<Rightarrow> (cat(n \<mapsto> \<lparr>gi_valid = True, gi_exclude = exclude\<rparr>), False)
      | Refused \<Rightarrow> (cat, True)
      | Broken \<Rightarrow> (cat(n \<mapsto> \<lparr>gi_valid = False, gi_exclude = exclude\<rparr>), True))"
| "execute e (RenameIndex n m) cat =
     (if e \<noteq> Succeeds \<or> cat n = None \<or> cat m \<noteq> None then (cat, True) else (cat(n := None, m := cat n), False))"

lemma execute_laws: "index_statement_laws (execute e)"
  unfolding index_statement_laws_def by (auto split: ending.splits if_splits)

abbreviation (input) ends :: "(nat \<Rightarrow> ending) \<Rightarrow> nat \<Rightarrow> statement \<Rightarrow> catalog \<Rightarrow> catalog \<times> bool" where
  "ends es \<equiv> \<lambda>k. execute (es k)"

theorem rebuild_keeps_usable_witness:
  "\<exists>cats. rebuildContainmentIndex (ends (\<lambda>_. Succeeds)) (normalizeCollections [''logs'']) [containmentIndex \<mapsto> \<lparr>gi_valid = True, gi_exclude = []\<rparr>] = (cats, False) \<and>
     (\<forall>c \<in> set cats. usable c)"
proof -
  let ?cat = "[containmentIndex \<mapsto> \<lparr>gi_valid = True, gi_exclude = []\<rparr>]"
  have "\<exists>cats. rebuildContainmentIndex (ends (\<lambda>_. Succeeds)) (normalizeCollections [''logs'']) ?cat = (cats, False)"
    by (simp add: rebuildContainmentIndex_def rebuildStatements_def Let_def)
  then obtain cats where c: "rebuildContainmentIndex (ends (\<lambda>_. Succeeds)) (normalizeCollections [''logs'']) ?cat = (cats, False)" ..
  from rebuild_keeps_usable [OF _ _ _ c] execute_laws show ?thesis using c by auto
qed

text \<open>
  A second rebuild after one whose renaming failed begins by dropping the only index there is.
\<close>
theorem rerun_drops_only_index:
  "\<exists>cats cats'. rebuildContainmentIndex (ends ((\<lambda>_. Succeeds)(3 := Refused))) [] [containmentIndex \<mapsto> \<lparr>gi_valid = True, gi_exclude = []\<rparr>] = (cats, True) \<and>
     usable (last cats) \<and>
     rebuildContainmentIndex (ends (\<lambda>_. Succeeds)) [] (last cats) = (cats', False) \<and> \<not> usable (hd cats')"
  by (auto simp: rebuildContainmentIndex_def rebuildStatements_def Let_def usable_def ran_def comp_def eval_nat_numeral)

end
