(* ===== verification/Admin.thy ===== *)
theory Admin
  imports System GoText
begin

text \<open>
  Files \<^verbatim>\<open>cmd/kor/index.go\<close> and \<^verbatim>\<open>cmd/kor/drop.go\<close>: the administrative commands that work on the tables
  while the server runs beside them with a registry of its own. A command gets its parsed flags and
  the decoded configuration, and returns the tables with what it prints; an error on the left is an exit
  with a message. The last section shows what happens while the server's registry is behind the tables.
\<close>

section \<open>Registering definitions\<close>

datatype applyLine = SkipLine string skip_reason | IndexLine string

text \<open>The collections to register: \<open>None\<close> is the nil map that stands for all of them.\<close>

definition wantedCollections :: "string \<Rightarrow> bool \<Rightarrow> DB \<Rightarrow> fault + string list option" where
  "wantedCollections only all db =
     (if only \<noteq> [] then Inr (Some (filter (\<lambda>c. c \<noteq> []) (map TrimSpace (splitOn CHR '','' only))))
      else if all then Inr None
      else let want = CollectionsWithDocuments db
           in if want = [] then Inl (Status UnknownError) else Inr (Some want))"

definition isWanted :: "string list option \<Rightarrow> string \<Rightarrow> bool" where
  "isWanted want c = (case want of None \<Rightarrow> True | Some cs \<Rightarrow> c \<in> set cs)"

definition selectDefs :: "string list option \<Rightarrow> Def list \<Rightarrow> Def list" where
  "selectDefs want defs = sort_key Spec (filter (\<lambda>d. isWanted want (dCollectionID d)) defs)"

definition mergeDefs :: "Def list \<Rightarrow> (string \<times> bool \<times> nat) list \<Rightarrow> Def list" where
  "mergeDefs selected existing =
     selected @
     List.map_filter (\<lambda>(spec, _). case ParseSpec spec of
         None \<Rightarrow> None
       | Some d \<Rightarrow> if ID d \<in> set (map ID selected) then None else Some d) existing"

definition runIndexApply ::
  "(string \<Rightarrow> nat) \<Rightarrow> fileIndex list \<Rightarrow> string \<Rightarrow> bool \<Rightarrow> bool \<Rightarrow> DB \<Rightarrow> fault + (applyLine list \<times> DB)" where
  "runIndexApply collate indexes only all dry db =
     (case ParseConfig indexes of
        None \<Rightarrow> Inl (Status UnknownError)
      | Some (defs, skipped) \<Rightarrow>
          bind_result (wantedCollections only all db) (\<lambda>want.
            let selected = selectDefs want defs;
                out = map (\<lambda>(c, r). SkipLine c r) (filter (\<lambda>(c, r). isWanted want c) skipped) @
                      map (\<lambda>d. IndexLine (Spec d)) selected
            in if dry \<or> selected = [] then Inr (out, db)
               else bind_result (SetIndexes (mergeDefs selected (ListIndexes collate db)) db)
                      (\<lambda>(db', reg). Inr (out, db'))))"

section \<open>Listing, backfilling and dropping\<close>

text \<open>A row of the listing: the word for its readiness, the number of entries, the specification.\<close>

definition runIndexList :: "(string \<Rightarrow> nat) \<Rightarrow> DB \<Rightarrow> (string \<times> nat \<times> string) list" where
  "runIndexList collate db =
     map (\<lambda>(spec, rdy, entries). (if rdy then ''ready'' else ''PENDING'', entries, spec)) (ListIndexes collate db)"

definition backfillTodo :: "string \<Rightarrow> bool \<Rightarrow> (string \<times> bool \<times> nat) list \<Rightarrow> Def list" where
  "backfillTodo spec force rows =
     List.map_filter (\<lambda>(s, rdy, _).
       if spec \<noteq> [] \<and> s \<noteq> spec then None else if rdy \<and> \<not> force then None else ParseSpec s) rows"

text \<open>The rows it would backfill but cannot read: they are printed and left as they are.\<close>

definition backfillSkips :: "string \<Rightarrow> bool \<Rightarrow> (string \<times> bool \<times> nat) list \<Rightarrow> string list" where
  "backfillSkips spec force rows =
     map fst (filter (\<lambda>(s, rdy, _). \<not> (spec \<noteq> [] \<and> s \<noteq> spec) \<and> \<not> (rdy \<and> \<not> force) \<and> ParseSpec s = None) rows)"

text \<open>A backfill that fails ends the command; the ones before it have taken effect.\<close>

fun backfillEach :: "Def list \<Rightarrow> DB \<times> indexRegistry \<Rightarrow> (DB \<times> indexRegistry) \<times> (nat \<times> string) list \<times> fault option" where
  "backfillEach [] s = (s, [], None)"
| "backfillEach (d # ds) s =
     (case BackfillIndex d s of
        Inl e \<Rightarrow> (s, [], Some e)
      | Inr (s', n) \<Rightarrow> (case backfillEach ds s' of (s'', out, e) \<Rightarrow> (s'', (n, Spec d) # out, e)))"

text \<open>The tables, the specifications skipped, the lines for the indexes filled, and the error if one stopped it.\<close>

definition runIndexBackfill ::
  "(string \<Rightarrow> nat) \<Rightarrow> string \<Rightarrow> bool \<Rightarrow> DB \<Rightarrow> DB \<times> string list \<times> (nat \<times> string) list \<times> fault option" where
  "runIndexBackfill collate spec force db =
     (let rows = ListIndexes collate db
      in case backfillEach (backfillTodo spec force rows) (db, \<lparr>byColl = [], reg_ready = []\<rparr>) of
           ((db', reg), out, e) \<Rightarrow> (db', backfillSkips spec force rows, out, e))"

definition runIndexDrop :: "string \<Rightarrow> DB \<Rightarrow> fault + (DB \<times> nat)" where
  "runIndexDrop spec db =
     (if spec = [] then Inl (Status UnknownError)
      else case ParseSpec spec of None \<Rightarrow> Inl (Status UnknownError) | Some d \<Rightarrow> Inr (DropIndex d db))"

text \<open>
  \<^verbatim>\<open>kor drop\<close>: how many documents the collection holds, the tables after the command, and how many
  documents were deleted, if any were to be.
\<close>

definition runDrop :: "string \<Rightarrow> bool \<Rightarrow> bool \<Rightarrow> int \<Rightarrow> DB \<Rightarrow> fault + (nat \<times> DB \<times> nat option)" where
  "runDrop coll dry yes batch db =
     (if coll = [] then Inl (Status UnknownError)
      else let n = CountCollection coll db
           in if n = 0 \<or> dry \<or> \<not> yes then Inr (n, db, None)
              else bind_result (DropCollection coll batch db) (\<lambda>(db', deleted). Inr (n, db', Some deleted)))"

section \<open>Registration keeps what is there\<close>

lemma registerDef_append:
  "\<exists>new. index_defs (fold registerDef ds db) = index_defs db @ new \<and> set new \<subseteq> defRow ` set ds \<and>
     i_index_id ` set (index_defs (fold registerDef ds db)) = i_index_id ` set (index_defs db) \<union> ID ` set ds \<and>
     documents (fold registerDef ds db) = documents db \<and> index_entries (fold registerDef ds db) = index_entries db"
proof (induction ds arbitrary: db)
  case (Cons d ds)
  obtain new1 where "index_defs (registerDef d db) = index_defs db @ new1" "set new1 \<subseteq> {defRow d}"
      "i_index_id ` set (index_defs (registerDef d db)) = insert (ID d) (i_index_id ` set (index_defs db))"
      "documents (registerDef d db) = documents db" "index_entries (registerDef d db) = index_entries db"
    by (cases "ID d \<in> i_index_id ` set (index_defs db)") (auto simp: registerDef_def defRow_def)
  moreover obtain new2 where "index_defs (fold registerDef ds (registerDef d db)) = index_defs (registerDef d db) @ new2"
      "set new2 \<subseteq> defRow ` set ds"
      "i_index_id ` set (index_defs (fold registerDef ds (registerDef d db))) =
        i_index_id ` set (index_defs (registerDef d db)) \<union> ID ` set ds"
      "documents (fold registerDef ds (registerDef d db)) = documents (registerDef d db)"
      "index_entries (fold registerDef ds (registerDef d db)) = index_entries (registerDef d db)"
    using Cons.IH [of "registerDef d db"] by metis
  ultimately show ?case by (intro exI [of _ "new1 @ new2"]) auto
qed simp

lemma registerDef_present: "ID d \<in> i_index_id ` set (index_defs db) \<Longrightarrow> registerDef d db = db"
  by (simp add: registerDef_def)

lemma registerDef_all_present:
  "ID ` set ds \<subseteq> i_index_id ` set (index_defs db) \<Longrightarrow> fold registerDef ds db = db"
  by (induction ds) (simp_all add: registerDef_present)

lemma ListIndexes_rows:
  "(spec, rdy, n) \<in> set (ListIndexes collate db) \<Longrightarrow> \<exists>r \<in> set (index_defs db). i_spec r = spec \<and> i_ready r = rdy"
  by (auto simp: ListIndexes_def)

lemma in_ListIndexes: "r \<in> set (index_defs db) \<Longrightarrow> \<exists>n. (i_spec r, i_ready r, n) \<in> set (ListIndexes collate db)"
  by (auto simp: ListIndexes_def)

lemma mergeDefs_registered:
  assumes "defs_ok db"
  shows "fold registerDef (mergeDefs selected (ListIndexes collate db)) db = fold registerDef selected db"
proof -
  let ?rest = "drop (length selected) (mergeDefs selected (ListIndexes collate db))"
  have "ID ` set ?rest \<subseteq> i_index_id ` set (index_defs db)"
    using assms by (fastforce simp: mergeDefs_def map_filter_def defs_ok_def split: option.splits if_splits dest!: ListIndexes_rows)
  also have "\<dots> \<subseteq> i_index_id ` set (index_defs (fold registerDef selected db))"
    using registerDef_append [of selected db] by blast
  finally have "fold registerDef ?rest (fold registerDef selected db) = fold registerDef selected db"
    by (rule registerDef_all_present)
  moreover have "mergeDefs selected (ListIndexes collate db) = selected @ ?rest" by (simp add: mergeDefs_def)
  ultimately show ?thesis by (metis fold_append comp_apply)
qed

lemma parseSpecFields_Nil: "parseSpecFields fs ps = Some fs' \<Longrightarrow> fs' = [] \<Longrightarrow> fs = [] \<and> ps = []"
  by (induction fs ps rule: parseSpecFields.induct) (auto split: option.splits)

lemma ParseSpec_fields: "ParseSpec s = Some d \<Longrightarrow> dFields d \<noteq> []"
  by (auto simp: ParseSpec_def split: prod.splits list.splits if_splits dest!: parseSpecFields_Nil)

lemma merged_fields:
  assumes "\<forall>d \<in> set selected. dFields d \<noteq> []"
  shows "\<not> list_ex (\<lambda>d. dFields d = []) (mergeDefs selected existing)"
  using assms by (auto simp: mergeDefs_def list_ex_iff map_filter_def ParseSpec_fields split: option.splits if_splits)

text \<open>
  C38: applying a configuration registers every selected definition and touches nothing else: the rows
  that are there keep their readiness, the new rows are definitions of the file for wanted collections
  and are not ready, documents and entries stay as they are, and a dry run changes nothing.
\<close>
theorem apply_registers:
  assumes "ParseConfig indexes = Some (defs, skipped)" "wantedCollections only all db = Inr want" "defs_ok db"
  shows "\<exists>out db' new. runIndexApply collate indexes only all dry db = Inr (out, db') \<and>
     index_defs db' = index_defs db @ new \<and> documents db' = documents db \<and> index_entries db' = index_entries db \<and>
     (\<forall>r \<in> set new. \<exists>d \<in> set defs. isWanted want (dCollectionID d) \<and> r = defRow d) \<and>
     (if dry then db' = db else \<forall>d \<in> set defs. isWanted want (dCollectionID d) \<longrightarrow> ID d \<in> i_index_id ` set (index_defs db'))"
proof (cases "dry \<or> selectDefs want defs = []")
  case True
  then have "dry \<or> (\<forall>d \<in> set defs. \<not> isWanted want (dCollectionID d))"
    by (metis selectDefs_def filter_empty_conv set_empty set_sort)
  with True assms(1,2) show ?thesis by (auto simp: runIndexApply_def Let_def)
next
  case False
  let ?sel = "selectDefs want defs"
  have "\<forall>d \<in> set ?sel. dFields d \<noteq> []"
    using configLoop_spec [OF assms(1) [unfolded ParseConfig_def]] by (auto simp: selectDefs_def)
  from merged_fields [OF this] mergeDefs_registered [OF assms(3)] assms(1,2) False
  obtain out where "runIndexApply collate indexes only all dry db = Inr (out, fold registerDef ?sel db)"
    by (auto simp: runIndexApply_def Let_def SetIndexes_def)
  moreover obtain new where "index_defs (fold registerDef ?sel db) = index_defs db @ new" "set new \<subseteq> defRow ` set ?sel"
    "i_index_id ` set (index_defs (fold registerDef ?sel db)) = i_index_id ` set (index_defs db) \<union> ID ` set ?sel"
    "documents (fold registerDef ?sel db) = documents db" "index_entries (fold registerDef ?sel db) = index_entries db"
    using registerDef_append [of ?sel db] by metis
  moreover have "set ?sel = {d \<in> set defs. isWanted want (dCollectionID d)}" by (auto simp: selectDefs_def)
  ultimately show ?thesis using False by (intro exI conjI) (assumption | auto)+
qed

section \<open>A backfill of everything\<close>

lemma set_map_filter: "set (List.map_filter f xs) = {y. \<exists>x. x \<in> set xs \<and> f x = Some y}"
  by (force simp: map_filter_def)

text \<open>
  The table of definitions as registration leaves it: its primary key holds, and the key of a row is
  the hash of its specification. Whether a specification can be read back is another matter.
\<close>

definition rows_registered :: "DB \<Rightarrow> bool" where
  "rows_registered db \<longleftrightarrow> distinct (map i_index_id (index_defs db)) \<and>
     (\<forall>r \<in> set (index_defs db). \<exists>d. i_index_id r = ID d \<and> i_spec r = Spec d)"

lemma rows_registered_empty: "rows_registered empty_db"
  by (simp add: rows_registered_def empty_db_def)

lemma rows_registered_register: "rows_registered db \<Longrightarrow> rows_registered (fold registerDef ds db)"
proof (induction ds arbitrary: db)
  case (Cons d ds)
  have "rows_registered (registerDef d db)" using Cons.prems by (auto simp: rows_registered_def registerDef_def)
  with Cons.IH show ?case by simp
qed simp

lemma rows_registered_drop: "rows_registered db \<Longrightarrow> rows_registered (fst (DropIndex d db))"
  by (auto simp: rows_registered_def DropIndex_def distinct_map_filter)

lemma Cut_Some: "Cut p c = (x, y, True) \<Longrightarrow> p = x @ c # y"
proof -
  assume a: "Cut p c = (x, y, True)"
  then obtain z where z: "dropWhile (\<lambda>d. d \<noteq> c) p = z # y" "x = takeWhile (\<lambda>d. d \<noteq> c) p"
    by (auto simp: Cut_def split: list.splits)
  then have "z = c" using hd_dropWhile [of "\<lambda>d. d \<noteq> c" p] by auto
  with z show ?thesis using takeWhile_dropWhile_id [of "\<lambda>d. d \<noteq> c" p] by simp
qed

lemma parseSpecField_prints: "parseSpecField p = Some f \<Longrightarrow> specField f = CHR ''|'' # p"
  by (auto simp: parseSpecField_def specField.simps split: prod.splits if_splits dest!: Cut_Some)

lemma parseSpecFields_prints:
  "parseSpecFields fs ps = Some fs' \<Longrightarrow> concat (map specField fs') = concat (map specField fs) @ concat (map ((#) CHR ''|'') ps)"
proof (induction fs ps rule: parseSpecFields.induct)
  case (2 fs p ps)
  then obtain f where f: "parseSpecField p = Some f" by (auto split: option.splits)
  with 2 parseSpecField_prints [OF f] show ?case by simp
qed simp

lemma joinWith_bars: "joinWith c (s # ss) = s @ concat (map ((#) c) ss)"
  by (induction ss arbitrary: s) simp_all

lemma CutPrefix_prints: "CutPrefix s p = (t, b) \<Longrightarrow> s = (if b then p else []) @ t"
  by (auto simp: CutPrefix_def split: if_splits) (metis append_take_drop_id)

lemma ParseSpec_prints:
  assumes "ParseSpec s = Some d"
  shows "Spec d = s"
proof -
  from assms obtain body cid ps fs where p: "CutPrefix s ''group:'' = (body, dGroup d)" "splitOn CHR ''|'' body = cid # ps"
    "parseSpecFields [] ps = Some fs" "d = \<lparr>dCollectionID = cid, dFields = fs, dGroup = dGroup d\<rparr>"
    by (auto simp: ParseSpec_def split: prod.splits list.splits if_splits)
  have "body = cid @ concat (map specField fs)"
    using joinWith_splitOn [of "CHR ''|''" body] joinWith_bars [of "CHR ''|''" cid ps] p(2) parseSpecFields_prints [OF p(3)] by simp
  moreover have "s = (if dGroup d then ''group:'' else []) @ body"
    by (rule CutPrefix_prints [OF p(1)])
  moreover have "Spec d = (if dGroup d then ''group:'' else []) @ cid @ concat (map specField fs)"
    by (subst p(4)) (simp add: Spec_def)
  ultimately show ?thesis by simp
qed

lemma parsed_row:
  assumes "rows_registered db" "r \<in> set (index_defs db)" "ParseSpec (i_spec r) = Some d"
  shows "i_index_id r = ID d"
proof -
  obtain d0 where "i_index_id r = ID d0" "i_spec r = Spec d0" using assms(1,2) by (auto simp: rows_registered_def)
  with ParseSpec_prints [OF assms(3)] show ?thesis by (simp add: ID_def)
qed

lemma row_by_id:
  assumes "rows_registered db" "r \<in> set (index_defs db)" "r' \<in> set (index_defs db)" "i_index_id r = i_index_id r'"
  shows "r = r'"
  using assms by (auto simp: rows_registered_def distinct_map inj_on_def)

lemma registered_ids:
  assumes "rows_registered db"
  shows "inj_on ID (registered db)"
proof (rule inj_onI)
  fix d d' assume "d \<in> registered db" "d' \<in> registered db" and eq: "ID d = ID d'"
  then obtain r r' where r: "r \<in> set (index_defs db)" "ParseSpec (i_spec r) = Some d" "r' \<in> set (index_defs db)" "ParseSpec (i_spec r') = Some d'"
    by (auto simp: registered_def)
  have "r = r'" using row_by_id [OF assms r(1,3)] parsed_row [OF assms r(1,2)] parsed_row [OF assms r(3,4)] eq by simp
  with r show "d = d'" by simp
qed

definition markRows :: "int64 set \<Rightarrow> IndexDefRow list \<Rightarrow> IndexDefRow list" where
  "markRows ids = map (\<lambda>r. if i_index_id r \<in> ids then r\<lparr>i_ready := True\<rparr> else r)"

lemma insertEntry_defs [simp]: "index_defs (insertEntry e db) = index_defs db"
  by (simp add: insertEntry_def)

lemma fold_insertEntry_defs [simp]: "index_defs (fold insertEntry es db) = index_defs db"
  by (induction es arbitrary: db) simp_all

lemma backfill_defs:
  "BackfillIndex d (db, reg) = Inr ((db', reg'), n) \<Longrightarrow> index_defs db' = markRows {ID d} (index_defs db)"
  by (auto simp: BackfillIndex_def bind_result_Inr backfillLoad_def MarkIndexReady_def markRows_def Let_def)

lemma markRows_twice: "markRows A (markRows B rs) = markRows (A \<union> B) rs"
  by (simp add: markRows_def)

lemma todo_rows:
  "d \<in> set (backfillTodo [] force (ListIndexes collate db)) \<longleftrightarrow>
   (\<exists>r \<in> set (index_defs db). ParseSpec (i_spec r) = Some d \<and> (force \<or> \<not> i_ready r))"
proof
  assume "d \<in> set (backfillTodo [] force (ListIndexes collate db))"
  then show "\<exists>r \<in> set (index_defs db). ParseSpec (i_spec r) = Some d \<and> (force \<or> \<not> i_ready r)"
    unfolding backfillTodo_def set_map_filter by (auto split: if_splits dest!: ListIndexes_rows)
next
  assume "\<exists>r \<in> set (index_defs db). ParseSpec (i_spec r) = Some d \<and> (force \<or> \<not> i_ready r)"
  then obtain r where r: "r \<in> set (index_defs db)" "ParseSpec (i_spec r) = Some d" "force \<or> \<not> i_ready r" by blast
  from in_ListIndexes [OF r(1)] obtain n where "(i_spec r, i_ready r, n) \<in> set (ListIndexes collate db)" by blast
  with r(2,3) show "d \<in> set (backfillTodo [] force (ListIndexes collate db))"
    unfolding backfillTodo_def set_map_filter by (intro CollectI exI [of _ "(i_spec r, i_ready r, n)"]) auto
qed

lemma skipped_rows:
  "set (backfillSkips [] force (ListIndexes collate db)) =
   {i_spec r | r. r \<in> set (index_defs db) \<and> (force \<or> \<not> i_ready r) \<and> ParseSpec (i_spec r) = None}"
  by (force simp: backfillSkips_def ListIndexes_def)

lemma backfillEach_outcome:
  assumes "backfillEach ds (db, reg) = ((db', reg'), out, e)" "distinct (map r_name (documents db))" "inj_on ID (A \<union> set ds)"
  shows "documents db' = documents db \<and> (\<forall>d \<in> A. index_complete d db \<longrightarrow> index_complete d db') \<and>
    (case e of
       None \<Rightarrow> (\<forall>d \<in> set ds. index_complete d db') \<and> index_defs db' = markRows (ID ` set ds) (index_defs db)
     | Some _ \<Rightarrow> \<exists>d \<in> set ds. \<exists>r \<in> set (documents db). r_collection_id r = dCollectionID d \<and> (\<forall>f. UnmarshalFields (r_data r) \<noteq> Inr f))"
  using assms
proof (induction ds arbitrary: db reg out A)
  case Nil
  then show ?case by (auto simp: markRows_def)
next
  case (Cons d ds)
  show ?case
  proof (cases "BackfillIndex d (db, reg)")
    case (Inl x)
    with Cons.prems backfill_outcome [OF Cons.prems(2), of d reg] show ?thesis by auto
  next
    case (Inr y)
    obtain db1 reg1 n where y: "y = ((db1, reg1), n)" by (cases y) auto
    note bf = Inr [unfolded y]
    from backfill_outcome [OF Cons.prems(2), of d reg] bf have b: "index_complete d db1" "documents db1 = documents db" by simp_all
    from Cons.prems(1) bf obtain out' where each: "backfillEach ds (db1, reg1) = ((db', reg'), out', e)" by (auto split: prod.splits)
    have "inj_on ID (insert d A \<union> set ds)" using Cons.prems(3) by simp
    note IH = Cons.IH [OF each _ this, unfolded b(2), OF Cons.prems(2)]
    have "index_complete d' db'" if "d' \<in> A" "index_complete d' db" for d'
    proof (cases "d' = d")
      case False
      then have "ID d' \<noteq> ID d" using inj_onD [OF Cons.prems(3), of d' d] that(1) by auto
      from backfill_keeps_complete [OF Cons.prems(2) bf that(2) this] IH that(1) show ?thesis by simp
    qed (use IH b(1) in simp)
    then show ?thesis
      using IH b(1) backfill_defs [OF bf] by (cases e) (auto simp: markRows_twice)
  qed
qed

text \<open>
  C14: a backfill of all indexes that ends without an error leaves every registered index whose
  specification can be read ready, fills the pending ones (with \<^verbatim>\<open>-force\<close> all of them) with exactly the entries
  of the stored documents, and keeps the others complete if they were. A row whose specification cannot
  be read is printed as skipped and stays as it was, which is no error. The command only fails on a
  document that cannot be decoded, and never changes a document. It relies on the key of the table alone.
\<close>
theorem backfill_everything:
  assumes names: "distinct (map r_name (documents db))" and rows: "rows_registered db"
    and run: "runIndexBackfill collate [] force db = (db', skipped, out, e)"
  shows "documents db' = documents db \<and>
    (case e of
       None \<Rightarrow>
         map i_spec (index_defs db') = map i_spec (index_defs db) \<and>
         set skipped = {i_spec r | r. r \<in> set (index_defs db) \<and> (force \<or> \<not> i_ready r) \<and> ParseSpec (i_spec r) = None} \<and>
         (\<forall>r \<in> set (index_defs db).
            case ParseSpec (i_spec r) of
              None \<Rightarrow> r \<in> set (index_defs db')
            | Some d \<Rightarrow> r\<lparr>i_ready := True\<rparr> \<in> set (index_defs db') \<and>
                (force \<or> \<not> i_ready r \<longrightarrow> index_complete d db') \<and> (index_complete d db \<longrightarrow> index_complete d db'))
     | Some _ \<Rightarrow> \<exists>r \<in> set (documents db). \<forall>f. UnmarshalFields (r_data r) \<noteq> Inr f)"
proof -
  let ?todo = "backfillTodo [] force (ListIndexes collate db)"
  obtain reg where each: "backfillEach ?todo (db, \<lparr>byColl = [], reg_ready = []\<rparr>) = ((db', reg), out, e)"
    and sk: "skipped = backfillSkips [] force (ListIndexes collate db)"
    using run by (auto simp: runIndexBackfill_def Let_def split: prod.splits)
  have todo: "d \<in> set ?todo \<longleftrightarrow> (\<exists>r \<in> set (index_defs db). ParseSpec (i_spec r) = Some d \<and> (force \<or> \<not> i_ready r))" for d
    by (rule todo_rows)
  then have "set ?todo \<subseteq> registered db" by (auto simp: registered_def)
  with registered_ids [OF rows] have "inj_on ID (registered db \<union> set ?todo)" by (simp add: Un_absorb2)
  note o = backfillEach_outcome [OF each names this]
  have marked: "i_index_id r \<in> ID ` set ?todo \<longleftrightarrow> (\<exists>d. ParseSpec (i_spec r) = Some d) \<and> (force \<or> \<not> i_ready r)"
    if r: "r \<in> set (index_defs db)" for r
  proof
    assume "i_index_id r \<in> ID ` set ?todo"
    then obtain d r' where "i_index_id r = ID d" "r' \<in> set (index_defs db)" "ParseSpec (i_spec r') = Some d" "force \<or> \<not> i_ready r'"
      using todo by auto
    with row_by_id [OF rows r, of r'] parsed_row [OF rows, of r' d] show "(\<exists>d. ParseSpec (i_spec r) = Some d) \<and> (force \<or> \<not> i_ready r)" by auto
  next
    assume "(\<exists>d. ParseSpec (i_spec r) = Some d) \<and> (force \<or> \<not> i_ready r)"
    then obtain d where "ParseSpec (i_spec r) = Some d" "d \<in> set ?todo" using todo r by blast
    with parsed_row [OF rows r] show "i_index_id r \<in> ID ` set ?todo" by simp
  qed
  have after: "case ParseSpec (i_spec r) of None \<Rightarrow> r \<in> set (index_defs db')
      | Some d \<Rightarrow> r\<lparr>i_ready := True\<rparr> \<in> set (index_defs db') \<and>
          (force \<or> \<not> i_ready r \<longrightarrow> index_complete d db') \<and> (index_complete d db \<longrightarrow> index_complete d db')"
    if e: "e = None" and r: "r \<in> set (index_defs db)" for r
  proof -
    have defs: "(if i_index_id r \<in> ID ` set ?todo then r\<lparr>i_ready := True\<rparr> else r) \<in> set (index_defs db')"
      using o e r by (auto simp: markRows_def)
    show ?thesis
    proof (cases "ParseSpec (i_spec r)")
      case (Some d)
      then have "d \<in> registered db" using r by (auto simp: registered_def)
      moreover have "d \<in> set ?todo" if "force \<or> \<not> i_ready r" using todo r Some that by blast
      moreover have "r\<lparr>i_ready := True\<rparr> \<in> set (index_defs db')"
      proof (cases "force \<or> \<not> i_ready r")
        case False
        then have "r\<lparr>i_ready := True\<rparr> = r" by (cases r) simp
        with defs show ?thesis by (simp split: if_splits)
      qed (use defs marked [OF r] Some in simp)
      ultimately show ?thesis using o e Some by simp
    qed (use defs marked [OF r] in simp)
  qed
  moreover have "map i_spec (index_defs db') = map i_spec (index_defs db)" if "e = None" using o that by (simp add: markRows_def)
  ultimately show ?thesis using o skipped_rows [of force collate db] sk by (cases e) auto
qed

section \<open>Dropping\<close>

text \<open>
  \<^verbatim>\<open>kor drop\<close> deletes nothing unless it is confirmed and no dry run; confirmed, it removes exactly the
  documents of the collection, and every complete index stays complete.
\<close>
theorem drop_confirmed:
  assumes "distinct (map r_name (documents db))" "coll \<noteq> []"
  shows "\<exists>db' deleted. runDrop coll dry yes batch db = Inr (CountCollection coll db, db', deleted) \<and>
    (if dry \<or> \<not> yes then db' = db
     else documents db' = filter (\<lambda>r. r_collection_id r \<noteq> coll) (documents db) \<and>
       (\<forall>d. index_complete d db \<longrightarrow> index_complete d db'))"
proof (cases "CountCollection coll db = 0")
  case True
  then have "filter (\<lambda>r. r_collection_id r \<noteq> coll) (documents db) = documents db"
    by (auto simp: CountCollection_def filter_empty_conv filter_id_conv)
  with True assms(2) show ?thesis by (simp add: runDrop_def)
next
  case False
  with drop_outcome [OF assms, of batch] assms(2) show ?thesis by (auto simp: runDrop_def Let_def)
qed

lemma drop_index_exact:
  assumes "runIndexDrop spec db = Inr (db', n)"
  shows "\<exists>d. ParseSpec spec = Some d \<and> documents db' = documents db \<and> n = CountIndexEntries d db \<and>
    CountIndexEntries d db' = 0 \<and> ID d \<notin> i_index_id ` set (index_defs db') \<and>
    (\<forall>d'. ID d' \<noteq> ID d \<longrightarrow> index_complete d' db \<longrightarrow> index_complete d' db')"
proof -
  from assms obtain d where d: "ParseSpec spec = Some d" "DropIndex d db = (db', n)"
    by (auto simp: runIndexDrop_def split: if_splits option.splits)
  have "rowOf db' = rowOf db" by (rule rowOf_cong) (use d(2) in \<open>auto simp: DropIndex_def\<close>)
  then have "docEntries d' db' = docEntries d' db" for d' by (simp add: docEntries_def fun_eq_iff)
  with d show ?thesis by (auto simp: DropIndex_def CountIndexEntries_def index_complete_def filter_empty_conv)
qed

section \<open>Commands beside a running server\<close>

definition a_file :: "fileIndex list" where
  "a_file = [\<lparr>fi_CollectionGroup = ''c'', fi_QueryScope = ''COLLECTION'',
     fi_Fields = [\<lparr>ff_FieldPath = ''a'', ff_Order = ''ASCENDING'', ff_ArrayConfig = [], ff_VectorConfig = []\<rparr>]\<rparr>]"

lemma a_file_parsed: "ParseConfig a_file = Some ([a_index], [])"
  by (simp add: ParseConfig_def a_file_def configIndex_def EqualFold_def  a_index_def ContainsPath_def)

lemma a_spec: "ParseSpec (Spec a_index) = Some a_index"
  by (rule ParseSpec_Spec) (simp add: spec_safe_def a_index_def)

abbreviation (input) a_row :: "bool \<Rightarrow> IndexDefRow" where
  "a_row rdy \<equiv> (defRow a_index)\<lparr>i_ready := rdy\<rparr>"

lemma a_apply:
  "runIndexApply collate a_file [] True False empty_db = Inr ([IndexLine (Spec a_index)], empty_db\<lparr>index_defs := [a_row False]\<rparr>)"
proof -
  have d: "dFields a_index \<noteq> []" by (simp add: a_index_def)
  have "selectDefs None [a_index] = [a_index]" by (simp add: selectDefs_def isWanted_def)
  then show ?thesis
    by (simp add: runIndexApply_def a_file_parsed wantedCollections_def mergeDefs_def ListIndexes_def empty_db_def SetIndexes_def
        registerDef_def defRow_def isWanted_def map_filter_def d Let_def)
qed

lemma a_backfill:
  "runIndexBackfill collate [] False (empty_db\<lparr>index_defs := [a_row False]\<rparr>) =
     (empty_db\<lparr>index_defs := [a_row True]\<rparr>, [], [(0, Spec a_index)], None)"
  by (simp add: runIndexBackfill_def backfillSkips_def backfillTodo_def ListIndexes_def map_filter_def a_spec BackfillIndex_def backfillScan_def
      backfillLoad_def MarkIndexReady_def empty_db_def)

lemma a_loaded:
  assumes "index_defs db = [a_row True]"
  shows "forCollection (fst (LoadIndexes db)) ''c'' = [a_index]" "ID a_index \<in> set (reg_ready (fst (LoadIndexes db)))"
  using assms a_spec by (simp_all add: LoadIndexes_def addDef_def forCollection_def) (simp_all add: a_index_def)

lemma empty_index_answer:
  assumes "forCollection reg ''c'' = [a_index]" "ID a_index \<in> set (reg_ready reg)" "index_entries db = []"
  shows "RunQuery contains reg (by_a parent) db = ([], None)"
proof -
  let ?plan = "\<lparr>pDef = a_index, Ranges = [rangeFor a_index 0 [] False (by_a parent)], Reversed = False, Dedup = False\<rparr>"
  have "scanIndex (by_a parent) ?plan db = []" by (simp add: scanIndex_def scanRange_def assms(3))
  then have "runIndexed (by_a parent) ?plan db = ([], None)" by (simp add: runIndexed_def)
  moreover have "forCollection reg (CollectionID (by_a parent)) \<noteq> []" using assms(1) by (simp add: by_a_def a_query_def)
  ultimately show ?thesis
    using planned_For [OF by_a_planned [OF assms(1,2)]] by (simp add: RunQuery_def split: prod.split)
qed

lemma sample_commit_unindexed:
  assumes "documents db = []" "forCollection reg ''c'' = []"
  obtains db' where "applyCommit reg 7 1000 [sample_write NullValue] [] [] db =
      Inr (db', [\<lparr>wr_UpdateTime = 1000, wr_TransformResults = []\<rparr>], 1000)" "documents db' = [sample_row]"
    "index_entries db' = index_entries db" "index_defs db' = index_defs db"
proof -
  have st: "ds_Dirty (sample_state NullValue)" "ds_Exists (sample_state NullValue)" "stateFields (sample_state NullValue) = [(''a'', NullValue)]"
      "ds_CreateTime (sample_state NullValue) = 1000" "ds_UpdateTime (sample_state NullValue) = 1000"
    by (simp_all add: sample_state_def stateFields_def)
  have row: "\<lparr>r_name = sample_name, r_parent_path = ''projects/p/databases/d/documents'', r_collection_id = ''c'', r_doc_id = ''x'',
      r_data = r_data sample_row, r_create_time = 1000, r_update_time = 1000\<rparr> = sample_row" by (simp add: sample_row_def)
  have "upsertDocument sample_row db = db\<lparr>documents := [sample_row]\<rparr>" using assms by (simp add: upsertDocument_def)
  moreover have "verifyReads [] []" by (simp add: verifyReads_def)
  ultimately show thesis
    using that assms sample_data(2)
    by (simp add: applyCommit_def Truncate_1000 sample_target sample_path sample_Apply scanDocs_def
        persistDoc_def st Let_def pathOf_def row refreshIndexEntries_def registerCollection_def appendChange_def)
qed

text \<open>
  C39: an index registered and backfilled while a server runs can lose documents for good. The server
  maintains the definitions of its own registry, which it reloads every half minute: a document it
  writes after the backfill and before the reload gets no entry, the index is ready all the same, and
  once reloaded the server answers from it without the document.
\<close>
theorem unreloaded_index_loses_writes:
  "\<exists>lines db1 db2 db3 results.
     runIndexApply collate a_file [] True False empty_db = Inr (lines, db1) \<and>
     runIndexBackfill collate [] False db1 = (db2, [], [(0, Spec a_index)], None) \<and>
     applyCommit (fst (LoadIndexes empty_db)) 7 1000 [sample_write NullValue] [] [] db2 = Inr (db3, results, 1000) \<and>
     RunQuery contains (fst (LoadIndexes db3)) (by_a ''projects/p/databases/d/documents'') db3 = ([], None) \<and>
     reference (by_a ''projects/p/databases/d/documents'') db3 = [sample_doc]"
proof -
  let ?db2 = "empty_db\<lparr>index_defs := [a_row True]\<rparr>"
  have "documents ?db2 = []" by (simp add: empty_db_def)
  moreover have "forCollection (fst (LoadIndexes empty_db)) ''c'' = []" by (simp add: LoadIndexes_def empty_db_def forCollection_def)
  ultimately obtain db3 where c: "applyCommit (fst (LoadIndexes empty_db)) 7 1000 [sample_write NullValue] [] [] ?db2 =
      Inr (db3, [\<lparr>wr_UpdateTime = 1000, wr_TransformResults = []\<rparr>], 1000)" "documents db3 = [sample_row]"
    "index_entries db3 = index_entries ?db2" "index_defs db3 = index_defs ?db2" by (rule sample_commit_unindexed)
  have "index_entries db3 = []" "index_defs db3 = [a_row True]" using c(3,4) by (simp_all add: empty_db_def)
  then have "RunQuery contains (fst (LoadIndexes db3)) (by_a ''projects/p/databases/d/documents'') db3 = ([], None)"
    by (intro empty_index_answer a_loaded)
  with a_apply a_backfill c(1) sample_answer [OF c(2)] show ?thesis by blast
qed

text \<open>Until the reload the server also answers from an index that was dropped, from no entries at all.\<close>

lemma dropped_index_still_serves:
  assumes "forCollection reg ''c'' = [a_index]" "ID a_index \<in> set (reg_ready reg)"
    and "runIndexDrop (Spec a_index) db = Inr (db', n)" "\<forall>e \<in> set (index_entries db). e_index_id e = ID a_index"
  shows "RunQuery contains reg (by_a parent) db' = ([], None)"
proof -
  have "Spec a_index \<noteq> []" using a_spec by (auto simp: ParseSpec_def CutPrefix_def)
  with assms(3) a_spec have "db' = fst (DropIndex a_index db)" by (auto simp: runIndexDrop_def)
  then have "index_entries db' = []" using assms(4) by (simp add: DropIndex_def filter_empty_conv)
  then show ?thesis by (rule empty_index_answer [OF assms(1,2)])
qed

section \<open>Examples\<close>

theorem apply_registers_witness:
  "\<exists>out db'. runIndexApply (\<lambda>_. 0) a_file [] True False empty_db = Inr (out, db') \<and> ID a_index \<in> i_index_id ` set (index_defs db')"
proof -
  have "wantedCollections [] True empty_db = Inr None" "defs_ok empty_db" by (simp_all add: wantedCollections_def defs_ok_def empty_db_def)
  from apply_registers [OF a_file_parsed this, of "\<lambda>_. 0" False] show ?thesis by (auto simp: isWanted_def)
qed

theorem backfill_everything_witness:
  "\<exists>db' skipped out. runIndexBackfill (\<lambda>_. 0) [] False (empty_db\<lparr>index_defs := [a_row False]\<rparr>) = (db', skipped, out, None) \<and>
     a_row True \<in> set (index_defs db') \<and> index_complete a_index db'"
proof -
  let ?db = "empty_db\<lparr>index_defs := [a_row False]\<rparr>"
  have "rows_registered ?db" "distinct (map r_name (documents ?db))" by (auto simp: rows_registered_def empty_db_def)
  from backfill_everything [OF this(2,1) a_backfill [of "\<lambda>_. 0"]] a_spec a_backfill [of "\<lambda>_. 0"] show ?thesis by simp
qed

theorem drop_confirmed_witness:
  "\<exists>db' deleted. runDrop ''c'' False True 1 one_doc = Inr (1, db', deleted) \<and> documents db' = []"
  using drop_confirmed [of one_doc "''c''" False True 1] by (auto simp: one_doc_def CountCollection_def)

end
