(* ===== verification/Daemon.thy ===== *)
theory Daemon
  imports IndexStore
begin

text \<open>
  File \<^verbatim>\<open>cmd/kord/main.go\<close>: how the server starts, and the check that keeps a server without authentication
  off addresses that other hosts can reach; from \<^verbatim>\<open>rpc/metrics.go\<close>, the listener for metrics, which has no
  such check. \<^verbatim>\<open>net.SplitHostPort\<close> and \<^verbatim>\<open>net.ParseIP\<close> are
  modelled down to the characters; the resolver is an argument, as are the outcomes of opening the
  store and of listening.
\<close>

section \<open>Addresses\<close>

text \<open>The 16 bytes of an address, IPv4 ones in their mapped form, as \<^verbatim>\<open>net.ParseIP\<close> returns them.\<close>

type_synonym ip = "byte list"

definition v4InV6 :: "byte list \<Rightarrow> ip" where
  "v4InV6 v4 = replicate 10 0 @ [0xFF, 0xFF] @ v4"

definition IsLoopback :: "ip \<Rightarrow> bool" where
  "IsLoopback ip = (if take 12 ip = v4InV6 [] then take 1 (drop 12 ip) = [127] else ip = replicate 15 0 @ [1])"

text \<open>The fields so far, the value and the number of digits of the current one.\<close>

fun parseIPv4 :: "byte list \<Rightarrow> nat \<Rightarrow> nat \<Rightarrow> string \<Rightarrow> byte list option" where
  "parseIPv4 octets val digLen [] = (if length octets < 3 then None else Some (octets @ [of_nat val]))"
| "parseIPv4 octets val digLen (c # s) =
     (if is_digit c then
        (if digLen = 1 \<and> val = 0 then None
         else let val' = val * 10 + digit_val c
              in if val' > 255 then None else parseIPv4 octets val' (digLen + 1) s)
      else if c = CHR ''.'' then
        (if digLen = 0 \<or> s = [] then None
         else if length octets = 3 then None
         else parseIPv4 (octets @ [of_nat val]) 0 0 s)
      else None)"

definition hexVal :: "char \<Rightarrow> nat option" where
  "hexVal c =
     (if is_digit c then Some (digit_val c)
      else if CHR ''a'' \<le> c \<and> c \<le> CHR ''f'' then Some (of_char c - 97 + 10)
      else if CHR ''A'' \<le> c \<and> c \<le> CHR ''F'' then Some (of_char c - 65 + 10)
      else None)"

definition hexGroup :: "string \<Rightarrow> nat" where
  "hexGroup h = foldl (\<lambda>acc c. acc * 16 + (case hexVal c of None \<Rightarrow> 0 | Some v \<Rightarrow> v)) 0 h"

text \<open>The groups left to read, the bytes so far, the position of the ellipsis, the text left.\<close>

primrec parseGroups :: "nat \<Rightarrow> byte list \<Rightarrow> nat option \<Rightarrow> string \<Rightarrow> (byte list \<times> nat option \<times> string) option" where
  "parseGroups 0 ip ellipsis s = Some (ip, ellipsis, s)"
| "parseGroups (Suc g) ip ellipsis s =
     (let h = takeWhile (\<lambda>c. hexVal c \<noteq> None) s; rest = dropWhile (\<lambda>c. hexVal c \<noteq> None) s
      in if length h > 4 \<or> h = [] then None
         else if take 1 rest = ''.'' then
           (if (ellipsis = None \<and> length ip \<noteq> 12) \<or> length ip + 4 > 16 then None
            else map_option (\<lambda>v4. (ip @ v4, ellipsis, [])) (parseIPv4 [] 0 0 s))
         else
           let ip' = ip @ [of_nat (hexGroup h div 256), of_nat (hexGroup h mod 256)]
           in case rest of
                [] \<Rightarrow> Some (ip', ellipsis, [])
              | c # r \<Rightarrow>
                  if c \<noteq> CHR '':'' \<or> r = [] then None
                  else if hd r = CHR '':'' then
                    (if ellipsis \<noteq> None then None
                     else if tl r = [] then Some (ip', Some (length ip'), [])
                     else parseGroups g ip' (Some (length ip')) (tl r))
                  else parseGroups g ip' ellipsis r)"

definition parseIPv6 :: "string \<Rightarrow> ip option" where
  "parseIPv6 s0 =
     (let (ellipsis, s) = (if take 2 s0 = ''::'' then (Some 0, drop 2 s0) else (None, s0))
      in if ellipsis \<noteq> None \<and> s = [] then Some (replicate 16 0)
         else case parseGroups 8 [] ellipsis s of
                None \<Rightarrow> None
              | Some (ip, e, rest) \<Rightarrow>
                  if rest \<noteq> [] then None
                  else if length ip < 16 then
                    map_option (\<lambda>p. take p ip @ replicate (16 - length ip) 0 @ drop p ip) e
                  else if e \<noteq> None then None else Some ip)"

text \<open>An address with a zone is none for \<^verbatim>\<open>net.ParseIP\<close>.\<close>

definition ParseIP :: "string \<Rightarrow> ip option" where
  "ParseIP s =
     (if CHR ''%'' \<in> set s then None
      else case find (\<lambda>c. c = CHR ''.'' \<or> c = CHR '':'') s of
             None \<Rightarrow> None
           | Some c \<Rightarrow> if c = CHR ''.'' then map_option v4InV6 (parseIPv4 [] 0 0 s) else parseIPv6 s)"

definition lastColon :: "string \<Rightarrow> (string \<times> string) option" where
  "lastColon s =
     (if CHR '':'' \<notin> set s then None
      else let port = rev (takeWhile (\<lambda>c. c \<noteq> CHR '':'') (rev s))
           in Some (take (length s - length port - 1) s, port))"

definition SplitHostPort :: "string \<Rightarrow> (string \<times> string) option" where
  "SplitHostPort hostport =
     (case lastColon hostport of
        None \<Rightarrow> None
      | Some (before, port) \<Rightarrow>
          if hd hostport = CHR ''['' then
            let host = takeWhile (\<lambda>c. c \<noteq> CHR '']'') (tl hostport)
            in if CHR ''['' # host @ '']'' \<noteq> before \<or> CHR ''['' \<in> set host \<or>
                  CHR ''['' \<in> set port \<or> CHR '']'' \<in> set port
               then None else Some (host, port)
          else if CHR '':'' \<in> set before \<or> CHR ''['' \<in> set hostport \<or> CHR '']'' \<in> set hostport then None
          else Some (before, port))"

section \<open>The check\<close>

datatype bindError = CannotParse | EveryInterface | NotLoopback string

text \<open>The resolver answers no address when it fails.\<close>

definition isLoopbackHost :: "(string \<Rightarrow> ip list) \<Rightarrow> string \<Rightarrow> bool" where
  "isLoopbackHost lookup host =
     (case ParseIP host of
        Some ip \<Rightarrow> IsLoopback ip
      | None \<Rightarrow> host = ''localhost'' \<or> (lookup host \<noteq> [] \<and> list_all IsLoopback (lookup host)))"

definition requireLoopback :: "(string \<Rightarrow> ip list) \<Rightarrow> string \<Rightarrow> bindError option" where
  "requireLoopback lookup addr =
     (case SplitHostPort addr of
        None \<Rightarrow> Some CannotParse
      | Some (host, port) \<Rightarrow>
          if host = [] then Some EveryInterface
          else if isLoopbackHost lookup host then None else Some (NotLoopback host))"

section \<open>Starting the server\<close>

definition envOr :: "(string \<Rightarrow> string) \<Rightarrow> string \<Rightarrow> string \<Rightarrow> string" where
  "envOr env key dflt = (if env key \<noteq> [] then env key else dflt)"

definition flagOr :: "'a \<Rightarrow> 'a option \<Rightarrow> 'a" where
  "flagOr dflt given = (case given of None \<Rightarrow> dflt | Some v \<Rightarrow> v)"

record flags =
  fl_listen :: "string option"
  fl_dsn :: "string option"
  fl_metrics :: "string option"
  fl_allowPublic :: "bool option"

text \<open>
  A server that serves: the address of the data service, the addresses of the metrics listener (one or
  none), and the index registry.
\<close>

datatype started = Exit nat | Serving string "string list" indexRegistry

text \<open>The metrics server listens on the address as it is given; a failure to listen is ignored.\<close>

definition ServeMetrics :: "(string \<Rightarrow> bool) \<Rightarrow> string \<Rightarrow> string list" where
  "ServeMetrics listens addr = (if listens addr then [addr] else [])"

definition allowPublic :: "(string \<Rightarrow> string) \<Rightarrow> flags \<Rightarrow> bool" where
  "allowPublic env fl = flagOr (envOr env ''KORD_ALLOW_PUBLIC_BIND'' [] \<noteq> []) (fl_allowPublic fl)"

text \<open>
  The tables the store opens with, if it opens, and which addresses can be bound. Loading the
  index registry is never fatal; the same load runs again every half minute.
\<close>

definition kord_main :: "(string \<Rightarrow> string) \<Rightarrow> flags \<Rightarrow> (string \<Rightarrow> ip list) \<Rightarrow> DB option \<Rightarrow> (string \<Rightarrow> bool) \<Rightarrow> started" where
  "kord_main env fl lookup opened listens =
     (let listen = flagOr (envOr env ''KORD_LISTEN'' ''127.0.0.1:6565'') (fl_listen fl);
          dsn = flagOr (env ''KORD_PG_DSN'') (fl_dsn fl);
          metricsAddr = flagOr (envOr env ''KORD_METRICS'' ''127.0.0.1:6566'') (fl_metrics fl)
      in if dsn = [] then Exit 2
         else if \<not> allowPublic env fl \<and> requireLoopback lookup listen \<noteq> None then Exit 2
         else case opened of
                None \<Rightarrow> Exit 1
              | Some db \<Rightarrow>
                  if \<not> listens listen then Exit 1
                  else Serving listen (if metricsAddr \<noteq> [] then ServeMetrics listens metricsAddr else []) (fst (LoadIndexes db)))"

section \<open>What the check lets through\<close>

text \<open>
  The addresses a host stands for when the server binds it: every interface for the empty host, itself for
  an address, and what the resolver says for a name.
\<close>

definition bound :: "(string \<Rightarrow> ip list) \<Rightarrow> string \<Rightarrow> ip set" where
  "bound lookup host =
     (if host = [] then {replicate 16 0}
      else case ParseIP host of Some ip \<Rightarrow> {ip} | None \<Rightarrow> set (lookup host))"

lemma bound_loopback:
  assumes "requireLoopback lookup addr = None"
  shows "\<exists>host port. SplitHostPort addr = Some (host, port) \<and> host \<noteq> [] \<and>
    (host = ''localhost'' \<or> bound lookup host \<noteq> {} \<and> (\<forall>ip \<in> bound lookup host. IsLoopback ip))"
proof -
  obtain host port where "SplitHostPort addr = Some (host, port)" "host \<noteq> []" "isLoopbackHost lookup host"
    using assms by (auto simp: requireLoopback_def split: option.splits if_splits)
  then show ?thesis by (auto simp: bound_def isLoopbackHost_def list_all_iff split: option.splits)
qed

text \<open>
  C21: the data service of a server that starts without the explicit permission listens on a host that is the name
  localhost or stands for loopback addresses only, whatever flags, environment and resolver are. This
  is about the gRPC address; the address for metrics is not checked, as the next theorem shows.
\<close>
theorem private_by_default:
  assumes "kord_main env fl lookup opened listens = Serving addr metrics reg" "\<not> allowPublic env fl"
  shows "listens addr \<and> (\<exists>host port. SplitHostPort addr = Some (host, port) \<and> host \<noteq> [] \<and>
    (host = ''localhost'' \<or> bound lookup host \<noteq> {} \<and> (\<forall>ip \<in> bound lookup host. IsLoopback ip)))"
proof -
  have "requireLoopback lookup addr = None" "listens addr"
    using assms by (auto simp: kord_main_def Let_def split: if_splits option.splits)
  with bound_loopback show ?thesis by blast
qed

text \<open>
  The metrics listener takes its address as it is given: without the permission, a server whose data
  service passes the check serves metrics on an address that the check refuses.
\<close>
theorem metrics_address_unchecked:
  assumes "\<not> allowPublic env fl" "fl_listen fl = Some addr" "requireLoopback lookup addr = None" "fl_dsn fl = Some dsn" "dsn \<noteq> []"
    and "fl_metrics fl = Some m" "m \<noteq> []" "requireLoopback lookup m \<noteq> None" "listens addr" "listens m"
  shows "kord_main env fl lookup (Some db) listens = Serving addr [m] (fst (LoadIndexes db))"
  using assms by (simp add: kord_main_def flagOr_def ServeMetrics_def)

section \<open>Numeric addresses\<close>

lemma dec_cases:
  assumes "n < 1000"
  shows "dec n = (if n < 10 then [digit n] else if n < 100 then [digit (n div 10), digit (n mod 10)]
    else [digit (n div 100), digit (n div 10 mod 10), digit (n mod 10)])"
proof -
  have "n div 100 < 10" "n div 10 < 10 \<longleftrightarrow> n < 100" "n div 10 div 10 = n div 100" using assms by auto
  then show ?thesis by (simp add: dec.simps [of n] dec.simps [of "n div 10"] dec.simps [of "n div 100"])
qed

lemma parse_octet:
  assumes "n < 256"
  shows "parseIPv4 octets 0 0 (dec n @ s) = parseIPv4 octets n (length (dec n)) s"
proof -
  consider "n < 10" | "10 \<le> n" "n < 100" | "100 \<le> n" by linarith
  then show ?thesis
  proof cases
    case 1
    then show ?thesis by (simp add: dec_cases Let_def)
  next
    case 2
    then have "n div 10 < 10" "n div 10 \<noteq> 0" "n div 10 * 10 + n mod 10 = n" "n div 10 < 256" by auto
    with 2 show ?thesis by (simp add: dec_cases Let_def)
  next
    case 3
    have "n div 10 = 10 * (n div 100) + n div 10 mod 10" using mult_div_mod_eq [of 10 "n div 10"] by (simp add: div_mult2_eq [symmetric])
    then have q: "n div 100 < 10" "n div 100 \<noteq> 0" "n div 100 * 10 + n div 10 mod 10 = n div 10" "n div 10 * 10 + n mod 10 = n"
      "n div 10 < 256" "n div 10 \<noteq> 0" "\<not> n < 100" "\<not> n < 10"
      using 3 assms by auto
    with assms show ?thesis by (simp add: dec_cases Let_def)
  qed
qed

lemma find_after: "(\<And>x. x \<in> set xs \<Longrightarrow> \<not> P x) \<Longrightarrow> find P (xs @ ys) = find P ys"
  by (induction xs) auto

definition dotted :: "nat \<Rightarrow> nat \<Rightarrow> nat \<Rightarrow> nat \<Rightarrow> string" where
  "dotted a b c d = dec a @ ''.'' @ dec b @ ''.'' @ dec c @ ''.'' @ dec d"

lemma dotted_chars: "ch \<in> set (dotted a b c d) \<Longrightarrow> is_digit ch \<or> ch = CHR ''.''"
  by (auto simp: dotted_def dest: dec_digits)

lemma ParseIP_dotted:
  assumes "a < 256" "b < 256" "c < 256" "d < 256"
  shows "ParseIP (dotted a b c d) = Some (v4InV6 (map of_nat [a, b, c, d]))"
proof -
  have "parseIPv4 [] 0 0 (dotted a b c d) = Some (map of_nat [a, b, c, d])"
    using assms parse_octet [of d _ "[]"] by (simp add: dotted_def parse_octet not_digits)
  moreover have "CHR ''%'' \<notin> set (dotted a b c d)" "CHR '':'' \<notin> set (dotted a b c d)"
    using dotted_chars [of _ a b c d] by (fastforce simp: is_digit_def)+
  moreover have "find (\<lambda>ch. ch = CHR ''.'' \<or> ch = CHR '':'') (dotted a b c d) = Some CHR ''.''"
    unfolding dotted_def by (subst find_after) (auto dest: dec_digits)
  ultimately show ?thesis by (simp add: ParseIP_def)
qed

lemma IsLoopback_v4: "IsLoopback (v4InV6 [a, b, c, d]) \<longleftrightarrow> a = 127"
  by (simp add: IsLoopback_def v4InV6_def)

lemma octet_127: "n < 256 \<Longrightarrow> (of_nat n :: byte) = 127 \<longleftrightarrow> n = 127"
proof -
  assume "n < 256"
  then have "unat (of_nat n :: byte) = n" by (simp add: unat_of_nat)
  moreover have "unat (127 :: byte) = 127" by simp
  ultimately show ?thesis by (metis of_nat_numeral)
qed

lemma lastColon_append:
  "CHR '':'' \<notin> set port \<Longrightarrow> lastColon (host @ CHR '':'' # port) = Some (host, port)"
  by (simp add: lastColon_def takeWhile_append takeWhile_eq_all_conv [THEN iffD2] Let_def)

definition plain_port :: "string \<Rightarrow> bool" where
  "plain_port port \<longleftrightarrow> set port \<inter> {CHR '':'', CHR ''['', CHR '']''} = {}"

lemma SplitHostPort_plain:
  assumes "plain_port host" "plain_port port"
  shows "SplitHostPort (host @ CHR '':'' # port) = Some (host, port)"
proof -
  have "hd (host @ CHR '':'' # port) \<noteq> CHR ''[''" using assms(1) by (cases host) (auto simp: plain_port_def)
  moreover have "lastColon (host @ CHR '':'' # port) = Some (host, port)"
    by (rule lastColon_append) (use assms(2) in \<open>auto simp: plain_port_def\<close>)
  ultimately show ?thesis using assms by (auto simp: SplitHostPort_def plain_port_def)
qed

lemma loopback_v4:
  assumes "a < 256" "b < 256" "c < 256" "d < 256" "plain_port port"
  shows "requireLoopback lookup (dotted a b c d @ '':'' @ port) = (if a = 127 then None else Some (NotLoopback (dotted a b c d)))"
proof -
  have "plain_port (dotted a b c d)"
    using dotted_chars [of _ a b c d] by (fastforce simp: plain_port_def is_digit_def)
  from SplitHostPort_plain [OF this assms(5)] have "SplitHostPort (dotted a b c d @ '':'' @ port) = Some (dotted a b c d, port)" by simp
  moreover have "isLoopbackHost lookup (dotted a b c d) \<longleftrightarrow> a = 127"
    using assms(1-4) by (simp add: isLoopbackHost_def ParseIP_dotted IsLoopback_v4 octet_127)
  moreover have "dotted a b c d \<noteq> []" by (simp add: dotted_def)
  ultimately show ?thesis by (simp add: requireLoopback_def)
qed

text \<open>
  A numeric IPv4 listen address is accepted exactly when it lies in 127.0.0.0/8, whatever the resolver says,
  and an address without a host is refused, for every port.
\<close>
theorem numeric_bind_decided:
  assumes "a < 256" "b < 256" "c < 256" "d < 256" "plain_port port"
  shows "requireLoopback lookup (dotted a b c d @ '':'' @ port) =
      (if a = 127 then None else Some (NotLoopback (dotted a b c d))) \<and>
    requireLoopback lookup ('':'' @ port) = Some EveryInterface"
proof -
  have "plain_port []" by (simp add: plain_port_def)
  from SplitHostPort_plain [OF this assms(5)] have "SplitHostPort ('':'' @ port) = Some ([], port)" by simp
  with loopback_v4 [OF assms] show ?thesis by (simp add: requireLoopback_def)
qed

text \<open>
  The name localhost is accepted without asking the resolver, so a host that maps it elsewhere
  gets a server on that address.
\<close>
theorem localhost_not_resolved:
  "requireLoopback lookup ''localhost:6565'' = None \<and>
   bound (\<lambda>_. [v4InV6 [10, 0, 0, 5]]) ''localhost'' = {v4InV6 [10, 0, 0, 5]} \<and> \<not> IsLoopback (v4InV6 [10, 0, 0, 5])"
proof -
  have "ParseIP ''localhost'' = None" by (simp add: ParseIP_def)
  moreover have "SplitHostPort ''localhost:6565'' = Some (''localhost'', ''6565'')" by code_simp
  ultimately show ?thesis by (simp add: requireLoopback_def isLoopbackHost_def bound_def IsLoopback_v4)
qed

text \<open>The addresses of the bind test.\<close>

lemma eight: "Suc 7 = 8"
  by simp

lemmas parseGroups_8 = parseGroups.simps(2) [of 7, unfolded eight]

lemma zero_bytes [simp]: "IsLoopback (replicate 14 0 @ [0, 1])" "\<not> IsLoopback (replicate 16 0)"
  by code_simp+

lemmas bind_eval =
  requireLoopback_def SplitHostPort_def lastColon_def isLoopbackHost_def ParseIP_def parseIPv6_def parseGroups_8 hexVal_def
  hexGroup_def is_digit_def digit_val_def

lemma ipv6_bind_examples:
  "requireLoopback lookup ''[::1]:6565'' = None"
  "requireLoopback lookup ''[::]:6565'' = Some (NotLoopback ''::'')"
  by (simp_all add: bind_eval)

abbreviation (input) default_flags :: flags where
  "default_flags \<equiv> \<lparr>fl_listen = None, fl_dsn = Some ''dsn'', fl_metrics = None, fl_allowPublic = None\<rparr>"

theorem private_by_default_witness:
  "\<exists>host port. SplitHostPort ''127.0.0.1:6565'' = Some (host, port) \<and> host \<noteq> [] \<and>
     (host = ''localhost'' \<or> bound (\<lambda>_. []) host \<noteq> {} \<and> (\<forall>ip \<in> bound (\<lambda>_. []) host. IsLoopback ip))"
proof -
  have "dotted 127 0 0 1 @ '':'' @ ''6565'' = ''127.0.0.1:6565''" by code_simp
  then have "requireLoopback (\<lambda>_. []) ''127.0.0.1:6565'' = None"
    using loopback_v4 [of 127 0 0 1 "''6565''" "\<lambda>_. []"] by (simp add: plain_port_def)
  then have "kord_main (\<lambda>_. []) default_flags (\<lambda>_. []) (Some one_doc) (\<lambda>_. True) =
      Serving ''127.0.0.1:6565'' [''127.0.0.1:6566''] (fst (LoadIndexes one_doc))"
    by (simp add: kord_main_def flagOr_def envOr_def ServeMetrics_def)
  from private_by_default [OF this] show ?thesis by (auto simp: allowPublic_def flagOr_def envOr_def)
qed

theorem numeric_bind_decided_witness:
  "requireLoopback (\<lambda>_. []) (dotted 0 0 0 0 @ '':'' @ ''6565'') = Some (NotLoopback (dotted 0 0 0 0))"
  using numeric_bind_decided [of 0 0 0 0 "''6565''" "\<lambda>_. []"] by (simp add: plain_port_def)

end
