(* ===== verification/Migrations.thy ===== *)
theory Migrations
  imports Prelude
begin

text \<open>
  File \<^verbatim>\<open>store/store.go\<close>, \<^verbatim>\<open>Open\<close> and \<^verbatim>\<open>migrate\<close>: the embedded migrations, numbered by their position in the
  sorted directory, each run in a transaction together with the row that records it. The effect of
  a migration's SQL on the database is an argument; \<open>None\<close> is a statement that fails, which the
  transaction undoes.
\<close>

section \<open>Running migrations\<close>

record 's migrated =
  schema_migrations :: "nat list"
  schema :: 's

fun migrateLoop :: "(string \<Rightarrow> 's \<Rightarrow> 's option) \<Rightarrow> nat \<Rightarrow> string list \<Rightarrow> 's migrated \<Rightarrow> 's migrated \<times> string option" where
  "migrateLoop exec i [] db = (db, None)"
| "migrateLoop exec i (name # names) db =
     (let version = i + 1
      in if version \<in> set (schema_migrations db) then migrateLoop exec (Suc i) names db
         else case exec name (schema db) of
                None \<Rightarrow> (db, Some name)
              | Some s \<Rightarrow>
                  migrateLoop exec (Suc i) names \<lparr>schema_migrations = schema_migrations db @ [version], schema = s\<rparr>)"

definition migrate :: "(string \<Rightarrow> 's \<Rightarrow> 's option) \<Rightarrow> string list \<Rightarrow> 's migrated \<Rightarrow> 's migrated \<times> string option" where
  "migrate exec entries = migrateLoop exec 0 (sort entries)"

text \<open>\<^verbatim>\<open>Open\<close> returns the store only when every migration has run; the pool is a parameter.\<close>

definition Open :: "bool \<Rightarrow> (string \<Rightarrow> 's \<Rightarrow> 's option) \<Rightarrow> string list \<Rightarrow> 's migrated \<Rightarrow> 's migrated \<times> bool" where
  "Open connected exec entries db =
     (if \<not> connected then (db, False) else case migrate exec entries db of (db', e) \<Rightarrow> (db', e = None))"

section \<open>Each migration once, in order\<close>

text \<open>The first \<open>k\<close> migrations in the order of their names, run one after the other.\<close>

definition schema_at :: "(string \<Rightarrow> 's \<Rightarrow> 's option) \<Rightarrow> string list \<Rightarrow> 's \<Rightarrow> nat \<Rightarrow> 's option" where
  "schema_at exec entries s0 k = fold (\<lambda>n s. Option.bind s (exec n)) (take k (sort entries)) (Some s0)"

definition migrated_to :: "(string \<Rightarrow> 's \<Rightarrow> 's option) \<Rightarrow> string list \<Rightarrow> 's \<Rightarrow> nat \<Rightarrow> 's migrated \<Rightarrow> bool" where
  "migrated_to exec entries s0 k db \<longleftrightarrow> k \<le> length entries \<and>
     schema_migrations db = [1..<Suc k] \<and> schema_at exec entries s0 k = Some (schema db)"

lemma schema_at_Suc:
  "k < length entries \<Longrightarrow> schema_at exec entries s0 (Suc k) = Option.bind (schema_at exec entries s0 k) (exec (sort entries ! k))"
  by (simp add: schema_at_def take_Suc_conv_app_nth)

lemma migrateLoop_migrated:
  assumes "migrated_to exec entries s0 k db" "i \<le> length entries" "migrateLoop exec i (drop i (sort entries)) db = (db', e)"
    and "i \<le> k"
  shows "\<exists>k' \<ge> k. migrated_to exec entries s0 k' db' \<and>
    (case e of None \<Rightarrow> k' = length entries
     | Some n \<Rightarrow> k' < length entries \<and> n = sort entries ! k' \<and> exec n (schema db') = None)"
  using assms
proof (induction "length entries - i" arbitrary: i k db)
  case 0
  then show ?case by (intro exI [of _ k]) (auto simp: migrated_to_def)
next
  case (Suc m)
  then have i: "i < length entries" by simp
  let ?n = "sort entries ! i"
  have d: "drop i (sort entries) = ?n # drop (Suc i) (sort entries)" using i by (simp add: Cons_nth_drop_Suc)
  have vs: "schema_migrations db = [1..<Suc k]" "k \<le> length entries" "schema_at exec entries s0 k = Some (schema db)"
    using Suc.prems(1) by (auto simp: migrated_to_def)
  show ?case
  proof (cases "i < k")
    case True
    then have "i + 1 \<in> set (schema_migrations db)" by (auto simp: vs(1))
    with Suc.prems(3) have "migrateLoop exec (Suc i) (drop (Suc i) (sort entries)) db = (db', e)" by (simp add: d)
    from Suc.hyps(1) [OF _ Suc.prems(1) _ this] Suc.hyps(2) i True show ?thesis by simp
  next
    case False
    with Suc.prems(4) have k: "k = i" by simp
    have new: "i + 1 \<notin> set (schema_migrations db)" by (simp add: vs(1) k)
    show ?thesis
    proof (cases "exec ?n (schema db)")
      case None
      with Suc.prems(1,3) new i show ?thesis by (intro exI [of _ k]) (auto simp: d k)
    next
      case (Some s)
      let ?db = "\<lparr>schema_migrations = schema_migrations db @ [i + 1], schema = s\<rparr>"
      have "migrated_to exec entries s0 (Suc k) ?db"
        using vs i Some k by (simp add: migrated_to_def schema_at_Suc)
      moreover have "migrateLoop exec (Suc i) (drop (Suc i) (sort entries)) ?db = (db', e)"
        using Suc.prems(3) new Some by (simp add: d)
      ultimately have "\<exists>k' \<ge> Suc k. migrated_to exec entries s0 k' db' \<and>
          (case e of None \<Rightarrow> k' = length entries
           | Some n \<Rightarrow> k' < length entries \<and> n = sort entries ! k' \<and> exec n (schema db') = None)"
        using Suc.hyps(1) [of "Suc i" "Suc k" ?db] Suc.hyps(2) i k by simp
      then show ?thesis by (auto dest: Suc_leD)
    qed
  qed
qed

text \<open>
  C40: migrations run once each and in the order of their names. From a database that has the first
  \<open>k\<close> of them, however it got there, opening the store goes on with the next; it reports success
  exactly when it has all of them, and a migration that fails leaves those before it in place for the
  next start.
\<close>
theorem migrations_in_order:
  assumes "migrated_to exec entries s0 k db" "Open True exec entries db = (db', ok)"
  shows "\<exists>k' \<ge> k. migrated_to exec entries s0 k' db' \<and> (ok \<longleftrightarrow> k' = length entries) \<and>
    (\<not> ok \<longrightarrow> exec (sort entries ! k') (schema db') = None) \<and> (k = length entries \<longrightarrow> db' = db)"
proof -
  obtain e where m: "migrateLoop exec 0 (drop 0 (sort entries)) db = (db', e)" and ok: "ok \<longleftrightarrow> e = None"
    using assms(2) by (auto simp: Open_def migrate_def split: prod.splits)
  have "(db', e) = (db, None)" if k: "k = length entries"
  proof -
    have "migrateLoop exec i (drop i (sort entries)) db = (db, None)" if "i \<le> length entries" for i
      using that
    proof (induction "length entries - i" arbitrary: i)
      case (Suc m)
      then have i: "i < length entries" by simp
      then have "drop i (sort entries) = (sort entries ! i) # drop (Suc i) (sort entries)" by (simp add: Cons_nth_drop_Suc)
      moreover have "i + 1 \<in> set (schema_migrations db)" using assms(1) i k by (auto simp: migrated_to_def)
      ultimately show ?case using Suc by simp
    qed simp
    from this [of 0] m show ?thesis by simp
  qed
  moreover from migrateLoop_migrated [OF assms(1) _ m] obtain k' where "k \<le> k'" "migrated_to exec entries s0 k' db'"
    "case e of None \<Rightarrow> k' = length entries
     | Some n \<Rightarrow> k' < length entries \<and> n = sort entries ! k' \<and> exec n (schema db') = None" by auto
  ultimately show ?thesis using ok by (intro exI [of _ k']) (cases e; auto)
qed

text \<open>
  The number of a migration is its position: a file that sorts before an applied one takes its number, is
  never run, and the last file is run a second time.
\<close>
theorem late_migration_skipped:
  "migrate (\<lambda>n s. Some (s @ [n])) [''a'', ''c''] \<lparr>schema_migrations = [], schema = []\<rparr> =
     (\<lparr>schema_migrations = [1, 2], schema = [''a'', ''c'']\<rparr>, None) \<and>
   migrate (\<lambda>n s. Some (s @ [n])) [''a'', ''b'', ''c''] \<lparr>schema_migrations = [1, 2], schema = [''a'', ''c'']\<rparr> =
     (\<lparr>schema_migrations = [1, 2, 3], schema = [''a'', ''c'', ''c'']\<rparr>, None)"
  by (simp add: migrate_def)

theorem migrations_in_order_witness:
  "\<exists>k' \<ge> 0. migrated_to (\<lambda>n s. if n = ''b'' then None else Some (s @ [n])) [''b'', ''a''] [] k'
     \<lparr>schema_migrations = [1], schema = [''a'']\<rparr> \<and> k' < 2"
proof -
  let ?exec = "\<lambda>n s. if n = ''b'' then None else Some (s @ [n])"
  have "migrated_to ?exec [''b'', ''a''] [] 0 \<lparr>schema_migrations = [], schema = []\<rparr>"
    by (simp add: migrated_to_def schema_at_def)
  moreover have "Open True ?exec [''b'', ''a''] \<lparr>schema_migrations = [], schema = []\<rparr> = (\<lparr>schema_migrations = [1], schema = [''a'']\<rparr>, False)"
    by (simp add: Open_def migrate_def)
  ultimately obtain k' where "migrated_to ?exec [''b'', ''a''] [] k' \<lparr>schema_migrations = [1], schema = [''a'']\<rparr>"
      "k' \<noteq> length [''b'', ''a'']"
    using migrations_in_order [of ?exec "[''b'', ''a'']" "[]" 0] by blast
  then show ?thesis by (intro exI [of _ k']) (auto simp: migrated_to_def)
qed

end
