(* ===== verification/PlanLimits.thy ===== *)
theory PlanLimits
  imports Plan
begin

text \<open>
  The limits of \<^verbatim>\<open>index/plan.go\<close>: definitions and queries outside \<open>plan_ok\<close> that the planner accepts all the
  same, condition by condition, each with a document on which the plan and the query differ.
\<close>

section \<open>Array-contains components in the ordering\<close>

definition finds :: "Plan \<Rightarrow> string \<Rightarrow> Fields \<Rightarrow> bool" where
  "finds plan name flds \<longleftrightarrow>
     (\<exists>r \<in> set (Ranges plan). \<exists>k \<in> set (Keys (pDef plan) name flds). in_range (Lo r, Hi r) k)"

definition wants :: "Query \<Rightarrow> string \<Rightarrow> Fields \<Rightarrow> bool" where
  "wants q name flds \<longleftrightarrow> Matches q name flds \<and> InCursorRange q (OrderKey q name flds)"

definition contains_index :: Def where
  "contains_index = a_index\<lparr>dFields := [\<lparr>fPath = ''a'', fDesc = False, fContains = True\<rparr>]\<rparr>"

lemma contains_effective: "effectiveFields contains_index =
    [\<lparr>fPath = ''a'', fDesc = False, fContains = True\<rparr>, \<lparr>fPath = ''__name__'', fDesc = False, fContains = False\<rparr>]"
  by (simp add: effectiveFields_def contains_index_def a_index_def trailingDirection_def)

lemma contains_match: "match contains_index [] [] (Order (a_query c)) = Some ([], False)"
  by (simp add: match_def contains_effective a_query_def FieldPath_String_def printSegment_def isSimpleSegment_def
      less_eq_char_def PrefixKey_def)

lemma contains_For: "For (a_query None) [contains_index] (\<lambda>_. True) =
    Some \<lparr>pDef = contains_index, Ranges = [rangeFor contains_index 0 [] False (a_query None)], Reversed = False, Dedup = False\<rparr>"
  by (simp add: For_def Eligible_def a_split planRanges_def contains_match) (simp add: contains_index_def a_index_def a_query_def)

lemma plain_range:
  assumes "splitFilters q = Some (eq, None, inl)" "Start q = None" "End q = None" "n < length (effectiveFields d)"
  shows "in_range (Lo (rangeFor d n p rv q), Hi (rangeFor d n p rv q)) k \<longleftrightarrow> prefix p k"
proof -
  have "in_range (bounds d n p rv q) k \<longleftrightarrow> in_range (Some p, PrefixEnd p) k"
    using assms by (simp add: bounds_def endBounds_def startBounds_def in_range_closeBounds)
  then show ?thesis using prefix_in_range [of p k] by (auto simp: rangeFor_def in_range_def split: prod.split)
qed

lemma contains_range: "in_range (Lo (rangeFor contains_index 0 [] False (a_query None)), Hi (rangeFor contains_index 0 [] False (a_query None))) k"
  by (subst plain_range [OF a_split(1)]) (simp_all add: contains_effective, simp_all add: a_query_def)

lemma contains_Keys:
  "Keys contains_index n [(''a'', NullValue)] = []"
  "set (Keys contains_index n [(''a'', ArrayValue [NullValue, BooleanValue True])]) = {[tagNull] @ nameKey n, [tagBool, 1] @ nameKey n}"
  "set (Keys contains_index n [(''a'', ArrayValue [BooleanValue False])]) = {[tagBool, 0] @ nameKey n}"
  by (simp_all add: Keys_def contains_index_def a_index_def keysStep_def parse_a sortKey_simps appendName_def trailingDirection_def)

text \<open>
  C22: the planner never asks whether a component of the ordering part is an array-contains one, so an
  index on the elements of \<open>a\<close> serves a plain query ordered by \<open>a\<close>. A document whose \<open>a\<close> is no array
  matches and has no entry; one with two elements has two entries and no deduplication; and the
  entries of different documents stand in the order of their elements, not in that of the arrays.
\<close>

theorem contains_index_serves_order:
  "\<exists>plan. For (a_query None) [contains_index] (\<lambda>_. True) = Some plan \<and> \<not> Dedup plan \<and>
     (let r = hd (Ranges plan); q = a_query None; two = [(''a'', ArrayValue [NullValue, BooleanValue True])];
          one = [(''a'', ArrayValue [BooleanValue False])]
      in wants q ''d'' [(''a'', NullValue)] \<and> \<not> finds plan ''d'' [(''a'', NullValue)] \<and>
         (\<exists>k \<in> set (Keys contains_index ''d'' two). \<exists>j \<in> set (Keys contains_index ''d'' two). \<exists>k' \<in> set (Keys contains_index ''d'' one).
            in_range (Lo r, Hi r) k \<and> in_range (Lo r, Hi r) j \<and> in_range (Lo r, Hi r) k' \<and> j \<noteq> k \<and>
            CompareKeys q (OrderKey q ''d'' two) (OrderKey q ''d'' one) = - 1 \<and> bytes_Compare k k' = 1))"
proof -
  have "Compare NullValue (BooleanValue False) = - 1" by (simp add: Compare_types)
  then have "CompareKeys (a_query None) (OrderKey (a_query None) ''d'' [(''a'', ArrayValue [NullValue, BooleanValue True])])
      (OrderKey (a_query None) ''d'' [(''a'', ArrayValue [BooleanValue False])]) = - 1"
    by (simp add: CompareKeys_def OrderKey_def orderValue_def a_query_def)
  moreover have "bytes_Compare ([tagBool, 1] @ nameKey ''d'') ([tagBool, 0] @ nameKey ''d'') = 1"
    by simp
  moreover have "[tagNull] @ nameKey ''d'' \<noteq> [tagBool, 1] @ nameKey ''d''" by simp
  moreover have "wants (a_query None) ''d'' [(''a'', NullValue)]"
    by (simp add: wants_def a_query_def Matches_def InCursorRange_def)
  ultimately show ?thesis
    unfolding contains_For by (simp add: finds_def contains_Keys contains_range)
qed

section \<open>Definitions that are not well-formed\<close>

text \<open>
  The name inside a definition: an index on \<open>a\<close>, the name and \<open>b\<close> serves a query ordered by \<open>a\<close>, since
  components beyond the ordering are ignored, and misses the documents without \<open>b\<close>.
\<close>

definition name_inside :: Def where
  "name_inside = a_index\<lparr>dFields := [\<lparr>fPath = ''a'', fDesc = False, fContains = False\<rparr>,
     \<lparr>fPath = ''__name__'', fDesc = False, fContains = False\<rparr>, \<lparr>fPath = ''b'', fDesc = False, fContains = False\<rparr>]\<rparr>"

lemma parse_b: "ParseFieldPath ''b'' = Inr [''b'']"
  by (simp add: ParseFieldPath_def parseSegments.simps parseSegment_def)

theorem name_inside_misses:
  "\<exists>plan. For (a_query None) [name_inside] (\<lambda>_. True) = Some plan \<and>
     wants (a_query None) ''d'' [(''a'', NullValue)] \<and> \<not> finds plan ''d'' [(''a'', NullValue)]"
proof -
  have "match name_inside [] [] (Order (a_query None)) = Some ([], False)"
    by (simp add: match_def effectiveFields_def name_inside_def a_index_def a_query_def FieldPath_String_def printSegment_def
        isSimpleSegment_def less_eq_char_def PrefixKey_def trailingDirection_def)
  then have "\<exists>rs. For (a_query None) [name_inside] (\<lambda>_. True) = Some \<lparr>pDef = name_inside, Ranges = rs, Reversed = False, Dedup = False\<rparr>"
    by (simp add: For_def Eligible_def a_split planRanges_def) (simp add: name_inside_def a_index_def a_query_def)
  moreover have "Keys name_inside ''d'' [(''a'', NullValue)] = []"
    by (simp add: Keys_def name_inside_def a_index_def keysStep_def parse_a parse_b)
  ultimately show ?thesis by (auto simp: finds_def wants_def a_query_def Matches_def InCursorRange_def)
qed

text \<open>
  A path twice in a definition: the equality prefix is accepted though it repeats \<open>a\<close> and leaves
  \<open>b\<close> out, so a document that fails the filter on \<open>b\<close> is found.
\<close>

definition twice_a :: Def where
  "twice_a = a_index\<lparr>dFields := [\<lparr>fPath = ''a'', fDesc = False, fContains = False\<rparr>, \<lparr>fPath = ''a'', fDesc = False, fContains = False\<rparr>]\<rparr>"

definition both_true :: Query where
  "both_true = (a_query None)\<lparr>Order := [\<lparr>Path = [], IsName = True, Dir = Asc\<rparr>],
     Where := Some (CompositeFilter CompositeAnd [FieldFilter ''a'' EQUAL (BooleanValue True), FieldFilter ''b'' EQUAL (BooleanValue True)])\<rparr>"

lemma both_true_split:
  "splitFilters both_true = Some ([(''a'', BooleanValue True), (''b'', BooleanValue True)], None, None)" "containsPath both_true = []"
  by (simp_all add: splitFilters_def collectWhere_def both_true_def a_query_def noneCollected_def splitContains_def containsPath_def collectField_def)

theorem repeated_path_overmatches:
  "\<exists>plan. For both_true [twice_a] (\<lambda>_. True) = Some plan \<and>
     (let f = [(''a'', BooleanValue True), (''b'', BooleanValue False)] in finds plan ''d'' f \<and> \<not> wants both_true ''d'' f)"
proof -
  let ?eq = "[(''a'', BooleanValue True), (''b'', BooleanValue True)]" and ?p = "[tagBool, 1, tagBool, 1]"
    and ?f = "[(''a'', BooleanValue True), (''b'', BooleanValue False)]"
  have eff: "effectiveFields twice_a = dFields twice_a @ [\<lparr>fPath = ''__name__'', fDesc = False, fContains = False\<rparr>]"
    by (simp add: effectiveFields_def twice_a_def a_index_def trailingDirection_def)
  have "match twice_a ?eq [] (Order both_true) = Some (?p, False)"
    by (simp add: match_def eff) (simp add: twice_a_def a_index_def both_true_def PrefixKey_def sortKey_simps)
  then have For: "For both_true [twice_a] (\<lambda>_. True) =
      Some \<lparr>pDef = twice_a, Ranges = [rangeFor twice_a 2 ?p False both_true], Reversed = False, Dedup = False\<rparr>"
    by (simp add: For_def Eligible_def both_true_split planRanges_def)
       (simp add: twice_a_def a_index_def both_true_def a_query_def numeral_2_eq_2)
  have rng: "in_range (Lo (rangeFor twice_a 2 ?p False both_true), Hi (rangeFor twice_a 2 ?p False both_true)) k \<longleftrightarrow> prefix ?p k" for k
    by (rule plain_range [OF both_true_split(1)]) (simp_all add: eff, simp_all add: both_true_def a_query_def twice_a_def)
  have "Keys twice_a ''d'' ?f = [?p @ nameKey ''d'']"
    by (simp add: Keys_def twice_a_def a_index_def keysStep_def parse_a sortKey_simps appendName_def trailingDirection_def)
  then have "finds \<lparr>pDef = twice_a, Ranges = [rangeFor twice_a 2 ?p False both_true], Reversed = False, Dedup = False\<rparr> ''d'' ?f"
    by (simp add: finds_def rng)
  moreover have "\<not> wants both_true ''d'' ?f"
    by (simp add: wants_def both_true_def a_query_def Matches_def evalFieldFilter_def parse_a parse_b evalOp_def)
  ultimately show ?thesis unfolding For by simp
qed

section \<open>Array filters on two paths\<close>

text \<open>
  The planner knows one array path. With array-contains on \<open>a\<close> and array-contains-any on \<open>b\<close> it
  serves the second from an equality component: a document that holds the value itself in \<open>b\<close> is
  found, and one that holds it in an array is missed.
\<close>

definition two_arrays :: Query where
  "two_arrays = (a_query None)\<lparr>Order := [\<lparr>Path = [], IsName = True, Dir = Asc\<rparr>],
     Where := Some (CompositeFilter CompositeAnd [FieldFilter ''a'' ARRAY_CONTAINS (BooleanValue True),
       FieldFilter ''b'' ARRAY_CONTAINS_ANY (ArrayValue [BooleanValue True])])\<rparr>"

definition two_index :: Def where
  "two_index = a_index\<lparr>dFields := [\<lparr>fPath = ''a'', fDesc = False, fContains = True\<rparr>, \<lparr>fPath = ''b'', fDesc = False, fContains = False\<rparr>]\<rparr>"

lemma two_arrays_split:
  "splitFilters two_arrays = Some ([(''a'', BooleanValue True)], None,
     Some \<lparr>inPath = ''b'', inValues = [BooleanValue True], inContains = True\<rparr>)" "containsPath two_arrays = ''a''"
  by (simp_all add: splitFilters_def collectWhere_def two_arrays_def a_query_def noneCollected_def splitContains_def containsPath_def collectField_def
      IsNull_def IsNaN_def)

theorem mixed_array_filters:
  "\<exists>plan. For two_arrays [two_index] (\<lambda>_. True) = Some plan \<and>
     (let yes = (''a'', ArrayValue [BooleanValue True])
      in finds plan ''d'' [yes, (''b'', BooleanValue True)] \<and> \<not> wants two_arrays ''d'' [yes, (''b'', BooleanValue True)] \<and>
         wants two_arrays ''d'' [yes, (''b'', ArrayValue [BooleanValue True])] \<and>
         \<not> finds plan ''d'' [yes, (''b'', ArrayValue [BooleanValue True])])"
proof -
  let ?eq = "[(''a'', BooleanValue True), (''b'', BooleanValue True)]" and ?p = "[tagBool, 1, tagBool, 1]"
    and ?yes = "(''a'', ArrayValue [BooleanValue True])"
  have eff: "effectiveFields two_index = dFields two_index @ [\<lparr>fPath = ''__name__'', fDesc = False, fContains = False\<rparr>]"
    by (simp add: effectiveFields_def two_index_def a_index_def trailingDirection_def)
  have "match two_index ?eq ''a'' (Order two_arrays) = Some (?p, False)"
    by (simp add: match_def eff) (simp add: two_index_def a_index_def two_arrays_def PrefixKey_def sortKey_simps)
  then have For: "For two_arrays [two_index] (\<lambda>_. True) =
      Some \<lparr>pDef = two_index, Ranges = [rangeFor two_index 2 ?p False two_arrays], Reversed = False, Dedup = True\<rparr>"
    by (simp add: For_def Eligible_def two_arrays_split planRanges_def IsNull_def IsNaN_def)
       (simp add: two_index_def a_index_def two_arrays_def a_query_def numeral_2_eq_2)
  have rng: "in_range (Lo (rangeFor two_index 2 ?p False two_arrays), Hi (rangeFor two_index 2 ?p False two_arrays)) k \<longleftrightarrow> prefix ?p k" for k
    by (rule plain_range [OF two_arrays_split(1)]) (simp_all add: eff, simp_all add: two_arrays_def a_query_def two_index_def)
  have "Keys two_index ''d'' [?yes, (''b'', BooleanValue True)] = [?p @ nameKey ''d'']"
    "\<forall>k \<in> set (Keys two_index ''d'' [?yes, (''b'', ArrayValue [BooleanValue True])]). \<not> prefix ?p k"
    by (simp_all add: Keys_def two_index_def a_index_def keysStep_def parse_a parse_b sortKey_simps appendName_def trailingDirection_def)
  moreover have "\<not> wants two_arrays ''d'' [?yes, (''b'', BooleanValue True)]" "wants two_arrays ''d'' [?yes, (''b'', ArrayValue [BooleanValue True])]"
    by (simp_all add: wants_def two_arrays_def a_query_def Matches_def InCursorRange_def evalFieldFilter_def parse_a parse_b evalOp_def
        arrayContains_def IsNull_def IsNaN_def)
  ultimately show ?thesis unfolding For by (simp add: finds_def rng)
qed

section \<open>Cursors\<close>

text \<open>
  A cursor without values that starts after its position excludes every document of the query;
  its encoding is empty and bounds nothing, so a plan finds them all.
\<close>

theorem empty_cursor_bounds_nothing:
  "let q = a_query (Some \<lparr>Values = [], Before = False\<rparr>); f = [(''a'', NullValue)]
   in \<not> InCursorRange q (OrderKey q ''d'' f) \<and> (\<exists>plan. For q [a_index] (\<lambda>_. True) = Some plan \<and> finds plan ''d'' f)"
proof -
  let ?q = "a_query (Some \<lparr>Values = [], Before = False\<rparr>)"
  have b: "bounds a_index 0 [] False ?q = (Some [], None)"
    unfolding bounds_def a_split
    by (simp add: a_effective closeBounds_def endBounds_def startBounds_def cursorKey_def startBoundFor_def
        sliceEnd_def slice_def capVals_def maxBound_def a_query_def)
  obtain k where "k \<in> set (Keys a_index ''d'' [(''a'', NullValue)])"
    by (simp add: Keys_def a_index_def keysStep_def parse_a)
  moreover have "in_range (Lo (rangeFor a_index 0 [] False ?q), Hi (rangeFor a_index 0 [] False ?q)) k" for k by (simp add: rangeFor_def b in_range_def)
  moreover have "\<not> InCursorRange ?q (OrderKey ?q ''d'' [(''a'', NullValue)])"
    by (simp add: a_query_def InCursorRange_def OrderKey_def orderValue_def compareToCursor_def)
  ultimately show ?thesis unfolding Let_def a_For by (auto simp: finds_def)
qed

end
