(* ===== verification/QueryLimits.thy ===== *)
theory QueryLimits
  imports QueryAnswer PlanLimits
begin

text \<open>
  Queries the store accepts and does not answer with the reference answer, beside those of the
  planner and of counting: what the conditions on a served query exclude.
\<close>

section \<open>Collection groups in name order\<close>

text \<open>Two documents of collections with the id c, below different parents.\<close>

definition group_name :: "string \<Rightarrow> string" where
  "group_name s = ''projects/p/databases/d/documents/'' @ s @ ''/1/c/x''"

definition group_row :: "string \<Rightarrow> DocRow" where
  "group_row s = sample_row\<lparr>r_name := group_name s, r_parent_path := ''projects/p/databases/d/documents/'' @ s @ ''/1''\<rparr>"

definition group_db :: DB where
  "group_db = empty_db\<lparr>documents := [group_row ''a-b'', group_row ''a'']\<rparr>"

definition group_by_name :: Query where
  "group_by_name = (by_a ''projects/p/databases/d/documents'')\<lparr>AllDescendants := True, Order := [\<lparr>Path = [], IsName = True, Dir = Asc\<rparr>]\<rparr>"

definition group_doc :: "string \<Rightarrow> Doc" where
  "group_doc s = sample_doc\<lparr>d_Name := group_name s\<rparr>"

lemma group_scan: "scanDoc (group_row s) = Inr (group_doc s)"
  using sample_data(3) by (simp add: scanDoc_def group_row_def group_doc_def sample_doc_def) (simp add: sample_row_def)

lemma group_path:
  assumes "s \<in> {''a-b'', ''a''}"
  shows "ParseDocumentName (group_name s) = Inr \<lparr>dp_Name = group_name s,
    dp_ParentPath = ''projects/p/databases/d/documents/'' @ s @ ''/1'', dp_CollectionID = ''c'', dp_DocID = ''x''\<rparr>"
  using assms by (auto simp: ParseDocumentName_def group_name_def)

lemma group_wf: "wf_db valid_value group_db"
proof -
  have "row_ok valid_value (group_row s)" if "s \<in> {''a-b'', ''a''}" for s
  proof -
    have "encoded_row (group_row s)"
      unfolding encoded_row_def using sample_data(1,2) by (intro exI [of _ "[(''a'', NullValue)]"] conjI) (simp_all add: group_row_def)
    then show ?thesis using sample_data(3) group_path [OF that] by (simp add: row_ok_def group_row_def) (simp add: sample_row_def)
  qed
  then show ?thesis by (simp add: wf_db_def group_db_def) (simp add: group_row_def group_name_def)
qed

lemma group_base: "s \<in> {''a-b'', ''a''} \<Longrightarrow> baseConditions group_by_name (group_row s)"
  by (auto simp: baseConditions_def group_by_name_def by_a_def a_query_def group_row_def group_name_def sample_row_def less_char_def less_eq_char_def)

lemma group_selects: "selects group_by_name (group_doc s)"
  by (simp add: selects_def Matches_def InCursorRange_def group_by_name_def by_a_def a_query_def)

lemma group_order: "docLess group_by_name (group_doc ''a'') (group_doc ''a-b'')" "\<not> docLess group_by_name (group_doc ''a-b'') (group_doc ''a'')"
  by (simp_all add: docLess_def CompareKeys_def OrderKey_def orderValue_def group_by_name_def by_a_def a_query_def group_doc_def group_name_def
      CompareResourceNames_def cmp3_def less_char_def)

text \<open>
  Documents come in the byte order of their names, where a hyphen is below a slash, and the
  order of references compares segment by segment: a collection group in name order is delivered in
  another order than the query asks for, so that paging by name goes wrong at such names.
\<close>

theorem group_name_order:
  "wf_db valid_value group_db \<and>
   RunQuery contains no_indexes group_by_name group_db = ([group_doc ''a-b'', group_doc ''a''], None) \<and>
   reference group_by_name group_db = [group_doc ''a'', group_doc ''a-b'']"
proof (intro conjI group_wf)
  let ?q = group_by_name
  have w: "Where ?q = None" "Limit ?q = - 1" "Offset ?q = 0" "NameOnlyOrder ?q = (Asc, True)" "nameBounds ?q Asc n" for n
    by (simp_all add: group_by_name_def by_a_def a_query_def NameOnlyOrder_def nameBounds_def NameCursorBounds_def nameCursor_def)
  have "group_name ''a-b'' < group_name ''a''" by (simp add: group_name_def less_char_def)
  then have sorted: "sort_key r_name (documents group_db) = documents group_db"
    by (simp add: group_db_def group_row_def insort_key.simps)
  have cand: "candidates contains ?q group_db = documents group_db"
    using group_base by (simp add: candidates_def narrowed_def w group_db_def)
  have "nameRows ?q 0 0 (documents group_db) = ([group_doc ''a-b'', group_doc ''a''], None)"
    using group_selects by (simp add: group_db_def group_scan selects_def w)
  then show "RunQuery contains no_indexes ?q group_db = ([group_doc ''a-b'', group_doc ''a''], None)"
    using cand sorted by (simp add: RunQuery_def no_indexes_def forCollection_def runNameOrdered_def w)
  have "selectedDocs ?q group_db = [group_doc ''a-b'', group_doc ''a'']"
    using group_base group_selects by (simp add: selectedDocs_def group_db_def group_scan)
  then show "reference ?q group_db = [group_doc ''a'', group_doc ''a-b'']"
    using group_order by (simp add: reference_def page_def w)
qed

text \<open>
  The limit is pushed into the scan when there is no filter; a cursor that is not one reference is
  applied afterwards, to rows already cut. Here the page after the first document is empty.
\<close>

definition next_row :: DocRow where
  "next_row = sample_row\<lparr>r_name := ''projects/p/databases/d/documents/c/y'', r_doc_id := ''y''\<rparr>"

definition next_doc :: Doc where
  "next_doc = sample_doc\<lparr>d_Name := r_name next_row\<rparr>"

definition next_page :: Query where
  "next_page = (by_a ''projects/p/databases/d/documents'')\<lparr>Order := [\<lparr>Path = [], IsName = True, Dir = Asc\<rparr>], Limit := 1,
     Start := Some \<lparr>Values = [ReferenceValue sample_name, NullValue], Before = False\<rparr>\<rparr>"

theorem pushed_limit_cuts_page:
  "let db = empty_db\<lparr>documents := [sample_row, next_row]\<rparr>
   in RunQuery contains no_indexes next_page db = ([], None) \<and> reference next_page db = [next_doc]"
proof -
  let ?q = next_page and ?db = "empty_db\<lparr>documents := [sample_row, next_row]\<rparr>"
  have w: "Where ?q = None" "Limit ?q = 1" "Offset ?q = 0" "NameOnlyOrder ?q = (Asc, True)" "nameBounds ?q Asc n" for n
    by (simp_all add: next_page_def by_a_def a_query_def NameOnlyOrder_def nameBounds_def NameCursorBounds_def nameCursor_def)
  have scan: "scanDoc next_row = Inr next_doc"
    using sample_data(3) by (simp add: scanDoc_def next_row_def next_doc_def sample_doc_def) (simp add: sample_row_def)
  have base: "baseConditions ?q sample_row" "baseConditions ?q next_row"
    by (simp_all add: baseConditions_def next_page_def by_a_def a_query_def next_row_def sample_row_def)
  have sel: "selects ?q next_doc" "\<not> selects ?q sample_doc" "Matches ?q (d_Name sample_doc) (d_Fields sample_doc)"
    by (simp_all add: selects_def Matches_def InCursorRange_def next_page_def by_a_def a_query_def next_doc_def next_row_def sample_doc_def
        sample_name_def OrderKey_def orderValue_def compareToCursor_def CompareResourceNames_def cmp3_def less_char_def)
  have "candidates contains ?q ?db = [sample_row, next_row]" using base by (simp add: candidates_def narrowed_def w)
  moreover have "r_name sample_row < r_name next_row" by (simp add: next_row_def sample_row_def sample_name_def less_char_def)
  then have "sort_key r_name [sample_row, next_row] = [sample_row, next_row]" by simp
  moreover have "nameRows ?q 0 0 [sample_row] = ([], None)" using sel by (simp add: sample_scan selects_def)
  ultimately have "RunQuery contains no_indexes ?q ?db = ([], None)"
    by (simp add: RunQuery_def no_indexes_def forCollection_def runNameOrdered_def w)
  moreover have "selectedDocs ?q ?db = [next_doc]" using base sel by (simp add: selectedDocs_def sample_scan scan)
  ultimately show ?thesis by (simp add: reference_def page_def w)
qed

section \<open>A contains index serving an order\<close>

definition contains_registry :: indexRegistry where
  "contains_registry = \<lparr>byColl = [(''c'', [contains_index])], reg_ready = [ID contains_index]\<rparr>"

text \<open>
  The planner's missing test as a query sees it: with a ready and complete index on the elements of \<open>a\<close>, a
  query ordered by \<open>a\<close> answers nothing although a stored document has the field.
\<close>

theorem contains_index_loses_documents:
  "let db = empty_db\<lparr>documents := [sample_row]\<rparr>; q = by_a ''projects/p/databases/d/documents''
   in index_complete contains_index db \<and>
      RunQuery contains contains_registry q db = ([], None) \<and> reference q db = [sample_doc]"
proof -
  let ?db = "empty_db\<lparr>documents := [sample_row]\<rparr>" and ?q = "by_a ''projects/p/databases/d/documents''"
  have "rowOf ?db n = (if n = sample_name then Some sample_row else None)" for n by (simp add: rowOf_def sample_row_def)
  then have "index_complete contains_index ?db"
    unfolding index_complete_def in_docEntries
    using sample_data(3) by (auto simp: empty_db_def entriesOf_def contains_Keys split: if_splits)
  moreover have "RunQuery contains contains_registry ?q ?db = ([], None)"
  proof -
    have fc: "forCollection contains_registry (CollectionID ?q) = [contains_index]"
      by (simp add: forCollection_def contains_registry_def by_a_def a_query_def)
    have f: "splitFilters ?q = splitFilters (a_query None)" "containsPath ?q = containsPath (a_query None)" "Order ?q = Order (a_query None)"
      by (simp_all add: by_a_def splitFilters_def containsPath_def collectWhere_def a_query_def cong: option.case_cong)
    have "dCollectionID contains_index = CollectionID ?q" "dGroup contains_index = AllDescendants ?q"
      by (simp_all add: contains_index_def a_index_def by_a_def a_query_def)
    then have "\<exists>plan. For ?q [contains_index] (\<lambda>i. i \<in> set (reg_ready contains_registry)) = Some plan"
      unfolding For_def Eligible_def f a_split by (simp add: planRanges_def f a_split contains_match contains_registry_def)
    moreover have "scanIndex ?q plan ?db = []" for plan
      by (simp add: scanIndex_def scanRange_def empty_db_def mergeRanges_def mergeLoop.simps split: list.split)
    ultimately show ?thesis using fc by (auto simp: RunQuery_def runIndexed_def split: prod.split)
  qed
  moreover have "reference ?q ?db = [sample_doc]" by (rule sample_answer) simp
  ultimately show ?thesis by (simp add: Let_def)
qed

section \<open>Narrowing with arrays and maps\<close>

text \<open>
  An array operand is probed in its own encoding only. A stored array of the integer zero equals
  one of the double zero and is not contained in its encoding, so the row is left out.
\<close>

definition zero_array :: Query where
  "zero_array = (by_a ''projects/p/databases/d/documents'')\<lparr>Where := Some (FieldFilter ''a'' EQUAL (ArrayValue [DoubleValue 0]))\<rparr>"

theorem nested_operand_excluded:
  "\<exists>r d. encoded_row r \<and> scanDoc r = Inr d \<and> baseConditions zero_array r \<and> selects zero_array d \<and>
     \<not> narrowed jsonb_contains zero_array r"
proof -
  let ?f = "[(''a'', ArrayValue [IntegerValue 0])]"
  have e: "encodable (MapValue ?f)" by (simp add: hasNUL_def)
  obtain s where s: "encode (IntegerValue 0) = Inr (JObj [(''i'', JStr s)])" by (simp add: encode.simps)
  define r where "r = sample_row\<lparr>r_data := JObj [(''a'', JObj [(''a'', JArr [JObj [(''i'', JStr s)]])])]\<rparr>"
  define d where "d = sample_doc\<lparr>d_Fields := ?f\<rparr>"
  have m: "MarshalFields ?f = Inr (r_data r)"
    using s by (simp add: MarshalFields_def encodeMapPayload.simps encode.simps r_def hasNUL_def)
  have "UnmarshalFields (r_data r) = Inr ?f" using Unmarshal_Marshal [OF e] m by (simp add: canonFields_def)
  then have scan: "scanDoc r = Inr d" by (simp add: scanDoc_def d_def r_def sample_doc_def) (simp add: sample_row_def)
  have "encoded_row r" unfolding encoded_row_def using e m by (intro exI [of _ ?f] conjI)
  moreover have "baseConditions zero_array r"
    by (simp add: baseConditions_def zero_array_def by_a_def a_query_def r_def sample_row_def)
  moreover have "Compare (IntegerValue 0) (DoubleValue 0) = 0" by (subst Compare_number) (simp_all add: int_scaled_def)
  then have "selects zero_array d"
    by (simp add: selects_def Matches_def InCursorRange_def zero_array_def by_a_def a_query_def d_def evalFieldFilter_def parse_a evalOp_def)
  moreover have "\<not> narrowed jsonb_contains zero_array r"
    by (simp add: narrowed_def zero_array_def by_a_def a_query_def fieldProbes_def parse_a equalityProbes_def alternatives_def
        ContainmentJSON_def encode.simps r_def IsNaN_def)
  ultimately show ?thesis using scan by blast
qed

end
