(* ===== verification/Spec2Isabelle.thy ===== *)
theory Spec2Isabelle
  imports Server Feed Verify Containment Admin Daemon Migrations QueryLimits
begin

text \<open>
  Verification of Kor, a document database that speaks the Firestore protocol and stores its
  documents in Postgres.

  \<^bold>\<open>The program and its parts.\<close> The server \<^verbatim>\<open>kord\<close> (\<^verbatim>\<open>cmd/kord/main.go\<close>) opens the store
  (\<^verbatim>\<open>internal/store\<close>), loads the registry of composite indexes and serves the handlers of
  \<^verbatim>\<open>internal/rpc/server.go\<close>. A commit applies the writes of a request (\<^verbatim>\<open>internal/writes\<close>) to document
  states, encodes them as tagged JSON (\<^verbatim>\<open>internal/value/value.go\<close>), and in one transaction stores rows, index
  entries and change events. A query is parsed (\<^verbatim>\<open>internal/query\<close>), planned against the ready indexes
  (\<^verbatim>\<open>internal/index/plan.go\<close>) and answered from index entries whose keys are sort keys
  (\<^verbatim>\<open>internal/value/sortkey.go\<close>), in name order, or by loading, filtering and sorting. The tool
  \<^verbatim>\<open>kor\<close> (\<^verbatim>\<open>cmd/kor\<close>) registers and backfills indexes, drops collections, and copies documents from and to
  Firestore.

  \<^bold>\<open>Theories, bottom up.\<close>
    \<^item> \<open>Prelude\<close>: machine types, three-way comparison, and two interfaces: \<open>total_cmp\<close> (a comparison
      that is a total preorder on well-formed values, with the facts on sorted lists every client
      uses) and \<open>key_encoding\<close> (bytes whose order is a comparison and which are self-delimiting).
    \<^item> \<open>Float64\<close>, \<open>GoStd\<close>, \<open>Decimal64\<close>, \<open>GoText\<close>: what the code uses of Go's standard library, doubles as
      bit patterns with exact reading and correct rounding, integers, base64, timestamps and
      doubles as text with their round trips, and trimming of white space.
    \<^item> \<open>Value\<close> (\<^verbatim>\<open>compare.go\<close>), \<open>SortKey\<close> (\<^verbatim>\<open>sortkey.go\<close>), \<open>FieldPath\<close> (\<^verbatim>\<open>fieldpath.go\<close>), \<open>TaggedJSON\<close>
      (\<^verbatim>\<open>value.go\<close>, \<^verbatim>\<open>value/containment.go\<close>): values as a datatype with the constructors of the protocol,
      their order, the sort keys as interpretations of \<open>key_encoding\<close>, field access as an
      interpretation of \<open>path_fields\<close>, and the encoding of the data column.
    \<^item> \<open>Query\<close> (\<^verbatim>\<open>query.go\<close>), \<open>IndexDef\<close> (\<^verbatim>\<open>index.go\<close>, \<^verbatim>\<open>config.go\<close>), \<open>Plan\<close> (\<^verbatim>\<open>plan.go\<close>): the meaning of a query,
      index definitions with their keys, and the planner, proved to select exactly the documents of
      the query in its order. \<open>PlanLimits\<close> has the definitions and queries on which it does not.
    \<^item> \<open>Writes\<close> (\<^verbatim>\<open>writes.go\<close>): preconditions, masks, transforms; \<open>hereditary\<close> and \<open>write_closed\<close> are the
      interfaces for properties of values that writes keep.
    \<^item> \<open>Tables\<close>, \<open>IndexStore\<close> (\<^verbatim>\<open>store/index.go\<close>), \<open>Commit\<close> (\<^verbatim>\<open>store/store.go\<close>, \<^verbatim>\<open>store/txn.go\<close>), \<open>Feed\<close>
      (\<^verbatim>\<open>store/changelog.go\<close>), \<open>Migrations\<close> (\<^verbatim>\<open>Open\<close> and \<^verbatim>\<open>migrate\<close> of \<^verbatim>\<open>store/store.go\<close>), \<open>Containment\<close>
      (\<^verbatim>\<open>store/containment.go\<close>): the tables as one record \<open>DB\<close> of row lists, and every operation on
      them as a function that returns the new tables or an error. \<open>stored_closed\<close> carries what a
      commit keeps of the rows.
    \<^item> \<open>StoreQuery\<close> (\<^verbatim>\<open>store/query.go\<close>) with \<open>IndexScan\<close>, \<open>IndexAnswer\<close>, \<open>NameOrder\<close>, \<open>Narrowing\<close> and
      \<open>QueryAnswer\<close>: the three ways a query runs, each refined to the one reference answer; \<open>QueryLimits\<close>: the
      queries that get another answer.
    \<^item> \<open>System\<close>: the states of the store that commits, backfills and dropped collections lead to, as an
      inductive relation \<open>reachable\<close>, with the invariant that every ready index is complete.
    \<^item> \<open>Server\<close> (\<^verbatim>\<open>rpc/server.go\<close>, the counters of \<^verbatim>\<open>rpc/logging.go\<close>): the handlers, and their interleavings
      as the relation \<open>serving\<close>.
    \<^item> \<open>Admin\<close> (\<^verbatim>\<open>cmd/kor/index.go\<close>, \<^verbatim>\<open>drop.go\<close>), \<open>CopyDocs\<close> and \<open>Verify\<close> (\<^verbatim>\<open>cmd/kor/main.go\<close>, \<^verbatim>\<open>export.go\<close>),
      \<open>Daemon\<close> (\<^verbatim>\<open>cmd/kord/main.go\<close>): the two programs. \<open>page_consumer\<close> is the interface between the paging
      scan and what is done with each document; importing, exporting and verifying interpret it.

  \<^bold>\<open>What is shown.\<close> Sort keys order bytes as \<open>Compare\<close> orders values, and planned ranges hold exactly
  the matching documents, in order, for the definitions and queries of \<open>plan_ok\<close>. A commit leaves what the sequential application of its
  writes leaves, keeps complete indexes complete, and logs one event per document. In every
  reachable state \<open>RunQuery\<close> gives the reference answer to the queries of \<open>query_ok\<close>, whichever way it runs, counts
  that are \<open>countable\<close> are the lengths of answers, and the handler streams exactly that. Transactions that commit are isolated under every
  interleaving of handlers. A polling consumer of the change feed gets every committed event
  once and in order and catches up. Documents survive encoding up to the microsecond. Copies
  between stores are exact whatever fails on the way, and verification decides equality. Rebuilding the
  containment index keeps one usable; without permission the server binds its data port to loopback addresses only
  (its metrics port is not checked, \<open>Daemon.metrics_address_unchecked\<close>). Theorems of kind error show
  where the code does not do what it means to: each is a run of the model.

  \<^bold>\<open>Modelling.\<close> One Postgres transaction is one step and an error leaves no effect. Go maps are
  association lists with distinct keys, updated by value. Integers have their width where they can wrap (limits and offsets
  of 32 bits, sequence numbers and counts of 64); times are nanoseconds with Go's internal
  wrap. A streaming call is the list of what it sends and the error at its end. Loops are structural or have a
  termination proof; only the paging scan has fuel, since its end depends on the source: more
  fuel than documents is enough, as a theorem of \<open>CopyDocs\<close> shows. Code outside the repository is an argument:
  jsonb containment (with \<open>jsonb_laws\<close>, its three documented properties, which \<open>jsonb_contains\<close> has), the collation of
  listings, the resolver, the Firestore client, the effect of a migration's SQL, Postgres' execution
  of index statements (with \<open>index_statement_laws\<close>, what its manual says of concurrent building, dropping and renaming,
  which \<open>execute\<close> has), clock readings and random identifiers.

  \<^bold>\<open>Hypotheses and why they are there.\<close> \<open>exact_shape\<close> asks for timestamps in whole
  microseconds, because index entries are computed before a document is cut to what is stored
  (\<open>Commit.index_sees_unstored_digits\<close>). \<open>short_db\<close> bounds arrays by \<open>2 ^ 32\<close> elements, as the size of a
  message does. The theorems on plans, queries, counts and streams are not about every query the code accepts.
  \<open>plan_ok\<close>, \<open>servable\<close>, \<open>query_ok\<close> and \<open>countable\<close> leave out queries the code answers wrongly, and every
  exclusion has its theorem: array-contains components in the ordering part of an index (the planner does not
  look at them: documents are missed, repeated and out of order), array filters on two paths
  (\<open>PlanLimits.mixed_array_filters\<close>), definitions with the name inside or a path twice
  (\<open>PlanLimits.name_inside_misses\<close>, \<open>PlanLimits.repeated_path_overmatches\<close>), cursors that are empty or reach the name
  (\<open>PlanLimits.empty_cursor_bounds_nothing\<close>, \<open>Plan.name_cursor_misses_ties\<close>), an index over several parents, a limit of zero
  with several ranges (\<open>QueryAnswer.merge_limit_zero\<close>), negative offsets (\<open>QueryAnswer.negative_offset_panics\<close>), probes of map and
  array operands (\<open>QueryLimits.nested_operand_excluded\<close>), collection groups in name order whose names bytes and
  segments order differently (\<open>QueryLimits.group_name_order\<close>), name cursors that are not one reference
  (\<open>QueryLimits.pushed_limit_cuts_page\<close>), counts up to \<open>2 ^ 31\<close> or more of filtered queries and counts of rows without the
  ordering field (\<open>QueryAnswer.count_upTo_wraps\<close>, \<open>QueryAnswer.count_ignores_order\<close>). Identifiers of registered indexes are distinct, which a
  64-bit hash does not guarantee. \<open>serving\<close> lets the clock advance by a microsecond between
  commits, since update times are the versions of documents (\<open>Server.same_microsecond_undetected\<close>). \<open>reachable\<close> and
  \<open>serving\<close> read a commit's clock at its step; the code reads it before it waits for locks, so commits can land out of the order of
  their readings, with an update time before the creation (\<open>System.earlier_commit_time\<close>). \<open>source_ok\<close>
  says that the source returns, after a cursor, the documents behind it in order of their ids.

  \<^bold>\<open>Not modelled.\<close> The text layer of \<^verbatim>\<open>encoding/json\<close>, gRPC transport, logging, the contents of Prometheus
  metrics (\<^verbatim>\<open>store/metrics.go\<close>, \<^verbatim>\<open>rpc/metrics.go\<close>, of which only the listener is), the benchmark, table sizes and flag parsing
  of \<^verbatim>\<open>cmd/kor\<close>, and the test harness \<^verbatim>\<open>internal/pgtest\<close>: input and output that no other part reads. Lock
  waiting is not modelled: commits on the same documents are serial because of their locks. A registry that lags behind
  the tables is outside \<open>reachable\<close>, whose store has one registry; the last section of \<open>Admin\<close> shows what such a server does.
\<close>

section \<open>The store as a whole\<close>

text \<open>
  C2: in every state that commits, backfills and dropped collections lead to, the stored documents
  are well-formed, no index entry is stored twice, and every index marked ready holds exactly the
  entries of the stored documents.
\<close>
theorem store_invariant:
  assumes "reachable (db, reg, t)"
  shows "wf_db exact_shape db \<and> clock_ok (Truncate_us t) db \<and> distinct (index_entries db) \<and> registry_ok reg \<and>
    (\<forall>c. \<forall>d \<in> set (forCollection reg c). ID d \<in> set (reg_ready reg) \<longrightarrow> index_complete d db)"
  using reachable_ok [OF assms] by (simp add: store_ok_def ready_complete_def)

theorem store_invariant_witness:
  "\<exists>db reg t. reachable (db, reg, t) \<and> documents db = [sample_row] \<and> index_complete a_index db"
proof -
  obtain db reg t where r: "reachable (db, reg, t)" "documents db = [sample_row]"
    "forCollection reg ''c'' = [a_index]" "ID a_index \<in> set (reg_ready reg)" by (rule sample_run)
  from store_invariant [OF r(1)] r(3,4) have "index_complete a_index db" by (metis list.set_intros(1))
  with r show ?thesis by blast
qed

text \<open>
  C1: on every such state \<^verbatim>\<open>RunQuery\<close> returns the reference answer and no error, whichever way it
  runs: the stored documents of the queried collection that pass filter, order and cursors, in
  query order, without the first \<open>Offset\<close>, at most \<open>Limit\<close> of them. This is for the queries of
  \<open>query_ok\<close>, whose definition lists what it leaves out: queries the code accepts and answers
  wrongly, each shown by a theorem.
\<close>
theorem query_answers:
  assumes "reachable (db, reg, t)" "short_db db" "query_ok reg q db" "jsonb_laws contains"
  shows "RunQuery contains reg q db = (reference q db, None)"
  using reachable_ok [OF assms(1)] assms(2-4)
  by (intro RunQuery_reference reachable_wf reachable_servable)

theorem query_answers_witness:
  "\<exists>db reg t. reachable (db, reg, t) \<and>
     RunQuery jsonb_contains reg (by_a ''projects/p/databases/d/documents'') db = ([sample_doc], None)"
proof -
  let ?q = "by_a ''projects/p/databases/d/documents''"
  obtain db reg t where r: "reachable (db, reg, t)" "documents db = [sample_row]"
    "forCollection reg ''c'' = [a_index]" "ID a_index \<in> set (reg_ready reg)" by (rule sample_run)
  have "short_db db" using sample_data(3) by (simp add: short_db_def r(2))
  moreover have "query_ok reg ?q db"
    unfolding query_ok_def by_a_planned [OF r(3,4)]
    using by_a_ok by (simp add: r(2)) (simp add: baseConditions_def by_a_def a_query_def sample_row_def)
  ultimately have "RunQuery jsonb_contains reg ?q db = (reference ?q db, None)"
    by (rule query_answers [OF r(1) _ _ jsonb_contains_laws])
  with sample_answer [OF r(2)] r(1) show ?thesis by auto
qed

end
